(* ===== verification/Prelude.thy ===== *)
theory Prelude
  imports Complex_Main "HOL-Library.Multiset"
begin

text \<open>
  Shared vocabulary of the development: Python exceptions as values, the result of a
  call that may raise after having changed state, slices of Python lists, writes into a
  flat buffer, ceiling division, and the generic facts about them that the component
  theories use through the simplifier and the collections below.
\<close>

section \<open>Collections of rewrite rules\<close>

named_theorems run_simps "rewriting of calls that may raise"
named_theorems slice_simps "slices and buffer writes"
named_theorems cdiv_simps "ceiling division"

section \<open>Exceptions and results\<close>

datatype py_error =
    ValueError
  | RuntimeError
  | AssertionError
  | IndexError
  | KeyError
  | TypeError
  | NotImplementedError
  | PlainException
  | ZeroDivisionError
  | AttributeError

type_synonym 'a res = "py_error + 'a"

text \<open>
  A Python call that reads and writes a state of type \<open>'s\<close>: it returns a value or raises,
  and in both cases leaves a state behind (Python does not roll back on an exception).
\<close>

type_synonym ('s, 'a) run = "'s \<Rightarrow> 'a res \<times> 's"

definition ret :: "'a \<Rightarrow> ('s, 'a) run" where
  "ret x = (\<lambda>s. (Inr x, s))"

definition raise :: "py_error \<Rightarrow> ('s, 'a) run" where
  "raise e = (\<lambda>s. (Inl e, s))"

definition andthen :: "('s, 'a) run \<Rightarrow> ('a \<Rightarrow> ('s, 'b) run) \<Rightarrow> ('s, 'b) run" where
  "andthen m f = (\<lambda>s. case m s of (Inl e, s') \<Rightarrow> (Inl e, s') | (Inr x, s') \<Rightarrow> f x s')"

definition bind_res :: "'a res \<Rightarrow> ('a \<Rightarrow> 'b res) \<Rightarrow> 'b res" where
  "bind_res r f = (case r of Inl e \<Rightarrow> Inl e | Inr x \<Rightarrow> f x)"

lemma ret_app [run_simps]: "ret x s = (Inr x, s)"
  by (simp add: ret_def)

lemma raise_app [run_simps]: "raise e s = (Inl e, s)"
  by (simp add: raise_def)

lemma andthen_Inr [run_simps]: "m s = (Inr x, s') \<Longrightarrow> andthen m f s = f x s'"
  by (simp add: andthen_def)

lemma andthen_Inl [run_simps]: "m s = (Inl e, s') \<Longrightarrow> andthen m f s = (Inl e, s')"
  by (simp add: andthen_def)

lemma bind_res_simps [simp]:
  "bind_res (Inl e) f = Inl e"
  "bind_res (Inr x) f = f x"
  by (simp_all add: bind_res_def)

lemma bind_res_Inr_iff: "bind_res r f = Inr y \<longleftrightarrow> (\<exists>x. r = Inr x \<and> f x = Inr y)"
  by (cases r) auto

text \<open>A call repeated over a list, left to right, stopping at the first exception.\<close>

fun run_all :: "('a \<Rightarrow> ('s, 'b) run) \<Rightarrow> 'a list \<Rightarrow> ('s, 'b list) run" where
  "run_all f [] s = (Inr [], s)"
| "run_all f (x # xs) s =
     (case f x s of
        (Inl e, s') \<Rightarrow> (Inl e, s')
      | (Inr y, s') \<Rightarrow>
          (case run_all f xs s' of
             (Inl e, s'') \<Rightarrow> (Inl e, s'')
           | (Inr ys, s'') \<Rightarrow> (Inr (y # ys), s'')))"

text \<open>The values of a list of computations, or the first error.\<close>

fun gather_all :: "('a \<Rightarrow> 'b res) \<Rightarrow> 'a list \<Rightarrow> 'b list res" where
  "gather_all f [] = Inr []"
| "gather_all f (x # xs) = bind_res (f x) (\<lambda>y. bind_res (gather_all f xs) (\<lambda>ys. Inr (y # ys)))"

lemma gather_all_map: "(\<And>x. x \<in> set xs \<Longrightarrow> f x = Inr (g x)) \<Longrightarrow> gather_all f xs = Inr (map g xs)"
  by (induction xs) simp_all

lemma gather_all_length: "gather_all f xs = Inr ys \<Longrightarrow> length ys = length xs"
  by (induction xs arbitrary: ys) (auto simp: bind_res_def split: sum.splits)

section \<open>Slices and flat buffers\<close>

definition slice :: "'a list \<Rightarrow> nat \<Rightarrow> nat \<Rightarrow> 'a list" where
  "slice xs i j = take (j - i) (drop i xs)"

lemma length_slice [simp]: "length (slice xs i j) = min (j - i) (length xs - i)"
  by (simp add: slice_def min.commute)

lemma slice_full [simp]: "slice xs 0 (length xs) = xs"
  by (simp add: slice_def)

lemma slice_append_mid:
  "slice (xs @ ys @ zs) (length xs) (length xs + length ys) = ys"
  by (simp add: slice_def)

lemma set_slice: "set (slice xs i j) \<subseteq> set xs"
  unfolding slice_def by (meson order_trans set_drop_subset set_take_subset)

lemma nth_slice: "k < j - i \<Longrightarrow> k < length xs - i \<Longrightarrow> slice xs i j ! k = xs ! (i + k)"
  by (simp add: slice_def)

text \<open>Writing the list \<open>ys\<close> at offset \<open>k\<close>, as \<open>buf[k : k + len(ys)] = ys\<close> does.\<close>

definition blit :: "nat \<Rightarrow> 'a list \<Rightarrow> 'a list \<Rightarrow> 'a list" where
  "blit k ys buf = take k buf @ ys @ drop (k + length ys) buf"

lemma length_blit [simp]: "k + length ys \<le> length buf \<Longrightarrow> length (blit k ys buf) = length buf"
  by (simp add: blit_def)

text \<open>Stores (address, value) applied one after the other to a buffer.\<close>

definition store_all :: "'a list \<Rightarrow> (int \<times> 'a) list \<Rightarrow> 'a list" where
  "store_all buf sts = foldl (\<lambda>b (a, v). b[nat a := v]) buf sts"

lemma store_all_Nil [simp]: "store_all buf [] = buf"
  by (simp add: store_all_def)

lemma store_all_append: "store_all buf (s1 @ s2) = store_all (store_all buf s1) s2"
  by (simp add: store_all_def)

text \<open>Stores at consecutive addresses amount to one block write.\<close>

definition run_of :: "nat \<Rightarrow> 'a list \<Rightarrow> (int \<times> 'a) list" where
  "run_of k ys = zip (map int [k ..< k + length ys]) ys"

lemma run_of_Nil [simp]: "run_of k [] = []"
  by (simp add: run_of_def)

lemma run_of_Cons: "run_of k (y # ys) = (int k, y) # run_of (Suc k) ys"
proof -
  have "[k ..< k + length (y # ys)] = k # [Suc k ..< Suc k + length ys]"
    by (simp add: upt_conv_Cons del: upt_Suc)
  then show ?thesis by (simp add: run_of_def del: upt_Suc)
qed

lemma run_of_append: "run_of k (xs @ ys) = run_of k xs @ run_of (k + length xs) ys"
  by (induction xs arbitrary: k) (simp_all add: run_of_Cons)

lemma run_of_nth:
  "length sts = length ys \<Longrightarrow> (\<And>i. i < length ys \<Longrightarrow> sts ! i = (int (k + i), ys ! i)) \<Longrightarrow>
   sts = run_of k ys"
  by (rule nth_equalityI) (simp_all add: run_of_def)

lemma store_run_of:
  "k + length ys \<le> length buf \<Longrightarrow> store_all buf (run_of k ys) = blit k ys buf"
proof (induction ys arbitrary: k buf)
  case Nil
  then show ?case by (simp add: blit_def)
next
  case (Cons y ys)
  have "store_all buf (run_of k (y # ys)) = store_all (buf[k := y]) (run_of (Suc k) ys)"
    by (simp add: run_of_Cons store_all_def)
  also have "\<dots> = blit (Suc k) ys (buf[k := y])"
    using Cons.prems by (intro Cons.IH) simp
  also have "\<dots> = blit k (y # ys) buf"
    using Cons.prems by (simp add: blit_def take_Suc_conv_app_nth)
  finally show ?case .
qed

section \<open>Ceiling division\<close>

definition cdiv :: "int \<Rightarrow> int \<Rightarrow> int" where
  "cdiv a p = (a + p - 1) div p"

lemma cdiv_0 [simp]: "0 < p \<Longrightarrow> cdiv 0 p = 0"
  by (simp add: cdiv_def div_pos_pos_trivial)

lemma cdiv_ge: "0 < p \<Longrightarrow> a \<le> cdiv a p * p"
proof -
  assume p: "0 < p"
  have "(a + p - 1) div p * p = a + p - 1 - (a + p - 1) mod p"
    by (simp add: minus_mod_eq_div_mult)
  moreover have "(a + p - 1) mod p < p" using p by simp
  ultimately show ?thesis unfolding cdiv_def by linarith
qed

lemma cdiv_less: "0 < p \<Longrightarrow> cdiv a p * p < a + p"
proof -
  assume p: "0 < p"
  have "(a + p - 1) div p * p = a + p - 1 - (a + p - 1) mod p"
    by (simp add: minus_mod_eq_div_mult)
  moreover have "0 \<le> (a + p - 1) mod p" using p by simp
  ultimately show ?thesis unfolding cdiv_def by linarith
qed

lemma cdiv_mono: "0 < p \<Longrightarrow> a \<le> b \<Longrightarrow> cdiv a p \<le> cdiv b p"
  unfolding cdiv_def by (intro zdiv_mono1) simp_all

lemma cdiv_nonneg: "0 < p \<Longrightarrow> 0 \<le> a \<Longrightarrow> 0 \<le> cdiv a p"
  using cdiv_mono [of p 0 a] by simp

lemma cdiv_eq_div: "0 < p \<Longrightarrow> cdiv a p = a div p + (if a mod p = 0 then 0 else 1)"
proof -
  assume p: "0 < p"
  let ?q = "a div p" and ?r = "a mod p"
  have a: "a = ?q * p + ?r" by simp
  have "a + p - 1 = (?r + p - 1) + ?q * p" using a by linarith
  then have c: "cdiv a p = ?q + (?r + p - 1) div p"
    unfolding cdiv_def using p by (metis div_mult_self1 less_irrefl)
  have r: "0 \<le> ?r" "?r < p" using p by simp_all
  have "(?r + p - 1) div p = (if ?r = 0 then 0 else 1)"
  proof (cases "?r = 0")
    case True
    then show ?thesis using p by (simp add: div_pos_pos_trivial)
  next
    case False
    then have "?r + p - 1 = (?r - 1) + 1 * p" by simp
    then have "(?r + p - 1) div p = (?r - 1) div p + 1" using p
      by (metis add.commute div_mult_self1 less_irrefl)
    moreover have "(?r - 1) div p = 0" using False r by (simp add: div_pos_pos_trivial)
    ultimately show ?thesis using False by simp
  qed
  then show ?thesis using c by simp
qed

lemma div_mult_le_self: "0 < p \<Longrightarrow> a div p * p \<le> (a::int)"
  using minus_mod_eq_div_mult [of a p] pos_mod_sign [of p a] by linarith

lemma div_mult_gt_self: "0 < p \<Longrightarrow> (a::int) < a div p * p + p"
  using minus_mod_eq_div_mult [of a p] pos_mod_bound [of p a] by linarith

lemma div_less_of_mult:
  assumes "0 < p" "(k::int) < q * p"
  shows "k div p < q"
proof (rule ccontr)
  assume "\<not> k div p < q"
  then have "q * p \<le> k div p * p" using assms(1) by (intro mult_right_mono) simp_all
  with div_mult_le_self [OF assms(1), of k] assms(2) show False by simp
qed

lemma cdiv_le_div: "0 < p \<Longrightarrow> cdiv b p * p < a \<Longrightarrow> cdiv b p \<le> a div p"
  using zdiv_mono1 [of "cdiv b p * p" a p] by simp

lemmas cdiv_bounds = cdiv_ge cdiv_less cdiv_mono cdiv_nonneg

end
