(* ===== verification/AllocKernels.thy ===== *)
theory AllocKernels
  imports Allocator
begin

text \<open>
  The Triton kernels of the paged allocator against the page layout they are to produce.
  \<open>extend_slots\<close> and \<open>extend_layout\<close> say which slot each new token of a request gets: the
  rest of its last page first, then the pages it is handed, in order. The kernels compute
  the same slots per program instance from lane sums; masked lanes cancel, every output
  cell is written exactly once, and no load beyond the free list reaches the result.
\<close>

section \<open>Powers of two and integer intervals\<close>


lemma less_pow_bit_length: "n < 2 ^ bit_length n"
proof (induction n rule: bit_length.induct)
  case (1 n)
  show ?case
  proof (cases "n = 0")
    case True
    then show ?thesis by simp
  next
    case False
    with "1.IH" have "n div 2 < 2 ^ bit_length (n div 2)" by simp
    then have "n < 2 * 2 ^ bit_length (n div 2)" by linarith
    with False show ?thesis by (simp add: bit_length.simps [of n])
  qed
qed

lemma next_power_of_2_ge: "n \<le> next_power_of_2 n"
  using less_pow_bit_length [of "n - 1"]
  by (cases n) (simp_all add: next_power_of_2_def Suc_le_eq)

lemma filter_upto: "n \<le> m \<Longrightarrow> filter (\<lambda>k. k < n) [0 .. m - 1] = [0 .. n - (1::int)]"
proof -
  assume nm: "n \<le> m"
  show ?thesis
  proof (cases "0 < n")
    case True
    have "[0 .. m - 1] = [0 .. n - 1] @ [n .. m - 1]"
      using upto_split1 [of 0 n "m - 1"] True nm
      by (cases "n = m") (simp_all add: upto_split1)
    moreover have "filter (\<lambda>k. k < n) [0 .. n - 1] = [0 .. n - 1]"
      by (simp add: filter_id_conv)
    moreover have "filter (\<lambda>k. k < n) [n .. m - 1] = []"
      by (simp add: filter_empty_conv)
    ultimately show ?thesis by simp
  next
    case False
    then have "filter (\<lambda>k. k < n) [0 .. m - 1] = []" by (auto simp: filter_empty_conv)
    with False show ?thesis by simp
  qed
qed

lemma upto_eq_map_upt: "[a .. a + int n - 1] = map (\<lambda>k. a + int k) [0 ..< n]"
  by (rule nth_equalityI) (simp_all add: nth_upto)

lemma map_stores: "map (\<lambda>k. (int s + k, f k)) [0 .. n - 1] = run_of s (map f [0 .. n - (1::int)])"
  by (rule run_of_nth) (simp_all add: nth_upto)

lemma map_upto_shift: "map f [a .. a + n - 1] = map (\<lambda>k. f (a + k)) [0 .. n - (1::int)]"
  by (rule nth_equalityI) (simp_all add: nth_upto algebra_simps)

lemma upto_split: "a \<le> b \<Longrightarrow> b \<le> c \<Longrightarrow> [a .. c - 1] = [a .. b - 1] @ [b .. c - (1::int)]"
proof -
  assume "a \<le> b" "b \<le> c"
  then show ?thesis
    by (cases "a = b"; cases "b = c") (auto intro: upto_split1 simp: upto_split1)
qed
section \<open>The layout of an extension\<close>

definition extend_slots :: "int \<Rightarrow> int \<Rightarrow> int \<Rightarrow> int \<Rightarrow> int list \<Rightarrow> int list" where
  "extend_slots P pre seq lst pages =
     map (\<lambda>t. if t < cdiv pre P * P then lst + 1 + (t - pre)
              else pages ! nat (t div P - cdiv pre P) * P + t mod P) [pre .. seq - 1]"

definition lane_sum :: "(int \<Rightarrow> int) \<Rightarrow> int list \<Rightarrow> int list \<Rightarrow> nat \<Rightarrow> int" where
  "lane_sum f xs ys k = sum_list (take k (map2 (\<lambda>x y. f x - f y) xs ys))"

lemma lane_sum_Suc:
  "k < length xs \<Longrightarrow> length ys = length xs \<Longrightarrow>
   lane_sum f xs ys (Suc k) = lane_sum f xs ys k + (f (xs ! k) - f (ys ! k))"
  by (simp add: lane_sum_def take_Suc_conv_app_nth)

lemma lane_sum_0 [simp]: "lane_sum f xs ys 0 = 0"
  by (simp add: lane_sum_def)

lemma lane_sum_as_sum:
  "k \<le> length xs \<Longrightarrow> length ys = length xs \<Longrightarrow>
   lane_sum f xs ys k = (\<Sum>j<k. f (xs ! j) - f (ys ! j))"
  by (induction k) (simp_all add: lane_sum_Suc)

text \<open>Masked-off lanes cancel, whatever they hold.\<close>

lemma sum_masked_lanes:
  assumes "pid < length xs" "length ys = length xs" "length xs \<le> lanes"
  shows "sum_list (map2 (-) (map f (masked_load h xs lanes pid)) (map f (masked_load h ys lanes pid)))
         = lane_sum f xs ys (Suc pid)"
proof -
  let ?g = "\<lambda>j. if j \<le> pid then f (xs ! j) - f (ys ! j) else 0"
  have "map2 (-) (map f (masked_load h xs lanes pid)) (map f (masked_load h ys lanes pid))
        = map ?g [0 ..< lanes]"
    by (rule nth_equalityI) (simp_all add: masked_load_def)
  then have "sum_list (map2 (-) (map f (masked_load h xs lanes pid)) (map f (masked_load h ys lanes pid)))
        = sum_list (map ?g [0 ..< lanes])" by simp
  also have "\<dots> = (\<Sum>j\<in>{0..<lanes}. ?g j)"
    by (simp add: sum_list_distinct_conv_sum_set)
  also have "\<dots> = (\<Sum>j\<in>{..<Suc pid}. f (xs ! j) - f (ys ! j))"
    using assms by (intro sum.mono_neutral_cong_right) auto
  also have "\<dots> = lane_sum f xs ys (Suc pid)"
    using assms by (subst lane_sum_as_sum) simp_all
  finally show ?thesis .
qed

lemmas sum_masked_lens = sum_masked_lanes [where f = "\<lambda>x. x", simplified]

lemma lane_sum_nonneg:
  assumes "k \<le> length xs" "length ys = length xs" "\<And>j. j < k \<Longrightarrow> f (ys ! j) \<le> f (xs ! j)"
  shows "0 \<le> lane_sum f xs ys k"
  using assms by (subst lane_sum_as_sum) (auto intro!: sum_nonneg)

lemma extend_slots_split:
  assumes "0 < P" "0 \<le> R" "R \<le> S"
  defines "c \<equiv> cdiv R P"
  shows "extend_slots P R S lst pages =
     map (\<lambda>k. lst + 1 + k) [0 .. min S (c * P) - R - 1]
     @ (if S \<le> c * P then []
        else map (\<lambda>k. pages ! nat (k div P) * P + k mod P) [0 .. S div P * P - c * P - 1]
             @ map (\<lambda>k. pages ! nat (S div P - c) * P + k) [0 .. S - S div P * P - 1])"
proof -
  let ?F = "\<lambda>t. if t < c * P then lst + 1 + (t - R) else pages ! nat (t div P - c) * P + t mod P"
  have E: "extend_slots P R S lst pages = map ?F [R .. S - 1]"
    by (simp add: extend_slots_def c_def)
  have Rc: "R \<le> c * P" using assms by (simp add: cdiv_ge)
  have part1: "map ?F [R .. m - 1] = map (\<lambda>k. lst + 1 + k) [0 .. m - R - 1]" if "m \<le> c * P" for m
  proof -
    have "map ?F [R .. m - 1] = map ?F [R .. R + (m - R) - 1]" by simp
    also have "\<dots> = map (\<lambda>k. ?F (R + k)) [0 .. m - R - 1]" by (rule map_upto_shift)
    also have "\<dots> = map (\<lambda>k. lst + 1 + k) [0 .. m - R - 1]"
      using that by (intro map_cong) auto
    finally show ?thesis .
  qed
  show ?thesis
  proof (cases "S \<le> c * P")
    case True
    then show ?thesis using E part1 [of S] by (simp add: min_absorb1)
  next
    case False
    let ?b = "S div P * P"
    have b1: "?b \<le> S" using assms(1) by (rule div_mult_le_self)
    have cS: "c \<le> S div P" using False assms(1) unfolding c_def
      by (intro cdiv_le_div) simp_all
    have b2: "c * P \<le> ?b" using cS assms(1) by (simp add: mult_right_mono)
    have Srest: "S < ?b + P" using assms(1) by (rule div_mult_gt_self)
    have "[R .. S - 1] = [R .. c * P - 1] @ [c * P .. ?b - 1] @ [?b .. S - 1]"
      using upto_split [OF Rc, of S] upto_split [OF b2 b1] False by simp
    moreover have "map ?F [c * P .. ?b - 1]
        = map (\<lambda>k. pages ! nat (k div P) * P + k mod P) [0 .. ?b - c * P - 1]"
    proof -
      have "map ?F [c * P .. ?b - 1] = map ?F [c * P .. c * P + (?b - c * P) - 1]" by simp
      also have "\<dots> = map (\<lambda>k. ?F (c * P + k)) [0 .. ?b - c * P - 1]" by (rule map_upto_shift)
      also have "\<dots> = map (\<lambda>k. pages ! nat (k div P) * P + k mod P) [0 .. ?b - c * P - 1]"
        using assms(1) by (intro map_cong) auto
      finally show ?thesis .
    qed
    moreover have "map ?F [?b .. S - 1] = map (\<lambda>k. pages ! nat (S div P - c) * P + k) [0 .. S - ?b - 1]"
    proof -
      have "map ?F [?b .. S - 1] = map ?F [?b .. ?b + (S - ?b) - 1]" by simp
      also have "\<dots> = map (\<lambda>k. ?F (?b + k)) [0 .. S - ?b - 1]" by (rule map_upto_shift)
      also have "\<dots> = map (\<lambda>k. pages ! nat (S div P - c) * P + k) [0 .. S - ?b - 1]"
      proof (rule map_cong [OF refl])
        fix k assume "k \<in> set [0 .. S - ?b - 1]"
        then have k: "0 \<le> k" "k < P" using Srest by auto
        then have "(?b + k) div P = S div P" "(?b + k) mod P = k"
          using assms(1) by (simp_all add: div_pos_pos_trivial mod_pos_pos_trivial)
        moreover have "\<not> ?b + k < c * P" using k b2 by linarith
        ultimately show "?F (?b + k) = pages ! nat (S div P - c) * P + k" by simp
      qed
      finally show ?thesis .
    qed
    ultimately show ?thesis using E part1 [of "c * P"] False by simp
  qed
qed


text \<open>
  The stores of one program instance once the lane sums are known: \<open>s0\<close> is where its
  output starts, \<open>pg i\<close> the \<open>i\<close>-th page it is given.
\<close>

definition extend_stores ::
  "int \<Rightarrow> nat \<Rightarrow> int \<Rightarrow> int \<Rightarrow> int \<Rightarrow> int \<Rightarrow> (int \<Rightarrow> int) \<Rightarrow> (int \<times> int) list" where
  "extend_stores P maxt R S lst s0 pg =
     (let c = cdiv R P;
          np1 = min S (c * P) - R;
          part1 = map (\<lambda>k. (s0 + k, lst + 1 + k)) (filter (\<lambda>k. k < np1) [0 .. P - 1]);
          np2 = S div P * P - c * P;
          part2 = map (\<lambda>k. (s0 + np1 + k, pg (k div P) * P + k mod P))
                    (filter (\<lambda>k. k < np2) [0 .. int maxt - 1]);
          part3 = map (\<lambda>k. (s0 + np1 + np2 + k, pg (cdiv S P - c - 1) * P + k))
                    (filter (\<lambda>k. k < S - S div P * P) [0 .. P - 1])
      in if R + np1 = S then part1
         else if R + np1 + np2 = S then part1 @ part2 else part1 @ part2 @ part3)"

lemma alloc_extend_kernel_stores:
  assumes "pid < length pre" "length seq = length pre" "length pre \<le> lanes"
  shows "alloc_extend_kernel h pre seq lloc fp lanes P maxt pid =
    extend_stores P maxt (pre ! pid) (seq ! pid) (lloc ! pid) (lane_sum (\<lambda>x. x) seq pre pid)
      (\<lambda>i. page_load h fp (lane_sum (\<lambda>x. cdiv x P) seq pre pid + i))"
proof -
  have sums: "sum_list (map2 (-) (map f (masked_load h seq lanes pid)) (map f (masked_load h pre lanes pid)))
      = lane_sum f seq pre pid + (f (seq ! pid) - f (pre ! pid))" for f
  proof -
    have "lane_sum f seq pre (Suc pid) = lane_sum f seq pre pid + (f (seq ! pid) - f (pre ! pid))"
      by (rule lane_sum_Suc) (use assms in simp_all)
    moreover have "sum_list (map2 (-) (map f (masked_load h seq lanes pid)) (map f (masked_load h pre lanes pid)))
      = lane_sum f seq pre (Suc pid)"
      by (rule sum_masked_lanes) (use assms in simp_all)
    ultimately show ?thesis by (rule trans [rotated])
  qed
  have sum1: "sum_list (map2 (-) (masked_load h seq lanes pid) (masked_load h pre lanes pid))
      = lane_sum (\<lambda>x. x) seq pre pid + (seq ! pid - pre ! pid)"
    using sums [of "\<lambda>x. x"] by (simp only: list.map_ident)
  have part3: "page_load h fp (a + b - 1) = page_load h fp (a + (b - 1))" for a b by (simp add: algebra_simps)
  show ?thesis
    unfolding alloc_extend_kernel_def Let_def cdiv_def [symmetric] sum1 sums
      add_diff_cancel_right' extend_stores_def part3
    by (rule refl)
qed


lemma extend_stores_full:
  assumes P: "0 < P" and R: "0 \<le> R" and s0: "0 \<le> s0" and big: "cdiv R P * P < S"
    and maxt: "S - R \<le> int maxt"
    and pg: "\<And>i. 0 \<le> i \<Longrightarrow> i < cdiv S P - cdiv R P \<Longrightarrow> pg i = pages ! nat i"
  shows "extend_stores P maxt R S lst s0 pg =
     run_of (nat s0) (map (\<lambda>k. lst + 1 + k) [0 .. cdiv R P * P - R - 1]
       @ map (\<lambda>k. pages ! nat (k div P) * P + k mod P) [0 .. S div P * P - cdiv R P * P - 1]
       @ map (\<lambda>k. pages ! nat (S div P - cdiv R P) * P + k) [0 .. S - S div P * P - 1])"
proof -
  let ?b = "S div P * P"
  define l1 where "l1 = map (\<lambda>k. lst + 1 + k) [0 .. cdiv R P * P - R - 1]"
  define l2 where "l2 = map (\<lambda>k. pages ! nat (k div P) * P + k mod P) [0 .. ?b - cdiv R P * P - 1]"
  define l3 where "l3 = map (\<lambda>k. pages ! nat (S div P - cdiv R P) * P + k) [0 .. S - ?b - 1]"
  define c where "c = cdiv R P"
  define np1 where "np1 = c * P - R"
  define np2 where "np2 = ?b - c * P"
  have np1: "0 \<le> np1" "np1 \<le> P"
    using cdiv_ge [OF P, of R] cdiv_less [OF P, of R] by (simp_all add: np1_def c_def)
  have cS: "c \<le> S div P" unfolding c_def using P big by (intro cdiv_le_div)
  have b: "?b \<le> S" "S < ?b + P" using P by (simp_all add: div_mult_le_self div_mult_gt_self)
  have np2: "0 \<le> np2" using cS P by (simp add: mult_right_mono np2_def)
  have f1: "filter (\<lambda>k. k < np1) [0 .. P - 1] = [0 .. np1 - 1]"
    using np1 by (intro filter_upto)
  have f2: "filter (\<lambda>k. k < np2) [0 .. int maxt - 1] = [0 .. np2 - 1]"
    using maxt b np1 by (intro filter_upto) (simp add: np1_def np2_def)
  have f3: "filter (\<lambda>k. k < S - ?b) [0 .. P - 1] = [0 .. S - ?b - 1]"
    using b by (intro filter_upto) simp
  have p1: "map (\<lambda>k. (s0 + k, lst + 1 + k)) [0 .. np1 - 1] = run_of (nat s0) l1"
    using map_stores [of "nat s0" "\<lambda>k. lst + 1 + k" np1] s0 by (simp add: np1_def c_def l1_def)
  have p2: "map (\<lambda>k. (s0 + np1 + k, pg (k div P) * P + k mod P)) [0 .. np2 - 1]
      = run_of (nat s0 + nat np1) l2"
  proof -
    have "pg (k div P) = pages ! nat (k div P)" if "k \<in> set [0 .. np2 - 1]" for k
    proof (rule pg)
      show "0 \<le> k div P" using that P by (simp add: pos_imp_zdiv_nonneg_iff)
      have "k div P < S div P - c" using that P
        by (intro div_less_of_mult) (simp_all add: np2_def left_diff_distrib)
      then show "k div P < cdiv S P - cdiv R P"
        using cdiv_eq_div [OF P, of S] by (simp add: c_def split: if_splits)
    qed
    then have "map (\<lambda>k. (s0 + np1 + k, pg (k div P) * P + k mod P)) [0 .. np2 - 1]
      = map (\<lambda>k. (int (nat s0 + nat np1) + k, pages ! nat (k div P) * P + k mod P)) [0 .. np2 - 1]"
      using s0 np1 by (intro map_cong) auto
    then show ?thesis by (simp only: map_stores np2_def c_def l2_def)
  qed
  have p3: "map (\<lambda>k. (s0 + np1 + np2 + k, pg (cdiv S P - c - 1) * P + k)) [0 .. S - ?b - 1]
      = run_of (nat s0 + nat np1 + nat np2) l3"
  proof (cases "S mod P = 0")
    case True
    then have "S = ?b" using minus_mod_eq_div_mult [of S P] by simp
    then have "[0 .. S - ?b - 1] = []" by simp
    then show ?thesis by (simp only: list.map run_of_Nil l3_def)
  next
    case False
    then have e: "cdiv S P - c - 1 = S div P - c" using cdiv_eq_div [OF P, of S] by simp
    have "pg (cdiv S P - c - 1) = pages ! nat (S div P - c)"
      unfolding e using e cS by (intro pg) (simp_all add: c_def)
    then have "map (\<lambda>k. (s0 + np1 + np2 + k, pg (cdiv S P - c - 1) * P + k)) [0 .. S - ?b - 1]
        = map (\<lambda>k. (int (nat s0 + nat np1 + nat np2) + k, pages ! nat (S div P - c) * P + k)) [0 .. S - ?b - 1]"
      using s0 np1 np2 by (intro map_cong) auto
    then show ?thesis by (simp only: map_stores c_def l3_def)
  qed
  have "min S (c * P) - R = np1" using big by (simp add: np1_def c_def)
  then have "extend_stores P maxt R S lst s0 pg =
     (if R + np1 = S then run_of (nat s0) l1
      else if R + np1 + np2 = S then run_of (nat s0) l1 @ run_of (nat s0 + nat np1) l2
      else run_of (nat s0) l1 @ run_of (nat s0 + nat np1) l2
           @ run_of (nat s0 + nat np1 + nat np2) l3)"
    unfolding extend_stores_def Let_def c_def [symmetric] np2_def [symmetric]
    by (simp only: f1 f2 f3 p1 p2 p3)
  moreover have "R + np1 \<noteq> S" using big by (simp add: np1_def c_def)
  moreover have "l3 = []" if "R + np1 + np2 = S" using that by (simp add: np1_def np2_def l3_def)
  moreover have "length l1 = nat np1" "length l2 = nat np2" by (simp_all add: np1_def np2_def c_def l1_def l2_def)
  ultimately have "extend_stores P maxt R S lst s0 pg = run_of (nat s0) (l1 @ l2 @ l3)"
    by (simp add: run_of_append add.assoc)
  then show ?thesis by (simp only: l1_def l2_def l3_def)
qed

lemma extend_stores_eq:
  assumes P: "0 < P" and R: "0 \<le> R" and RS: "R \<le> S" and s0: "0 \<le> s0"
    and maxt: "S - R \<le> int maxt"
    and pg: "\<And>i. 0 \<le> i \<Longrightarrow> i < cdiv S P - cdiv R P \<Longrightarrow> pg i = pages ! nat i"
  shows "extend_stores P maxt R S lst s0 pg = run_of (nat s0) (extend_slots P R S lst pages)"
proof (cases "S \<le> cdiv R P * P")
  case True
  have "S - R \<le> P" using True cdiv_less [OF P, of R] by simp
  then have "filter (\<lambda>k. k < S - R) [0 .. P - 1] = [0 .. S - R - 1]" by (intro filter_upto)
  then have "extend_stores P maxt R S lst s0 pg = map (\<lambda>k. (s0 + k, lst + 1 + k)) [0 .. S - R - 1]"
    using True by (simp add: extend_stores_def Let_def)
  also have "\<dots> = run_of (nat s0) (map (\<lambda>k. lst + 1 + k) [0 .. S - R - 1])"
    using map_stores [of "nat s0" "\<lambda>k. lst + 1 + k" "S - R"] s0 by simp
  finally show ?thesis using extend_slots_split [OF P R RS, of lst pages] True by simp
next
  case False
  then show ?thesis
    using extend_stores_full [OF P R s0 _ maxt pg] extend_slots_split [OF P R RS, of lst pages]
    by (simp add: min_absorb2)
qed

fun extend_layout :: "int \<Rightarrow> int list \<Rightarrow> int list \<Rightarrow> int list \<Rightarrow> int list \<Rightarrow> int list list" where
  "extend_layout P (r # pre) (s # seq) (l # lloc) fp =
     (let m = nat (cdiv s P - cdiv r P)
      in extend_slots P r s l (take m fp) # extend_layout P pre seq lloc (drop m fp))"
| "extend_layout P _ _ _ fp = []"

lemma lane_sum_Cons [simp]:
  "lane_sum f (x # xs) (y # ys) (Suc k) = (f x - f y) + lane_sum f xs ys k"
  by (simp add: lane_sum_def)

lemma length_extend_slots [simp]: "length (extend_slots P R S lst pages) = nat (S - R)"
  by (simp add: extend_slots_def)

lemma length_extend_layout [simp]:
  "length seq = length pre \<Longrightarrow> length lloc = length pre \<Longrightarrow>
   length (extend_layout P pre seq lloc fp) = length pre"
proof (induction P pre seq lloc fp rule: extend_layout.induct)
qed (auto simp: Let_def)

lemma slice_drop: "slice (drop m xs) a b = slice xs (m + a) (m + b)"
  by (simp add: slice_def add.commute)

lemma lane_sum_mono:
  assumes "i \<le> k" "k \<le> length xs" "length ys = length xs"
    "\<And>j. j < k \<Longrightarrow> f (ys ! j) \<le> f (xs ! j)"
  shows "lane_sum f xs ys i \<le> lane_sum f xs ys k"
proof -
  have "(\<Sum>j<i. f (xs ! j) - f (ys ! j)) \<le> (\<Sum>j<k. f (xs ! j) - f (ys ! j))"
    using assms by (intro sum_mono2) auto
  then show ?thesis using assms by (simp add: lane_sum_as_sum)
qed

lemma extend_layout_nth:
  assumes "0 < P" "i < length pre" "length seq = length pre" "length lloc = length pre"
    "\<And>j. j < length pre \<Longrightarrow> pre ! j \<le> seq ! j"
  shows "extend_layout P pre seq lloc fp ! i =
    extend_slots P (pre ! i) (seq ! i) (lloc ! i)
      (slice fp (nat (lane_sum (\<lambda>x. cdiv x P) seq pre i))
                (nat (lane_sum (\<lambda>x. cdiv x P) seq pre (Suc i))))"
  using assms(2-)
proof (induction pre arbitrary: seq lloc fp i)
  case Nil
  then show ?case by simp
next
  case (Cons r pre)
  from Cons.prems obtain s seq' l lloc' where lists: "seq = s # seq'" "lloc = l # lloc'"
    "length seq' = length pre" "length lloc' = length pre"
    by (cases seq; cases lloc) auto
  let ?f = "\<lambda>x. cdiv x P"
  let ?m = "nat (cdiv s P - cdiv r P)"
  show ?case
  proof (cases i)
    case 0
    then show ?thesis using lists by (simp add: Let_def slice_def)
  next
    case (Suc k)
    have le: "pre ! j \<le> seq' ! j" if "j < length pre" for j
      using Cons.prems(4) [of "Suc j"] that lists by simp
    have m: "0 \<le> cdiv s P - cdiv r P"
      using Cons.prems(4) [of 0] lists assms(1) by (simp add: cdiv_mono)
    have ls: "0 \<le> lane_sum ?f seq' pre j" if "j \<le> length pre" for j
      by (rule lane_sum_nonneg) (use that lists(3) le assms(1) in \<open>simp_all add: cdiv_mono\<close>)
    have k: "k < length pre" using Cons.prems(1) Suc by simp
    have IH: "extend_layout P pre seq' lloc' (drop ?m fp) ! k =
        extend_slots P (pre ! k) (seq' ! k) (lloc' ! k)
          (slice (drop ?m fp) (nat (lane_sum ?f seq' pre k)) (nat (lane_sum ?f seq' pre (Suc k))))"
      by (rule Cons.IH [OF k lists(3,4) le])
    then show ?thesis
      using Suc lists m ls [of k] ls [of "Suc k"] k
      by (simp add: Let_def slice_drop nat_add_distrib)
  qed
qed

lemma store_blocks:
  assumes "length buf = length (concat xss)" "k \<le> length xss"
    "\<And>i. i < length xss \<Longrightarrow> sts i = run_of (length (concat (take i xss))) (xss ! i)"
  shows "store_all buf (concat (map sts [0 ..< k])) =
    concat (take k xss) @ drop (length (concat (take k xss))) buf"
  using assms(2)
proof (induction k)
  case 0
  then show ?case by simp
next
  case (Suc k)
  let ?a = "length (concat (take k xss))"
  have split: "take (Suc k) xss = take k xss @ [xss ! k]"
    using Suc.prems by (simp add: take_Suc_conv_app_nth)
  have fit: "?a + length (xss ! k) \<le> length buf"
  proof -
    have "concat xss = concat (take (Suc k) xss) @ concat (drop (Suc k) xss)"
      by (metis append_take_drop_id concat_append)
    then show ?thesis using assms(1) split by simp
  qed
  have "store_all buf (concat (map sts [0 ..< Suc k])) =
     store_all (concat (take k xss) @ drop ?a buf) (run_of ?a (xss ! k))"
    using Suc assms(3) [of k] by (simp add: store_all_append)
  also have "\<dots> = blit ?a (xss ! k) (concat (take k xss) @ drop ?a buf)"
    using fit by (intro store_run_of) simp
  also have "\<dots> = concat (take (Suc k) xss) @ drop (length (concat (take (Suc k) xss))) buf"
    using split by (simp add: blit_def add.commute)
  finally show ?case .
qed

lemma length_concat_take_layout:
  assumes "length seq = length pre" "length lloc = length pre" "i \<le> length pre" "0 < P"
    "\<And>j. j < length pre \<Longrightarrow> pre ! j \<le> seq ! j"
  shows "length (concat (take i (extend_layout P pre seq lloc fp))) = nat (lane_sum (\<lambda>x. x) seq pre i)"
  using assms(3)
proof (induction i)
  case 0
  then show ?case by simp
next
  case (Suc i)
  let ?L = "extend_layout P pre seq lloc fp"
  have i: "i < length pre" using Suc.prems by simp
  have "take (Suc i) ?L = take i ?L @ [?L ! i]"
    using i assms(1,2) by (simp add: take_Suc_conv_app_nth)
  moreover have "0 \<le> lane_sum (\<lambda>x. x) seq pre i"
    by (rule lane_sum_nonneg) (use i assms in simp_all)
  moreover have "lane_sum (\<lambda>x. x) seq pre (Suc i) = lane_sum (\<lambda>x. x) seq pre i + (seq ! i - pre ! i)"
    by (rule lane_sum_Suc) (use i assms in simp_all)
  ultimately show ?case
    using Suc.IH i assms(5) [OF i] extend_layout_nth [OF assms(4) i assms(1,2,5), of fp]
    by (simp add: nat_add_distrib)
qed

lemma kernel_is_layout:
  assumes P: "0 < P" and len: "length seq = length pre" "length lloc = length pre"
    and le: "\<And>j. j < length pre \<Longrightarrow> 0 \<le> pre ! j \<and> pre ! j \<le> seq ! j"
    and pages: "lane_sum (\<lambda>x. cdiv x P) seq pre (length pre) \<le> int (length fp)"
    and lanes: "length pre \<le> lanes" and i: "i < length pre"
    and maxt: "seq ! i - pre ! i \<le> int maxt"
  shows "alloc_extend_kernel h pre seq lloc fp lanes P maxt i =
    run_of (length (concat (take i (extend_layout P pre seq lloc fp))))
      (extend_layout P pre seq lloc fp ! i)"
proof -
  let ?f = "\<lambda>x. cdiv x P"
  have le': "pre ! j \<le> seq ! j" if "j < length pre" for j using le [OF that] by simp
  have nn: "0 \<le> lane_sum ?f seq pre j" if "j \<le> length pre" for j
    by (rule lane_sum_nonneg) (use that len le' P in \<open>simp_all add: cdiv_mono\<close>)
  have suc: "lane_sum ?f seq pre (Suc i) = lane_sum ?f seq pre i + (cdiv (seq ! i) P - cdiv (pre ! i) P)"
    by (rule lane_sum_Suc) (use i len in simp_all)
  have bound: "lane_sum ?f seq pre (Suc i) \<le> int (length fp)"
  proof -
    have "lane_sum ?f seq pre (Suc i) \<le> lane_sum ?f seq pre (length pre)"
      by (rule lane_sum_mono) (use i len le' P in \<open>simp_all add: cdiv_mono\<close>)
    then show ?thesis using pages by simp
  qed
  have pg: "page_load h fp (lane_sum ?f seq pre i + k) =
      slice fp (nat (lane_sum ?f seq pre i)) (nat (lane_sum ?f seq pre (Suc i))) ! nat k"
    if "0 \<le> k" "k < cdiv (seq ! i) P - cdiv (pre ! i) P" for k
    using that nn [of i] bound suc i
    by (simp add: page_load_def nth_slice nat_add_distrib)
  have "alloc_extend_kernel h pre seq lloc fp lanes P maxt i =
    run_of (nat (lane_sum (\<lambda>x. x) seq pre i)) (extend_layout P pre seq lloc fp ! i)"
    unfolding alloc_extend_kernel_stores [OF i len(1) lanes]
      extend_layout_nth [OF P i len le', simplified]
    by (rule extend_stores_eq) (use P le [OF i] maxt pg len i le' in \<open>auto intro!: lane_sum_nonneg\<close>)
  then show ?thesis using length_concat_take_layout [OF len _ P le', of i fp] i by simp
qed

section \<open>The extend operation of the paged allocator\<close>

text \<open>The free list an extension draws from: sorted and merged first when it may be short.\<close>

definition extend_free_pages :: "kv_alloc \<Rightarrow> nat \<Rightarrow> nat \<Rightarrow> int list" where
  "extend_free_pages st n bs =
     (if need_sort st \<and> n div page_size st + bs + 1 > length (free_pages st)
      then free_pages (merge_and_sort_free st) else free_pages st)"

text \<open>What callers of \<open>alloc_extend\<close> pass: one entry per request, lengths that only grow, and their total.\<close>

definition extend_args_ok :: "int list \<Rightarrow> int list \<Rightarrow> int list \<Rightarrow> nat \<Rightarrow> bool" where
  "extend_args_ok pre seq lloc n \<longleftrightarrow>
     length seq = length pre \<and> length lloc = length pre \<and>
     list_all2 (\<lambda>p s. 0 \<le> p \<and> p \<le> s) pre seq \<and>
     int n = sum_list (map2 (-) seq pre)"

lemma extend_args_okD:
  assumes "extend_args_ok pre seq lloc n"
  shows "length seq = length pre" "length lloc = length pre"
    "\<And>j. j < length pre \<Longrightarrow> 0 \<le> pre ! j \<and> pre ! j \<le> seq ! j"
    "int n = lane_sum (\<lambda>x. x) seq pre (length pre)"
proof -
  show l: "length seq = length pre" "length lloc = length pre"
    using assms unfolding extend_args_ok_def by blast+
  show "0 \<le> pre ! j \<and> pre ! j \<le> seq ! j" if "j < length pre" for j
    using assms that list_all2_nthD unfolding extend_args_ok_def by blast
  have "int n = sum_list (map2 (-) seq pre)" using assms unfolding extend_args_ok_def by blast
  moreover have "take (length pre) (map2 (\<lambda>x y. x - y) seq pre) = map2 (-) seq pre"
    using l(1) by simp
  ultimately show "int n = lane_sum (\<lambda>x. x) seq pre (length pre)"
    by (simp only: lane_sum_def)
qed

lemma num_new_pages_lane_sum:
  "length seq = length pre \<Longrightarrow>
   get_num_new_pages_extend seq P pre = lane_sum (\<lambda>x. cdiv x P) seq pre (length pre)"
proof -
  assume len: "length seq = length pre"
  have "map2 (-) (map (\<lambda>s. (s + P - 1) div P) seq) (map (\<lambda>p. (p + P - 1) div P) pre)
      = map2 (\<lambda>x y. cdiv x P - cdiv y P) seq pre"
    using len by (intro nth_equalityI) (simp_all add: cdiv_def)
  then show ?thesis using len by (simp add: get_num_new_pages_extend_def lane_sum_def Let_def)
qed

lemma store_layout:
  assumes "0 < P" "extend_args_ok pre seq lloc n"
    "lane_sum (\<lambda>x. cdiv x P) seq pre (length pre) \<le> int (length fp)" "n \<le> maxt"
  shows "store_all (map (uninit_cell h) [0 ..< n])
     (concat (map (alloc_extend_kernel h pre seq lloc fp (next_power_of_2 (length pre)) P maxt)
        [0 ..< length pre]))
   = concat (extend_layout P pre seq lloc fp)"
proof -
  let ?L = "extend_layout P pre seq lloc fp"
  note ok = extend_args_okD [OF assms(2)]
  have le: "pre ! j \<le> seq ! j" if "j < length pre" for j using ok(3) [OF that] by simp
  have lenL: "length ?L = length pre" using ok by simp
  have tot: "length (concat ?L) = n"
    using length_concat_take_layout [OF ok(1,2) order_refl assms(1) le, of fp] ok(4) lenL by simp
  have grow: "seq ! i - pre ! i \<le> int maxt" if "i < length pre" for i
  proof -
    have "lane_sum (\<lambda>x. x) seq pre (Suc i) \<le> lane_sum (\<lambda>x. x) seq pre (length pre)"
      by (rule lane_sum_mono) (use that ok le in simp_all)
    moreover have "lane_sum (\<lambda>x. x) seq pre (Suc i) = lane_sum (\<lambda>x. x) seq pre i + (seq ! i - pre ! i)"
      by (rule lane_sum_Suc) (use that ok in simp_all)
    moreover have "0 \<le> lane_sum (\<lambda>x. x) seq pre i"
      by (rule lane_sum_nonneg) (use that ok le in simp_all)
    ultimately show ?thesis using ok(4) assms(4) by linarith
  qed
  have "store_all (map (uninit_cell h) [0 ..< n])
     (concat (map (alloc_extend_kernel h pre seq lloc fp (next_power_of_2 (length pre)) P maxt)
        [0 ..< length ?L]))
     = concat (take (length ?L) ?L) @ drop (length (concat (take (length ?L) ?L))) (map (uninit_cell h) [0 ..< n])"
    by (rule store_blocks)
       (use tot lenL kernel_is_layout [OF assms(1) ok(1,2,3) assms(3) next_power_of_2_ge _ grow] in simp_all)
  then show ?thesis using tot lenL by simp
qed

text \<open>
  The extend operation computes the layout: with arguments as callers pass them and debug
  assertions off, it fails exactly when the pages run short, and otherwise returns the
  slots of \<open>extend_layout\<close> over the free list and consumes the pages used.
\<close>

lemma paged_alloc_extend_layout:
  assumes "0 < page_size st" "\<not> debug_mode st" "extend_args_ok pre seq lloc n"
  defines "fp \<equiv> extend_free_pages st n (length pre)"
    and "need \<equiv> get_num_new_pages_extend seq (int (page_size st)) pre"
  shows "fst (paged_alloc_extend h pre seq lloc n st) =
           Inr (if int (length fp) < need then None
                else Some (concat (extend_layout (int (page_size st)) pre seq lloc fp)))
       \<and> free_pages (snd (paged_alloc_extend h pre seq lloc n st)) =
           (if int (length fp) < need then fp else drop (nat need) fp)"
proof -
  let ?P = "int (page_size st)"
  define st1 where "st1 = st\<lparr>seen_max := max (seen_max st) (next_power_of_2 n)\<rparr>"
  define st2 where "st2 = (if need_sort st1 \<and> n div page_size st1 + length pre + 1 > length (free_pages st1)
     then merge_and_sort_free st1 else st1)"
  have fp: "free_pages st2 = fp"
    by (simp add: fp_def st2_def st1_def extend_free_pages_def merge_and_sort_free_def)
  have st2: "\<not> debug_mode st2" "n \<le> seen_max st2"
    using assms(2) next_power_of_2_ge [of n]
    by (auto simp: st2_def st1_def merge_and_sort_free_def)
  note ok = extend_args_okD [OF assms(3)]
  have le: "pre ! j \<le> seq ! j" if "j < length pre" for j using ok(3) [OF that] by simp
  have need: "need = lane_sum (\<lambda>x. cdiv x ?P) seq pre (length pre)"
    unfolding need_def by (rule num_new_pages_lane_sum [OF ok(1)])
  have "0 \<le> need" unfolding need
    by (rule lane_sum_nonneg) (use ok le assms(1) in \<open>simp_all add: cdiv_mono\<close>)
  then have drp: "py_from fp need = drop (nat need) fp" by (simp add: py_from_def)
  have "paged_alloc_extend h pre seq lloc n st =
     (if need > int (length fp) then (Inr None, st2)
      else (Inr (Some (store_all (map (uninit_cell h) [0 ..< n])
              (concat (map (alloc_extend_kernel h pre seq lloc fp (next_power_of_2 (length pre)) ?P
                  (seen_max st2)) [0 ..< length pre])))),
            st2\<lparr>free_pages := py_from fp need\<rparr>))"
    unfolding paged_alloc_extend_def Let_def st1_def [symmetric] st2_def [symmetric]
      need_def [symmetric] fp using assms(2) st2 by simp
  then show ?thesis
    using store_layout [OF _ assms(3), of ?P fp "seen_max st2" h] assms(1) st2 need drp fp
    by (simp_all add: not_less)
qed


section \<open>Slots of an extension are exclusive\<close>

lemma tail_slot_page:
  fixes P :: int
  assumes P: "0 < P" and al: "(lst + 1) mod P = R mod P" and t: "R \<le> t" "t < cdiv R P * P"
  shows "(lst + 1 + (t - R)) div P = lst div P" and "(lst + 1 + (t - R)) mod P = t mod P"
proof -
  let ?r = "R mod P"
  let ?q = "(lst + 1) div P"
  let ?k = "?r + (t - R)"
  have r0: "?r \<noteq> 0"
  proof
    assume "?r = 0"
    then have "cdiv R P * P = R" using cdiv_eq_div [OF P, of R] div_mult_mod_eq [of R P] by simp
    with t show False by simp
  qed
  have r: "0 < ?r" "?r < P" using P r0 by (simp_all add: order_le_neq_trans)
  have cP: "cdiv R P * P = R - ?r + P"
    using cdiv_eq_div [OF P, of R] r0 minus_mod_eq_div_mult [of R P] by (simp add: distrib_right)
  have k: "0 \<le> ?k" "?k < P" using r t cP by simp_all
  have lst: "lst + 1 = ?r + ?q * P" using al div_mult_mod_eq [of "lst + 1" P] by simp
  have "lst = (?r - 1) + ?q * P" using lst by simp
  then have "lst div P = ?q + (?r - 1) div P" using P by (metis div_mult_self1 less_irrefl)
  then have "lst div P = ?q" using r by (simp add: div_pos_pos_trivial)
  moreover have x: "lst + 1 + (t - R) = ?k + ?q * P" using lst by simp
  ultimately show "(lst + 1 + (t - R)) div P = lst div P"
    using k P by (simp add: x div_pos_pos_trivial)
  have "t = ?k + (R div P) * P" using div_mult_mod_eq [of R P] by simp
  then have "t mod P = ?k" using k by (metis mod_mult_self1 mod_pos_pos_trivial)
  then show "(lst + 1 + (t - R)) mod P = t mod P"
    using k by (simp add: x mod_pos_pos_trivial)
qed


lemma new_page_index:
  assumes "0 < P" "cdiv R P * P \<le> t" "t < S"
  shows "nat (t div P - cdiv R P) < nat (cdiv S P - cdiv R P)" "cdiv R P \<le> t div P"
proof -
  have "cdiv R P * P div P \<le> t div P" using assms by (intro zdiv_mono1)
  then show c: "cdiv R P \<le> t div P" using assms(1) by simp
  have "t < cdiv S P * P" using assms cdiv_ge [OF assms(1), of S] by simp
  then have "t div P < cdiv S P" using assms(1) by (intro div_less_of_mult)
  then show "nat (t div P - cdiv R P) < nat (cdiv S P - cdiv R P)" using c by simp
qed

definition slot_at :: "int \<Rightarrow> int \<Rightarrow> int \<Rightarrow> int list \<Rightarrow> int \<Rightarrow> int" where
  "slot_at P R lst pages t =
     (if t < cdiv R P * P then lst + 1 + (t - R)
      else pages ! nat (t div P - cdiv R P) * P + t mod P)"

definition page_at :: "int \<Rightarrow> int \<Rightarrow> int \<Rightarrow> int list \<Rightarrow> int \<Rightarrow> int" where
  "page_at P R lst pages t =
     (if t < cdiv R P * P then lst div P else pages ! nat (t div P - cdiv R P))"

lemma extend_slots_at: "extend_slots P R S lst pages = map (slot_at P R lst pages) [R .. S - 1]"
  by (simp add: extend_slots_def slot_at_def)

lemma slot_at_div_mod:
  assumes "0 < P" "(lst + 1) mod P = R mod P" "R \<le> t"
  shows "slot_at P R lst pages t div P = page_at P R lst pages t"
    "slot_at P R lst pages t mod P = t mod P"
  using assms(1) tail_slot_page [OF assms]
  by (simp_all add: slot_at_def page_at_def)

lemma tail_tokens_partial: "0 < P \<Longrightarrow> R \<le> t \<Longrightarrow> t < cdiv R P * P \<Longrightarrow> R mod P \<noteq> 0"
  using cdiv_eq_div [of P R] div_mult_mod_eq [of R P] by auto

text \<open>The page of a token is the request's tail page or one of the pages taken for it.\<close>

lemma page_at_cases:
  assumes "0 < P" "R \<le> t" "t < S" "nat (cdiv S P - cdiv R P) \<le> length pages"
  obtains "t < cdiv R P * P" "R mod P \<noteq> 0" "page_at P R lst pages t = lst div P"
  | i where "cdiv R P * P \<le> t" "i = nat (t div P - cdiv R P)" "i < length pages"
      "page_at P R lst pages t = pages ! i" "t div P = cdiv R P + int i"
proof (cases "t < cdiv R P * P")
  case True
  then show ?thesis using that(1) tail_tokens_partial [OF assms(1,2)] by (simp add: page_at_def)
next
  case False
  then have c: "cdiv R P * P \<le> t" by simp
  note ix = new_page_index [OF assms(1) c assms(3)]
  have "nat (t div P - cdiv R P) < length pages" using ix(1) assms(4) by (rule less_le_trans)
  moreover have "t div P = cdiv R P + int (nat (t div P - cdiv R P))" using ix(2) by simp
  ultimately show ?thesis using that(2) [OF c refl] False by (simp add: page_at_def)
qed

lemma page_at_inj:
  assumes P: "0 < P" and t: "R \<le> t" "t < S" and u: "R \<le> u" "u < S"
    and pages: "distinct pages" "nat (cdiv S P - cdiv R P) \<le> length pages"
    and own: "R mod P \<noteq> 0 \<longrightarrow> lst div P \<notin> set pages"
    and eq: "page_at P R lst pages t = page_at P R lst pages u"
  shows "t < cdiv R P * P \<and> u < cdiv R P * P \<or> t div P = u div P"
proof (cases rule: page_at_cases [OF P t pages(2), of lst])
  case t1: 1
  show ?thesis
  proof (cases rule: page_at_cases [OF P u pages(2), of lst])
    case 1
    then show ?thesis using t1 by blast
  next
    case (2 i)
    then have "lst div P \<in> set pages" using t1(3) eq nth_mem [of i pages] by simp
    then show ?thesis using own t1(2) by blast
  qed
next
  case t2: (2 k)
  show ?thesis
  proof (cases rule: page_at_cases [OF P u pages(2), of lst])
    case 1
    then have "lst div P \<in> set pages" using t2(3,4) eq nth_mem [of k pages] by simp
    then show ?thesis using own 1(2) by blast
  next
    case (2 i)
    then have "k = i" using eq t2(3,4) pages(1) nth_eq_iff_index_eq [of pages k i] by simp
    then show ?thesis using 2(5) t2(5) by simp
  qed
qed

lemma distinct_extend_slots:
  assumes P: "0 < P" and al: "(lst + 1) mod P = R mod P"
    and pages: "distinct pages" "nat (cdiv S P - cdiv R P) \<le> length pages"
    and own: "R mod P \<noteq> 0 \<longrightarrow> lst div P \<notin> set pages"
  shows "distinct (extend_slots P R S lst pages)"
proof -
  have "t = u" if tu: "R \<le> t" "t < S" "R \<le> u" "u < S" "slot_at P R lst pages t = slot_at P R lst pages u" for t u
  proof -
    have "page_at P R lst pages t = page_at P R lst pages u" "t mod P = u mod P"
      using tu slot_at_div_mod [OF P al, of _ pages] by metis+
    from page_at_inj [OF P tu(1-4) pages own this(1)] show ?thesis
    proof
      assume "t < cdiv R P * P \<and> u < cdiv R P * P"
      then show ?thesis using tu(5) by (simp add: slot_at_def)
    next
      assume "t div P = u div P"
      then show ?thesis using \<open>t mod P = u mod P\<close> by (metis div_mult_mod_eq)
    qed
  qed
  then have "inj_on (slot_at P R lst pages) (set [R .. S - 1])" by (intro inj_onI) simp
  then show ?thesis by (simp add: extend_slots_at distinct_map)
qed

lemma extend_slots_pages:
  assumes "0 < P" "(lst + 1) mod P = R mod P" "nat (cdiv S P - cdiv R P) \<le> length pages"
    "x \<in> set (extend_slots P R S lst pages)"
  shows "x div P \<in> set pages \<or> R mod P \<noteq> 0 \<and> x div P = lst div P"
proof -
  from assms(4) obtain t where t: "R \<le> t" "t < S" "x = slot_at P R lst pages t"
    by (auto simp: extend_slots_at)
  have x: "x div P = page_at P R lst pages t"
    using slot_at_div_mod(1) [OF assms(1,2) t(1)] t(3) by simp
  show ?thesis
    by (rule page_at_cases [OF assms(1) t(1,2) assms(3), of lst]) (use x in auto)
qed

text \<open>
  The tail pages of the requests of a batch: the page of the last token of every request
  whose prefix does not end on a page boundary. Pages a batch holds this way are owned by
  one request each and are not on the free list.
\<close>

fun tail_pages :: "int \<Rightarrow> int list \<Rightarrow> int list \<Rightarrow> int list" where
  "tail_pages P (r # pre) (l # lloc) =
     (if r mod P \<noteq> 0 then l div P # tail_pages P pre lloc else tail_pages P pre lloc)"
| "tail_pages P _ _ = []"

fun lanes_ok :: "int \<Rightarrow> int list \<Rightarrow> int list \<Rightarrow> int list \<Rightarrow> bool" where
  "lanes_ok P (r # pre) (s # seq) (l # lloc) \<longleftrightarrow>
     r \<le> s \<and> (l + 1) mod P = r mod P \<and> lanes_ok P pre seq lloc"
| "lanes_ok P [] [] [] \<longleftrightarrow> True"
| "lanes_ok P _ _ _ \<longleftrightarrow> False"

fun pages_needed :: "int \<Rightarrow> int list \<Rightarrow> int list \<Rightarrow> nat" where
  "pages_needed P (r # pre) (s # seq) = nat (cdiv s P - cdiv r P) + pages_needed P pre seq"
| "pages_needed P _ _ = 0"

lemma pages_needed_lane_sum:
  assumes "0 < P" "lanes_ok P pre seq lloc"
  shows "int (pages_needed P pre seq) = lane_sum (\<lambda>x. cdiv x P) seq pre (length pre)"
  using assms
  by (induction P pre seq lloc rule: lanes_ok.induct) (simp_all add: cdiv_mono)

lemma layout_pages:
  assumes "0 < P" "lanes_ok P pre seq lloc" "pages_needed P pre seq \<le> length fp"
    "x \<in> set (concat (extend_layout P pre seq lloc fp))"
  shows "x div P \<in> set (take (pages_needed P pre seq) fp) \<union> set (tail_pages P pre lloc)"
  using assms
proof (induction P pre seq lloc fp rule: extend_layout.induct)
  case (1 P r pre s seq l lloc fp)
  let ?m = "nat (cdiv s P - cdiv r P)"
  have tk: "take (?m + k) fp = take ?m fp @ take k (drop ?m fp)" for k
    by (simp add: take_add)
  consider "x \<in> set (extend_slots P r s l (take ?m fp))"
    | "x \<in> set (concat (extend_layout P pre seq lloc (drop ?m fp)))"
    using 1(5) by (auto simp: Let_def)
  then show ?case
  proof cases
    case A: 1
    then have "x div P \<in> set (take ?m fp) \<or> r mod P \<noteq> 0 \<and> x div P = l div P"
      using 1(2-4) by (intro extend_slots_pages) simp_all
    then show ?thesis by (auto simp: tk)
  next
    case 2
    then have "x div P \<in> set (take (pages_needed P pre seq) (drop ?m fp)) \<union> set (tail_pages P pre lloc)"
      using 1(2-4) by (intro "1.IH") simp_all
    then show ?thesis by (auto simp: tk)
  qed
qed simp_all

lemma layout_distinct:
  assumes "0 < P" "lanes_ok P pre seq lloc" "pages_needed P pre seq \<le> length fp"
    "distinct fp" "distinct (tail_pages P pre lloc)" "set (tail_pages P pre lloc) \<inter> set fp = {}"
  shows "distinct (concat (extend_layout P pre seq lloc fp))"
  using assms
proof (induction P pre seq lloc fp rule: extend_layout.induct)
  case (1 P r pre s seq l lloc fp)
  let ?m = "nat (cdiv s P - cdiv r P)"
  let ?H = "extend_slots P r s l (take ?m fp)"
  let ?T = "concat (extend_layout P pre seq lloc (drop ?m fp))"
  have len: "pages_needed P pre seq \<le> length (drop ?m fp)" using 1(4) by simp
  have tails: "set (tail_pages P pre lloc) \<subseteq> set (tail_pages P (r # pre) (l # lloc))" by auto
  have dt: "distinct (tail_pages P pre lloc)" using 1(6) by (simp split: if_splits)
  have H: "distinct ?H"
    using 1(2-7) by (intro distinct_extend_slots) (auto dest: in_set_takeD)
  have T: "distinct ?T"
    using 1(2,3,5) len dt tails 1(7) by (intro "1.IH") (auto dest: in_set_dropD)
  have "x \<notin> set ?T" if x: "x \<in> set ?H" for x
  proof
    assume "x \<in> set ?T"
    then have "x div P \<in> set (take (pages_needed P pre seq) (drop ?m fp)) \<union> set (tail_pages P pre lloc)"
      using 1(2,3) len by (intro layout_pages) simp_all
    then have t: "x div P \<in> set (drop ?m fp) \<union> set (tail_pages P pre lloc)"
      by (auto dest: in_set_takeD)
    have "x div P \<in> set (take ?m fp) \<or> r mod P \<noteq> 0 \<and> x div P = l div P"
      using 1(2-4) x by (intro extend_slots_pages) simp_all
    moreover have "set (take ?m fp) \<inter> set (drop ?m fp) = {}"
      using 1(5) by (rule set_take_disj_set_drop_if_distinct) simp
    moreover have "set (take ?m fp) \<subseteq> set fp" "set (drop ?m fp) \<subseteq> set fp"
      by (rule set_take_subset, rule set_drop_subset)
    ultimately show False using t 1(6,7) tails by (auto split: if_splits)
  qed
  then have "set ?H \<inter> set ?T = {}" by blast
  then show ?case using H T by (simp only: extend_layout.simps Let_def concat.simps distinct_append)
qed simp_all

text \<open>The decode kernel is the extend layout for lengths that grow by one.\<close>

lemma cdiv_step: "0 < P \<Longrightarrow> cdiv s P - cdiv (s - 1) P = (if (s - 1) mod P = 0 then 1 else 0)"
proof -
  assume P: "0 < P"
  have e: "cdiv s P = (s - 1) div P + 1"
  proof -
    have "s + P - 1 = (s - 1) + 1 * P" by simp
    then show ?thesis unfolding cdiv_def using P by (metis add.commute div_mult_self1 less_irrefl)
  qed
  then show ?thesis using cdiv_eq_div [OF P, of "s - 1"] by simp
qed

lemma decode_page_step: "1 < P \<Longrightarrow> (s mod P = 1) = ((s - 1) mod P = 0)" for s :: int
proof -
  assume P: "1 < P"
  have "s mod P = 1 \<longleftrightarrow> s mod P = 1 mod P" using P by (simp add: mod_pos_pos_trivial)
  also have "\<dots> \<longleftrightarrow> (s - 1) mod P = 0" by (simp add: mod_eq_dvd_iff mod_eq_0_iff_dvd)
  finally show ?thesis .
qed

lemma num_new_pages_decode:
  assumes "1 < P"
  shows "get_num_new_pages_decode seq P = get_num_new_pages_extend seq P (map (\<lambda>s. s - 1) seq)"
proof -
  have "(s + P - 1) div P - (s - 1 + P - 1) div P = (if s mod P = 1 then 1 else 0)" for s
    using cdiv_step [of P s] decode_page_step [OF assms, of s] assms by (simp add: cdiv_def)
  then show ?thesis
    unfolding get_num_new_pages_decode_def get_num_new_pages_extend_def Let_def
    by (induction seq) simp_all
qed

text \<open>
  With pages of one slot the decode test \<open>seq_len % page_size == 1\<close> never holds, so
  \<open>get_num_new_pages\<close> counts no page while the kernel hands out one per request.
\<close>

lemma num_new_pages_decode_unit: "get_num_new_pages_decode seq 1 = 0"
  by (simp add: get_num_new_pages_decode_def)

lemma extend_slots_one:
  assumes "0 < P"
  shows "extend_slots P (s - 1) s lst pages =
    [if (s - 1) mod P = 0 then pages ! 0 * P else lst + 1]"
proof -
  have "(s - 1 < cdiv (s - 1) P * P) = ((s - 1) mod P \<noteq> 0)"
    using cdiv_eq_div [OF assms, of "s - 1"] div_mult_mod_eq [of "s - 1" P]
      div_mult_gt_self [OF assms, of "s - 1"] by (auto simp: distrib_right)
  then show ?thesis using cdiv_eq_div [OF assms, of "s - 1"] by (simp add: extend_slots_def)
qed


lemma decode_kernel_stores:
  assumes P: "0 < P" and i: "i < length seq" and lanes: "length seq \<le> lanes"
  shows "alloc_decode_kernel h seq lloc fp lanes P i =
    [(int i, if (seq ! i - 1) mod P = 0
        then page_load h fp (lane_sum (\<lambda>x. cdiv x P) seq (map (\<lambda>s. s - 1) seq) i) * P
        else lloc ! i + 1)]"
proof -
  let ?pre = "map (\<lambda>s. s - 1) seq"
  let ?f = "\<lambda>x. cdiv x P"
  have ml: "map (\<lambda>(j, s). if j \<le> i then s - 1 else s) (zip [0 ..< lanes] (masked_load h seq lanes i))
      = masked_load h ?pre lanes i"
    using i by (intro nth_equalityI) (simp_all add: masked_load_def)
  have "sum_list (map2 (-) (map ?f (masked_load h seq lanes i)) (map ?f (masked_load h ?pre lanes i)))
      = lane_sum ?f seq ?pre (Suc i)"
    by (rule sum_masked_lanes) (use i lanes in simp_all)
  moreover have "lane_sum ?f seq ?pre (Suc i) = lane_sum ?f seq ?pre i + (?f (seq ! i) - ?f (?pre ! i))"
    by (rule lane_sum_Suc) (use i in simp_all)
  ultimately have "sum_list (map2 (-) (map ?f (masked_load h seq lanes i)) (map ?f (masked_load h ?pre lanes i)))
      - (?f (seq ! i) - ?f (seq ! i - 1)) = lane_sum ?f seq ?pre i" using i by simp
  then show ?thesis
    using cdiv_step [OF P, of "seq ! i"]
    unfolding alloc_decode_kernel_def Let_def ml cdiv_def [symmetric] by simp
qed

lemma decode_kernel_is_layout:
  assumes P: "0 < P" and len: "length lloc = length seq"
    and pages: "lane_sum (\<lambda>x. cdiv x P) seq (map (\<lambda>s. s - 1) seq) (length seq) \<le> int (length fp)"
    and lanes: "length seq \<le> lanes" and i: "i < length seq"
  shows "alloc_decode_kernel h seq lloc fp lanes P i =
    run_of i (extend_layout P (map (\<lambda>s. s - 1) seq) seq lloc fp ! i)"
proof -
  let ?pre = "map (\<lambda>s. s - 1) seq"
  let ?f = "\<lambda>x. cdiv x P"
  let ?a = "lane_sum ?f seq ?pre i" and ?b = "lane_sum ?f seq ?pre (Suc i)"
  have a: "0 \<le> ?a"
    by (rule lane_sum_nonneg) (use i P in \<open>simp_all add: cdiv_mono\<close>)
  have b: "?b = ?a + (?f (seq ! i) - ?f (?pre ! i))"
    by (rule lane_sum_Suc) (use i in simp_all)
  have bl: "?b \<le> int (length fp)"
  proof -
    have "?b \<le> lane_sum ?f seq ?pre (length seq)"
      by (rule lane_sum_mono) (use i P in \<open>simp_all add: cdiv_mono\<close>)
    then show ?thesis using pages by simp
  qed
  have L: "extend_layout P ?pre seq lloc fp ! i =
      extend_slots P (seq ! i - 1) (seq ! i) (lloc ! i) (slice fp (nat ?a) (nat ?b))"
  proof -
    have "extend_layout P ?pre seq lloc fp ! i =
      extend_slots P (?pre ! i) (seq ! i) (lloc ! i) (slice fp (nat ?a) (nat ?b))"
      by (rule extend_layout_nth) (use P i len in simp_all)
    then show ?thesis using i by (simp only: nth_map)
  qed
  have "slice fp (nat ?a) (nat ?b) ! 0 = page_load h fp ?a" if "(seq ! i - 1) mod P = 0"
    using that a b bl cdiv_step [OF P, of "seq ! i"] i by (simp add: nth_slice page_load_def)
  then show ?thesis
    unfolding decode_kernel_stores [OF P i lanes] L extend_slots_one [OF P]
    by (simp add: run_of_Cons)
qed

definition decode_free_pages :: "kv_alloc \<Rightarrow> nat \<Rightarrow> int list" where
  "decode_free_pages st bs =
     (if need_sort st \<and> bs > length (free_pages st)
      then free_pages (merge_and_sort_free st) else free_pages st)"

lemma length_decode_layout:
  assumes "0 < P" "length lloc = length seq" "k \<le> length seq"
  shows "length (concat (take k (extend_layout P (map (\<lambda>s. s - 1) seq) seq lloc fp))) = k"
proof -
  have "lane_sum (\<lambda>x. x) seq (map (\<lambda>s. s - 1) seq) k = (\<Sum>j<k. seq ! j - map (\<lambda>s. s - 1) seq ! j)"
    using assms(3) by (intro lane_sum_as_sum) simp_all
  also have "\<dots> = int k" using assms(3) by (simp add: sum.cong)
  finally show ?thesis
    using length_concat_take_layout [of seq "map (\<lambda>s. s - 1) seq" lloc k P fp] assms by simp
qed

lemma store_decode_layout:
  assumes "0 < P" "length lloc = length seq"
    "lane_sum (\<lambda>x. cdiv x P) seq (map (\<lambda>s. s - 1) seq) (length seq) \<le> int (length fp)"
  shows "store_all (map (uninit_cell h) [0 ..< length seq])
     (concat (map (alloc_decode_kernel h seq lloc fp (next_power_of_2 (length seq)) P)
        [0 ..< length seq]))
   = concat (extend_layout P (map (\<lambda>s. s - 1) seq) seq lloc fp)"
proof -
  let ?L = "extend_layout P (map (\<lambda>s. s - 1) seq) seq lloc fp"
  have lenL: "length ?L = length seq" using assms by simp
  have tot: "length (concat ?L) = length seq"
    using length_decode_layout [OF assms(1,2) order_refl, of fp] lenL by simp
  have "store_all (map (uninit_cell h) [0 ..< length seq])
     (concat (map (alloc_decode_kernel h seq lloc fp (next_power_of_2 (length seq)) P)
        [0 ..< length ?L]))
     = concat (take (length ?L) ?L)
       @ drop (length (concat (take (length ?L) ?L))) (map (uninit_cell h) [0 ..< length seq])"
    by (rule store_blocks)
       (use tot lenL length_decode_layout [OF assms(1,2), of _ fp]
          decode_kernel_is_layout [OF assms next_power_of_2_ge] in simp_all)
  then show ?thesis using tot lenL by simp
qed

lemma paged_alloc_decode_layout:
  assumes "1 < page_size st" "\<not> debug_mode st" "length lloc = length seq"
  defines "fp \<equiv> decode_free_pages st (length seq)"
    and "need \<equiv> get_num_new_pages_decode seq (int (page_size st))"
  shows "fst (paged_alloc_decode h seq lloc st) =
           Inr (if int (length fp) < need then None
                else Some (concat (extend_layout (int (page_size st)) (map (\<lambda>s. s - 1) seq) seq lloc fp)))
       \<and> free_pages (snd (paged_alloc_decode h seq lloc st)) =
           (if int (length fp) < need then fp else drop (nat need) fp)"
proof -
  let ?P = "int (page_size st)"
  let ?pre = "map (\<lambda>s. s - 1) seq"
  define st2 where "st2 = (if need_sort st \<and> length seq > length (free_pages st)
     then merge_and_sort_free st else st)"
  have fp: "free_pages st2 = fp" by (simp add: fp_def st2_def decode_free_pages_def)
  have st2: "\<not> debug_mode st2" using assms(2) by (simp add: st2_def merge_and_sort_free_def)
  have need: "need = lane_sum (\<lambda>x. cdiv x ?P) seq ?pre (length seq)"
    unfolding need_def using num_new_pages_decode [of ?P seq] num_new_pages_lane_sum [of seq ?pre ?P] assms(1)
    by simp
  have "0 \<le> need" unfolding need
    by (rule lane_sum_nonneg) (use assms(1) in \<open>simp_all add: cdiv_mono\<close>)
  then have drp: "py_from fp need = drop (nat need) fp" by (simp add: py_from_def)
  have "paged_alloc_decode h seq lloc st =
     (if need > int (length fp) then (Inr None, st2)
      else (Inr (Some (store_all (map (uninit_cell h) [0 ..< length seq])
              (concat (map (alloc_decode_kernel h seq lloc fp (next_power_of_2 (length seq)) ?P)
                  [0 ..< length seq])))),
            st2\<lparr>free_pages := py_from fp need\<rparr>))"
    unfolding paged_alloc_decode_def Let_def st2_def [symmetric]
      need_def [symmetric] fp using assms(2) st2 by simp
  then show ?thesis
    using store_decode_layout [OF _ assms(3), of ?P fp h] assms(1) need drp fp
    by (simp_all add: not_less)
qed

end
