(* ===== verification/SlotPool.thy ===== *)
theory SlotPool
  imports AllocKernels
begin

text \<open>
  What a client of a slot pool relies on, as the locale \<open>slot_pool\<close>: an allocation hands
  out slots that were free and takes them off the free list, fails only when too few are
  free, and a release puts slots back. The client's facts (a sequence of allocations and
  releases neither loses nor duplicates a slot, allocation succeeds exactly when enough
  slots are free) are proved once inside the locale. The locale is interpreted on the
  token allocator, on the paged allocator and on \<open>ReqToTokenPool\<close> of
  \<open>srt/mem_cache/memory_pool.py\<close>, whose model opens this theory.
\<close>

section \<open>The request pool\<close>

record req_pool =
  rp_size :: nat
  max_context_len :: nat
  req_to_token :: "int list list"
  free_slots :: "nat list"

definition req_pool_init :: "nat \<Rightarrow> nat \<Rightarrow> req_pool" where
  "req_pool_init sz ctx =
     \<lparr>rp_size = sz, max_context_len = ctx,
      req_to_token = replicate sz (replicate ctx 0), free_slots = [0 ..< sz]\<rparr>"

text \<open>
  \<open>write((row, slice(i, j)), values)\<close>: an assignment to a tensor slice. The slice stops at
  the row's end; a value list of another length than the slice raises, except that a
  single value is broadcast.
\<close>

definition rp_write :: "nat \<Rightarrow> nat \<Rightarrow> nat \<Rightarrow> int list \<Rightarrow> (req_pool, unit) run" where
  "rp_write row i j vals rp =
     (if row \<ge> length (req_to_token rp) then (Inl IndexError, rp)
      else
        (let r = req_to_token rp ! row;
             n = length (slice r i j)
         in if length vals = n
            then (Inr (), rp\<lparr>req_to_token := (req_to_token rp)[row := blit i vals r]\<rparr>)
            else if length vals = 1
            then (Inr (), rp\<lparr>req_to_token := (req_to_token rp)[row := blit i (replicate n (vals ! 0)) r]\<rparr>)
            else (Inl RuntimeError, rp)))"

definition rp_available_size :: "req_pool \<Rightarrow> nat" where
  "rp_available_size rp = length (free_slots rp)"

definition rp_alloc :: "req_pool \<Rightarrow> nat \<Rightarrow> nat list option \<times> req_pool" where
  "rp_alloc rp need_size =
     (if need_size > length (free_slots rp) then (None, rp)
      else (Some (take need_size (free_slots rp)),
            rp\<lparr>free_slots := drop need_size (free_slots rp)\<rparr>))"

definition rp_free :: "req_pool \<Rightarrow> nat list \<Rightarrow> req_pool" where
  "rp_free rp free_index = rp\<lparr>free_slots := free_slots rp @ free_index\<rparr>"

definition rp_free_one :: "req_pool \<Rightarrow> nat \<Rightarrow> req_pool" where
  "rp_free_one rp i = rp\<lparr>free_slots := free_slots rp @ [i]\<rparr>"

definition rp_clear :: "req_pool \<Rightarrow> req_pool" where
  "rp_clear rp = rp\<lparr>free_slots := [0 ..< rp_size rp]\<rparr>"

section \<open>A client of a pool\<close>

text \<open>
  A client holds blocks of slots; it asks for a new block, or gives the \<open>i\<close>-th one back.
\<close>

datatype pool_op = Take nat | Give nat

fun client_step ::
  "('s \<Rightarrow> nat \<Rightarrow> 'a list option \<times> 's) \<Rightarrow> ('s \<Rightarrow> 'a list \<Rightarrow> 's) \<Rightarrow>
   pool_op \<Rightarrow> 's \<times> 'a list list \<Rightarrow> 's \<times> 'a list list"
where
  "client_step alloc free (Take n) (s, held) =
     (case alloc s n of (None, s') \<Rightarrow> (s', held) | (Some xs, s') \<Rightarrow> (s', xs # held))"
| "client_step alloc free (Give i) (s, held) =
     (if i < length held then (free s (held ! i), take i held @ drop (Suc i) held) else (s, held))"

definition client_run ::
  "('s \<Rightarrow> nat \<Rightarrow> 'a list option \<times> 's) \<Rightarrow> ('s \<Rightarrow> 'a list \<Rightarrow> 's) \<Rightarrow>
   pool_op list \<Rightarrow> 's \<times> 'a list list \<Rightarrow> 's \<times> 'a list list"
where
  "client_run alloc free ops c = foldl (\<lambda>c op. client_step alloc free op c) c ops"

lemma mset_remove_block:
  "i < length xss \<Longrightarrow>
   mset (concat xss) = mset (xss ! i) + mset (concat (take i xss @ drop (Suc i) xss))"
  by (subst id_take_nth_drop [of i xss]) simp_all

section \<open>The interface\<close>

locale slot_pool =
  fixes slots :: "'s \<Rightarrow> 'a list"
    and inv :: "'s \<Rightarrow> bool"
    and ok_need :: "'s \<Rightarrow> nat \<Rightarrow> bool"
    and ok_free :: "'s \<Rightarrow> 'a list \<Rightarrow> bool"
    and alloc :: "'s \<Rightarrow> nat \<Rightarrow> 'a list option \<times> 's"
    and free :: "'s \<Rightarrow> 'a list \<Rightarrow> 's"
  assumes alloc_Some:
      "inv s \<Longrightarrow> ok_need s n \<Longrightarrow> alloc s n = (Some xs, s') \<Longrightarrow>
       length xs = n \<and> mset (slots s) = mset xs + mset (slots s')"
    and alloc_None:
      "inv s \<Longrightarrow> ok_need s n \<Longrightarrow> alloc s n = (None, s') \<Longrightarrow>
       length (slots s) < n \<and> mset (slots s') = mset (slots s)"
    and alloc_inv: "inv s \<Longrightarrow> ok_need s n \<Longrightarrow> inv (snd (alloc s n))"
    and alloc_ok_free:
      "inv s \<Longrightarrow> ok_need s n \<Longrightarrow> distinct (slots s) \<Longrightarrow> alloc s n = (Some xs, s') \<Longrightarrow> ok_free s xs"
    and alloc_stable:
      "ok_need (snd (alloc s n)) m = ok_need s m" "ok_free (snd (alloc s n)) ys = ok_free s ys"
    and free_mset:
      "inv s \<Longrightarrow> ok_free s xs \<Longrightarrow> mset (slots (free s xs)) = mset (slots s) + mset xs"
    and free_inv: "inv s \<Longrightarrow> ok_free s xs \<Longrightarrow> inv (free s xs)"
    and free_stable:
      "ok_need (free s xs) m = ok_need s m" "ok_free (free s xs) ys = ok_free s ys"
begin

lemma alloc_iff_enough:
  assumes "inv s" "ok_need s n"
  shows "(fst (alloc s n) \<noteq> None) = (n \<le> length (slots s))"
proof (cases "alloc s n")
  case (Pair r s')
  show ?thesis
  proof (cases r)
    case None
    then show ?thesis using alloc_None [OF assms] Pair by fastforce
  next
    case (Some xs)
    then have "length xs = n" "mset (slots s) = mset xs + mset (slots s')"
      using alloc_Some [OF assms] Pair by blast+
    then have "length (slots s) = n + length (slots s')" by (metis size_mset size_union)
    then show ?thesis using Some Pair by simp
  qed
qed

lemma alloc_exclusive:
  assumes "inv s" "ok_need s n" "alloc s n = (Some xs, s')" "distinct (slots s)"
  shows "distinct xs" "distinct (slots s')" "set xs \<inter> set (slots s') = {}"
    "set xs \<union> set (slots s') = set (slots s)"
proof -
  have m: "mset (slots s) = mset (xs @ slots s')" using alloc_Some [OF assms(1-3)] by simp
  then have "distinct (xs @ slots s')" using assms(4) by (metis mset_eq_imp_distinct_iff)
  then show "distinct xs" "distinct (slots s')" "set xs \<inter> set (slots s') = {}" by simp_all
  show "set xs \<union> set (slots s') = set (slots s)" using m by (metis mset_eq_setD set_append)
qed

lemma alloc_then_free:
  assumes "inv s" "ok_need s n" "alloc s n = (Some xs, s')" "distinct (slots s)"
  shows "mset (slots (free s' xs)) = mset (slots s)"
proof -
  have "inv s'" "ok_free s' xs"
    using alloc_inv [OF assms(1,2)] alloc_stable(2) [of s n xs] alloc_ok_free [OF assms(1,2,4,3)] assms(3)
    by simp_all
  then show ?thesis using free_mset [of s' xs] alloc_Some [OF assms(1-3)] by (simp add: add.commute)
qed

text \<open>What a client keeps: a well-formed pool, blocks that may be given back, no slot twice.\<close>

definition accounts :: "'a multiset \<Rightarrow> 's \<times> 'a list list \<Rightarrow> bool" where
  "accounts all c \<longleftrightarrow> inv (fst c) \<and> list_all (ok_free (fst c)) (snd c) \<and>
     mset (slots (fst c)) + mset (concat (snd c)) = all"

lemma accounts_distinct:
  assumes "accounts all (s, held)" "\<forall>x. count all x \<le> 1"
  shows "distinct (slots s)"
proof -
  have "count (mset (slots s)) x \<le> count all x" for x
    using assms(1) by (auto simp: accounts_def)
  then have "count (mset (slots s)) x \<le> 1" for x using assms(2) order_trans by blast
  then show ?thesis by (metis distinct_count_atmost_1 count_mset_0_iff le_less_Suc_eq
        less_one nat_less_le One_nat_def le_eq_less_or_eq)
qed

fun op_ok :: "'s \<Rightarrow> pool_op \<Rightarrow> bool" where
  "op_ok s (Take n) = ok_need s n"
| "op_ok s (Give i) = True"

lemma client_step_accounts:
  assumes acc: "accounts all c" and single: "\<forall>x. count all x \<le> 1" and ok: "op_ok (fst c) op"
  shows "accounts all (client_step alloc free op c) \<and>
    (\<forall>op'. op_ok (fst (client_step alloc free op c)) op' = op_ok (fst c) op')"
proof (cases op)
  case (Take n)
  obtain s held where c: "c = (s, held)" by (cases c)
  obtain r s' where r: "alloc s n = (r, s')" by (cases "alloc s n")
  have inv: "inv s" "ok_need s n" "inv s'" "list_all (ok_free s') held"
    using acc ok Take c r alloc_inv [of s n] alloc_stable(2) [of s n]
    by (auto simp: accounts_def list_all_iff)
  have stable: "\<forall>op'. op_ok s' op' = op_ok s op'"
    using alloc_stable(1) [of s n] r by (metis op_ok.elims op_ok.simps snd_conv)
  show ?thesis
  proof (cases r)
    case None
    then show ?thesis
      using acc inv stable r c Take alloc_None [OF inv(1,2), of s'] by (simp add: accounts_def)
  next
    case (Some xs)
    have "ok_free s' xs"
      using alloc_ok_free [OF inv(1,2), of xs s'] accounts_distinct [of all s held] acc single r c Some
        alloc_stable(2) [of s n xs] by simp
    then show ?thesis
      using acc inv stable r c Take Some alloc_Some [OF inv(1,2), of xs s']
      by (simp add: accounts_def ac_simps)
  qed
next
  case (Give i)
  obtain s held where c: "c = (s, held)" by (cases c)
  show ?thesis
  proof (cases "i < length held")
    case True
    have inv: "inv s" "ok_free s (held ! i)" "list_all (ok_free (free s (held ! i))) (take i held @ drop (Suc i) held)"
      using acc True c free_stable(2) [of s "held ! i"]
      by (auto simp: accounts_def list_all_iff dest: in_set_takeD in_set_dropD)
    have "\<forall>op'. op_ok (free s (held ! i)) op' = op_ok s op'"
      using free_stable(1) [of s "held ! i"] by (metis op_ok.elims op_ok.simps)
    moreover have "mset (slots (free s (held ! i))) + mset (concat (take i held @ drop (Suc i) held)) = all"
      using acc c free_mset [OF inv(1,2)] mset_remove_block [OF True] by (simp add: accounts_def union_assoc)
    ultimately show ?thesis
      using inv free_inv [OF inv(1,2)] True Give c by (simp add: accounts_def)
  next
    case False
    then show ?thesis using acc Give c by simp
  qed
qed

lemma client_run_accounts:
  assumes "accounts all c" "\<forall>x. count all x \<le> 1" "list_all (op_ok (fst c)) ops"
  shows "accounts all (client_run alloc free ops c)"
  using assms
proof (induction ops arbitrary: c)
  case (Cons op ops)
  have "accounts all (client_step alloc free op c)"
    "\<forall>op'. op_ok (fst (client_step alloc free op c)) op' = op_ok (fst c) op'"
    using client_step_accounts [OF Cons.prems(1,2)] Cons.prems(3) by simp_all
  then have "list_all (op_ok (fst (client_step alloc free op c))) ops"
    using Cons.prems(3) by (simp add: list_all_iff)
  then show ?case
    using Cons.IH [OF \<open>accounts all (client_step alloc free op c)\<close> Cons.prems(2)]
    by (simp add: client_run_def)
qed (simp add: client_run_def)

text \<open>
  From a pool whose slots are distinct, whatever a client takes and gives back, the free
  slots and the blocks it holds are together exactly the initial slots, each once.
\<close>

lemma conservation:
  assumes "inv s" "distinct (slots s)" "list_all (op_ok s) ops" "client_run alloc free ops (s, []) = (s', held)"
  shows "mset (slots s') + mset (concat held) = mset (slots s)" "distinct (slots s' @ concat held)"
proof -
  have "accounts (mset (slots s)) (client_run alloc free ops (s, []))"
    using assms(1-3) by (intro client_run_accounts)
      (auto simp: accounts_def distinct_count_atmost_1 count_mset_0_iff)
  then show m: "mset (slots s') + mset (concat held) = mset (slots s)"
    using assms(4) by (simp add: accounts_def)
  then have "mset (slots s' @ concat held) = mset (slots s)" by simp
  then show "distinct (slots s' @ concat held)" using assms(2) mset_eq_imp_distinct_iff by blast
qed

end

section \<open>The three pools\<close>

interpretation rpool: slot_pool free_slots "\<lambda>_. True" "\<lambda>_ _. True" "\<lambda>_ _. True" rp_alloc rp_free
  by unfold_locales
     (auto simp: rp_alloc_def rp_free_def min_def simp flip: mset_append split: if_splits)

definition tok_inv :: "kv_alloc \<Rightarrow> bool" where
  "tok_inv st \<longleftrightarrow> is_not_in_free_group st \<and> (need_sort st \<or> release_pages st = [])"

definition tok_slots :: "kv_alloc \<Rightarrow> int list" where
  "tok_slots st = free_pages st @ release_pages st"

lemma tok_slots_merge [simp]: "mset (tok_slots (merge_and_sort_free st)) = mset (tok_slots st)"
  by (simp add: tok_slots_def merge_and_sort_free_def)

lemma merge_and_sort_free_simps [simp]:
  "is_not_in_free_group (merge_and_sort_free st) = is_not_in_free_group st"
  "need_sort (merge_and_sort_free st) = need_sort st"
  "release_pages (merge_and_sort_free st) = []"
  "page_size (merge_and_sort_free st) = page_size st"
  "debug_mode (merge_and_sort_free st) = debug_mode st"
  "mset (free_pages (merge_and_sort_free st)) = mset (free_pages st) + mset (release_pages st)"
  "length (free_pages (merge_and_sort_free st)) = length (free_pages st) + length (release_pages st)"
  "set (free_pages (merge_and_sort_free st)) = set (free_pages st) \<union> set (release_pages st)"
  by (auto simp: merge_and_sort_free_def)

lemma mset_take_drop: "mset (take n xs) + mset (drop n xs) = mset xs"
  by (metis append_take_drop_id mset_append)

interpretation tpool: slot_pool tok_slots tok_inv "\<lambda>_ _. True" "\<lambda>_ _. True" tok_alloc tok_free
proof (unfold_locales, goal_cases)
  case (1 s n xs s')
  then show ?case
    by (auto simp: tok_alloc_def Let_def tok_slots_def tok_inv_def mset_take_drop union_assoc [symmetric]
          split: if_splits)
next
  case (2 s n s')
  then show ?case
    by (auto simp: tok_alloc_def Let_def tok_slots_def tok_inv_def split: if_splits)
next
  case (3 s n)
  then show ?case by (auto simp: tok_alloc_def Let_def tok_inv_def)
next
  case (7 s xs)
  then show ?case by (auto simp: tok_free_def tok_slots_def tok_inv_def)
next
  case (8 s xs)
  then show ?case by (auto simp: tok_free_def tok_inv_def)
qed simp_all

section \<open>The paged allocator as a pool of slots\<close>

lemma page_slots_append: "page_slots P (xs @ ys) = page_slots P xs @ page_slots P ys"
  by (simp add: page_slots_def)

lemma length_page_slots: "length (page_slots P pages) = nat P * length pages"
  by (induction pages) (simp_all add: page_slots_def)

lemma set_page_slots:
  assumes "0 < P"
  shows "set (page_slots P pages) = {x. x div P \<in> set pages}"
proof -
  have "x \<in> (\<lambda>k. p * P + k) ` {0 .. P - 1} \<longleftrightarrow> x div P = p" for x p
  proof
    assume "x \<in> (\<lambda>k. p * P + k) ` {0 .. P - 1}"
    then obtain k where k: "x = p * P + k" "0 \<le> k" "k < P" by (elim imageE) simp
    then show "x div P = p" using assms by (simp add: div_pos_pos_trivial)
  next
    assume "x div P = p"
    then have "x = p * P + x mod P" "0 \<le> x mod P" "x mod P < P" using assms by auto
    then show "x \<in> (\<lambda>k. p * P + k) ` {0 .. P - 1}" by auto
  qed
  then show ?thesis by (auto simp: page_slots_def)
qed

lemma distinct_page_slots: "0 < P \<Longrightarrow> distinct (page_slots P pages) = distinct pages"
proof (induction pages)
  case (Cons p pages)
  have "distinct (map (\<lambda>k. p * P + k) [0 .. P - 1])" by (simp add: distinct_map)
  moreover have "set (page_slots P [p]) \<inter> set (page_slots P pages) = {} \<longleftrightarrow> p \<notin> set pages"
  proof -
    have "p * P \<in> set (page_slots P [p])" using Cons.prems by (simp add: set_page_slots)
    then have "p \<in> set pages \<Longrightarrow> p * P \<in> set (page_slots P [p]) \<inter> set (page_slots P pages)"
      using Cons.prems by (simp add: set_page_slots)
    moreover have "p \<notin> set pages \<Longrightarrow> set (page_slots P [p]) \<inter> set (page_slots P pages) = {}"
      using Cons.prems by (auto simp: set_page_slots)
    ultimately show ?thesis by blast
  qed
  ultimately show ?case using Cons by (auto simp: page_slots_def)
qed (simp add: page_slots_def)

lemma mset_page_slots: "mset xs = mset ys \<Longrightarrow> mset (page_slots P xs) = mset (page_slots P ys)"
proof -
  assume m: "mset xs = mset ys"
  have "mset (page_slots P zs) = \<Sum>\<^sub># (image_mset (\<lambda>p. mset (map (\<lambda>k. p * P + k) [0 .. P - 1])) (mset zs))" for zs
    by (induction zs) (simp_all add: page_slots_def)
  with m show ?thesis by simp
qed

text \<open>A block a client may hand back: distinct slots that fill the pages they touch.\<close>

definition whole_pages :: "int \<Rightarrow> int list \<Rightarrow> bool" where
  "whole_pages P xs \<longleftrightarrow> distinct xs \<and> (\<forall>x \<in> set xs. set (page_slots P [x div P]) \<subseteq> set xs)"

lemma page_slots_whole: "0 < P \<Longrightarrow> distinct pages \<Longrightarrow> whole_pages P (page_slots P pages)"
  by (auto simp: whole_pages_def distinct_page_slots set_page_slots)

lemma unique_pages_of_whole:
  assumes "0 < P" "whole_pages P xs"
  shows "mset (page_slots P (unique_ints (map (\<lambda>i. i div P) xs))) = mset xs"
proof -
  let ?U = "unique_ints (map (\<lambda>i. i div P) xs)"
  have U: "distinct ?U" "set ?U = (\<lambda>i. i div P) ` set xs" by (simp_all add: unique_ints_def)
  have "set (page_slots P ?U) = set xs"
    using assms U by (auto simp: set_page_slots whole_pages_def)
  moreover have "distinct (page_slots P ?U)" "distinct xs"
    using assms U by (simp_all add: distinct_page_slots whole_pages_def)
  ultimately show ?thesis by (simp add: set_eq_iff_mset_eq_distinct)
qed

definition paged_inv :: "kv_alloc \<Rightarrow> bool" where
  "paged_inv st \<longleftrightarrow> tok_inv st \<and> \<not> debug_mode st \<and> 0 < page_size st"

definition paged_slots :: "kv_alloc \<Rightarrow> int list" where
  "paged_slots st = page_slots (int (page_size st)) (tok_slots st)"

text \<open>With the debug assertions off neither call raises; these are their results.\<close>

definition paged_take :: "kv_alloc \<Rightarrow> nat \<Rightarrow> int list option \<times> kv_alloc" where
  "paged_take st n = (case paged_alloc n st of (Inr r, st') \<Rightarrow> (r, st') | (Inl _, st') \<Rightarrow> (None, st'))"

definition paged_give :: "kv_alloc \<Rightarrow> int list \<Rightarrow> kv_alloc" where
  "paged_give st xs = snd (paged_free xs st)"

lemma paged_take_cases:
  fixes st :: kv_alloc and n :: nat
  assumes "\<not> debug_mode st"
  defines "m \<equiv> n div page_size st"
    and "st1 \<equiv> if need_sort st \<and> n div page_size st > length (free_pages st) then merge_and_sort_free st else st"
  shows "paged_take st n = (if m > length (free_pages st1) then (None, st1)
     else (Some (page_slots (int (page_size st)) (take m (free_pages st1))),
           st1\<lparr>free_pages := drop m (free_pages st1)\<rparr>))"
  using assms(1) unfolding m_def st1_def paged_take_def paged_alloc_def Let_def
  by (cases "need_sort st \<and> n div page_size st > length (free_pages st)") auto

lemma page_size_paged_take: "page_size (snd (paged_take st n)) = page_size st"
proof -
  define st1 where "st1 = (if need_sort st \<and> n div page_size st > length (free_pages st)
    then merge_and_sort_free st else st)"
  have "page_size st1 = page_size st" by (simp add: st1_def)
  then show ?thesis
    unfolding paged_take_def paged_alloc_def Let_def st1_def [symmetric]
    by (simp split: if_splits)
qed

lemma paged_slots_mset:
  "mset (tok_slots st) = mset (tok_slots st') \<Longrightarrow> page_size st = page_size st' \<Longrightarrow>
   mset (paged_slots st) = mset (paged_slots st')"
  unfolding paged_slots_def by (simp only: mset_page_slots [of "tok_slots st" "tok_slots st'"])

lemma length_paged_slots: "length (paged_slots st) = page_size st * length (tok_slots st)"
  by (simp add: paged_slots_def length_page_slots)

interpretation ppool: slot_pool paged_slots paged_inv "\<lambda>st n. page_size st dvd n"
  "\<lambda>st xs. whole_pages (int (page_size st)) xs" paged_take paged_give
proof (unfold_locales, goal_cases)
  case (1 s n xs s')
  define m where "m = n div page_size s"
  define s1 where "s1 = (if need_sort s \<and> m > length (free_pages s) then merge_and_sort_free s else s)"
  have r: "xs = page_slots (int (page_size s)) (take m (free_pages s1))"
    "s' = s1\<lparr>free_pages := drop m (free_pages s1)\<rparr>" "m \<le> length (free_pages s1)"
    using 1 paged_take_cases [of s n] by (auto simp: paged_inv_def m_def s1_def split: if_splits)
  have s1: "mset (tok_slots s1) = mset (tok_slots s)" "page_size s1 = page_size s"
    by (simp_all add: s1_def)
  have "mset (paged_slots s) = mset (paged_slots s1)" using s1 by (intro paged_slots_mset) simp_all
  also have "\<dots> = mset (page_slots (int (page_size s)) (take m (free_pages s1) @ drop m (free_pages s1) @ release_pages s1))"
    by (simp only: paged_slots_def tok_slots_def s1 append_assoc [symmetric] append_take_drop_id)
  also have "\<dots> = mset xs + mset (paged_slots s')"
    by (simp only: page_slots_append mset_append r(1) union_assoc) (simp add: r(2) paged_slots_def tok_slots_def page_slots_append s1)
  finally show ?case using r(1,3) 1(2) by (simp add: length_page_slots m_def)
next
  case (2 s n s')
  have "mset (tok_slots s') = mset (tok_slots s) \<and> page_size s' = page_size s \<and> length (tok_slots s) < n div page_size s"
    using 2 paged_take_cases [of s n]
    by (auto simp: paged_inv_def tok_inv_def tok_slots_def split: if_splits)
  then show ?case
    using 2 paged_slots_mset [of s' s]
    by (auto simp: length_paged_slots paged_inv_def elim!: dvdE)
next
  case (3 s n)
  then show ?case
    using paged_take_cases [of s n] by (auto simp: paged_inv_def tok_inv_def)
next
  case (4 s n xs s')
  define m where "m = n div page_size s"
  define s1 where "s1 = (if need_sort s \<and> m > length (free_pages s) then merge_and_sort_free s else s)"
  have r: "xs = page_slots (int (page_size s)) (take m (free_pages s1))"
    using 4 paged_take_cases [of s n] by (auto simp: paged_inv_def m_def s1_def split: if_splits)
  have "distinct (tok_slots s)" using 4 by (simp add: paged_slots_def distinct_page_slots paged_inv_def)
  moreover have "mset (tok_slots s1) = mset (tok_slots s)" by (simp add: s1_def)
  ultimately have "distinct (tok_slots s1)" using mset_eq_imp_distinct_iff by blast
  then show ?case unfolding r using 4 by (intro page_slots_whole) (simp_all add: paged_inv_def tok_slots_def)
next
  case (5 s n m)
  then show ?case by (simp only: page_size_paged_take)
next
  case (6 s n ys)
  then show ?case by (simp only: page_size_paged_take)
next
  case (7 s xs)
  let ?U = "unique_ints (map (\<lambda>i. i div int (page_size s)) xs)"
  show ?case
  proof (cases "xs = []")
    case False
    then have "mset (tok_slots (paged_give s xs)) = mset (?U @ tok_slots s)" "page_size (paged_give s xs) = page_size s"
      using 7(1) by (auto simp: paged_give_def paged_free_def paged_inv_def tok_inv_def tok_slots_def Let_def)
    then have "mset (paged_slots (paged_give s xs)) = mset (page_slots (int (page_size s)) (?U @ tok_slots s))"
      unfolding paged_slots_def
      by (simp only: mset_page_slots [of "tok_slots (paged_give s xs)" "?U @ tok_slots s"])
    then show ?thesis
      using unique_pages_of_whole [of "int (page_size s)" xs] 7
      by (simp add: page_slots_append paged_slots_def paged_inv_def)
  qed (simp add: paged_give_def paged_free_def)
next
  case (8 s xs)
  then show ?case by (auto simp: paged_give_def paged_free_def paged_inv_def tok_inv_def Let_def)
next
  case (9 s xs m)
  then show ?case by (auto simp: paged_give_def paged_free_def Let_def)
next
  case (10 s xs ys)
  then show ?case by (auto simp: paged_give_def paged_free_def Let_def)
qed

section \<open>The pools conserve their slots\<close>

lemma page_size_client_step:
  "page_size (fst (client_step paged_take paged_give op c)) = page_size (fst c)"
proof (cases c)
  case (Pair s held)
  show ?thesis
  proof (cases op)
    case (Take n)
    then show ?thesis using Pair page_size_paged_take [of s n]
      by (cases "paged_take s n"; cases "fst (paged_take s n)") auto
  next
    case (Give i)
    then show ?thesis using Pair by (auto simp: paged_give_def paged_free_def Let_def)
  qed
qed

lemma page_size_client_run:
  "page_size (fst (client_run paged_take paged_give ops c)) = page_size (fst c)"
  unfolding client_run_def
  by (induction ops arbitrary: c) (simp_all add: page_size_client_step)

lemma tok_init_slots: "tok_slots (tok_init sz ns) = map int [1 ..< sz + 1]"
  by (simp add: tok_slots_def tok_init_def tok_clear_def)

lemma tok_init_inv: "tok_inv (tok_init sz ns)"
  by (simp add: tok_inv_def tok_init_def tok_clear_def)

lemma paged_init_slots:
  "paged_slots (paged_init sz P ns False) = page_slots (int P) (map int [1 ..< sz div P + 1])"
  by (simp add: paged_slots_def tok_slots_def paged_init_def paged_clear_def)

lemma paged_init_inv: "0 < P \<Longrightarrow> paged_inv (paged_init sz P ns False)"
  by (simp add: paged_inv_def tok_inv_def paged_init_def paged_clear_def)

text \<open>
  A token allocator created for \<open>sz\<close> slots hands out every slot at most once: after any
  sequence of allocations and releases by its client, the free slots and the blocks the
  client holds are together exactly the slots 1 to \<open>sz\<close>, each once, so no slot is shared by
  two blocks and none is lost; slot 0, the padding slot, is never handed out.
\<close>

theorem tok_pool_conservation:
  assumes "client_run tok_alloc tok_free ops (tok_init sz ns, []) = (st, held)"
  shows "mset (tok_slots st) + mset (concat held) = mset (map int [1 ..< sz + 1])
    \<and> distinct (tok_slots st @ concat held) \<and> 0 \<notin> set (concat held)"
proof -
  have ops: "list_all (tpool.op_ok (tok_init sz ns)) ops"
    unfolding list_all_iff by (metis tpool.op_ok.elims(3))
  have d: "distinct (tok_slots (tok_init sz ns))"
    unfolding tok_init_slots by (simp add: distinct_map)
  note c = tpool.conservation [OF tok_init_inv d ops assms]
  have "set (concat held) \<subseteq> set (map int [1 ..< sz + 1])"
    using c(1) tok_init_slots [of sz ns] by (metis set_mset_mset set_mset_union sup_ge2)
  then show ?thesis using c tok_init_slots [of sz ns] by auto
qed

theorem tok_pool_conservation_witness:
  "client_run tok_alloc tok_free [Take 2, Take 3, Give 1, Take 1] (tok_init 5 True, [])
     = (snd (tok_alloc (tok_free (snd (tok_alloc (snd (tok_alloc (tok_init 5 True) 2)) 3)) [1, 2]) 1),
        [[1], [3, 4, 5]])
   \<and> distinct ([2] @ [1, 3, 4, 5 :: int])"
proof -
  have run: "client_run tok_alloc tok_free [Take 2, Take 3, Give 1, Take 1] (tok_init 5 True, [])
     = (snd (tok_alloc (tok_free (snd (tok_alloc (snd (tok_alloc (tok_init 5 True) 2)) 3)) [1, 2]) 1),
        [[1], [3, 4, 5]])" by code_simp
  have "tok_slots (snd (tok_alloc (tok_free (snd (tok_alloc (snd (tok_alloc (tok_init 5 True) 2)) 3)) [1, 2]) 1))
     @ concat [[1], [3, 4, 5]] = [2] @ [1, 3, 4, 5]" by code_simp
  then show ?thesis using tok_pool_conservation [OF run] run by metis
qed

text \<open>
  C24: A paged allocator (debug assertions off) whose client asks for whole pages hands out
  every slot at most once: after any sequence of page-aligned allocations and releases, the
  slots of the free pages and the blocks held are together exactly the slots of the pages 1
  to \<open>sz div P\<close>, each once; an allocation succeeds exactly when enough slots are free.
\<close>

theorem paged_pool_conservation:
  assumes "0 < P" "list_all (\<lambda>op. case op of Take n \<Rightarrow> P dvd n | Give _ \<Rightarrow> True) ops"
    "client_run paged_take paged_give ops (paged_init sz P ns False, []) = (st, held)"
  shows "mset (paged_slots st) + mset (concat held)
           = mset (page_slots (int P) (map int [1 ..< sz div P + 1]))
    \<and> distinct (paged_slots st @ concat held)
    \<and> (P dvd n \<longrightarrow> (fst (paged_take st n) \<noteq> None) = (n \<le> length (paged_slots st)))"
proof -
  let ?s0 = "paged_init sz P ns False"
  have P0: "page_size ?s0 = P" by (simp add: paged_init_def paged_clear_def)
  have ops: "list_all (ppool.op_ok ?s0) ops"
    using assms(2) P0 by (auto simp: list_all_iff split: pool_op.splits) (metis ppool.op_ok.elims(3) pool_op.case)
  have d: "distinct (paged_slots ?s0)"
    unfolding paged_init_slots using assms(1) by (simp add: distinct_page_slots distinct_map)
  have acc: "ppool.accounts (mset (paged_slots ?s0)) (client_run paged_take paged_give ops (?s0, []))"
    using paged_init_inv [OF assms(1)] d ops
    by (intro ppool.client_run_accounts) (auto simp: ppool.accounts_def distinct_count_atmost_1 count_mset_0_iff)
  have ps: "page_size (fst (client_run paged_take paged_give ops (?s0, []))) = P"
    using P0 page_size_client_run by simp
  show ?thesis
    using ppool.conservation [OF paged_init_inv [OF assms(1)] d ops assms(3)]
      ppool.alloc_iff_enough [of st n] acc ps assms(3)
    by (simp add: ppool.accounts_def paged_init_slots)
qed

theorem paged_pool_conservation_witness:
  "client_run paged_take paged_give [Take 4, Take 4, Give 1, Take 8] (paged_init 12 4 False False, [])
     = (snd (paged_take (paged_give (snd (paged_take (snd (paged_take (paged_init 12 4 False False) 4)) 4)) [4, 5, 6, 7]) 8),
        [[4, 5, 6, 7, 12, 13, 14, 15], [8, 9, 10, 11]])
   \<and> distinct ([] @ [4, 5, 6, 7, 12, 13, 14, 15, 8, 9, 10, 11 :: int])"
proof -
  have run: "client_run paged_take paged_give [Take 4, Take 4, Give 1, Take 8] (paged_init 12 4 False False, [])
     = (snd (paged_take (paged_give (snd (paged_take (snd (paged_take (paged_init 12 4 False False) 4)) 4)) [4, 5, 6, 7]) 8),
        [[4, 5, 6, 7, 12, 13, 14, 15], [8, 9, 10, 11]])" by code_simp
  have ops: "list_all (\<lambda>op. case op of Take n \<Rightarrow> (4::nat) dvd n | Give _ \<Rightarrow> True) [Take 4, Take 4, Give 1, Take 8]"
    by simp
  have "paged_slots (snd (paged_take (paged_give (snd (paged_take (snd (paged_take (paged_init 12 4 False False) 4)) 4)) [4, 5, 6, 7]) 8))
     @ concat [[4, 5, 6, 7, 12, 13, 14, 15], [8, 9, 10, 11]] = [] @ [4, 5, 6, 7, 12, 13, 14, 15, 8, 9, 10, 11]" by code_simp
  then show ?thesis using paged_pool_conservation [OF _ ops run, of 0] run by (metis zero_less_numeral)
qed

text \<open>
  The request pool hands out every row index at most once: after any sequence of
  allocations and releases, free rows and held rows are together exactly the rows of the
  pool, and an allocation of \<open>n\<close> rows succeeds exactly when \<open>n\<close> rows are free.
\<close>

theorem req_pool_conservation:
  assumes "client_run rp_alloc rp_free ops (req_pool_init sz ctx, []) = (rp, held)"
  shows "mset (free_slots rp) + mset (concat held) = mset [0 ..< sz]
    \<and> distinct (free_slots rp @ concat held)
    \<and> (fst (rp_alloc rp n) \<noteq> None) = (n \<le> rp_available_size rp)"
proof -
  have i: "free_slots (req_pool_init sz ctx) = [0 ..< sz]" by (simp add: req_pool_init_def)
  have ops: "list_all (rpool.op_ok (req_pool_init sz ctx)) ops"
    unfolding list_all_iff by (metis rpool.op_ok.elims(3))
  have d: "distinct (free_slots (req_pool_init sz ctx))" by (simp add: i)
  show ?thesis
    using rpool.conservation [OF _ d ops assms] rpool.alloc_iff_enough [of rp n]
    by (simp add: i rp_available_size_def)
qed

theorem req_pool_conservation_witness:
  "client_run rp_alloc rp_free [Take 1, Take 1, Give 0, Take 1] (req_pool_init 2 3, [])
     = (snd (rp_alloc (rp_free (snd (rp_alloc (snd (rp_alloc (req_pool_init 2 3) 1)) 1)) [1]) 1), [[1], [0]])
   \<and> distinct ([] @ [1, 0 :: nat])"
proof -
  have run: "client_run rp_alloc rp_free [Take 1, Take 1, Give 0, Take 1] (req_pool_init 2 3, [])
     = (snd (rp_alloc (rp_free (snd (rp_alloc (snd (rp_alloc (req_pool_init 2 3) 1)) 1)) [1]) 1), [[1], [0]])"
    by code_simp
  have "free_slots (snd (rp_alloc (rp_free (snd (rp_alloc (snd (rp_alloc (req_pool_init 2 3) 1)) 1)) [1]) 1))
     @ concat [[1], [0]] = [] @ [1, 0]" by code_simp
  then show ?thesis using req_pool_conservation [OF run] run by metis
qed

section \<open>Extension and decode steps of the paged allocator\<close>

lemma extend_free_pages_subset: "set (extend_free_pages st n bs) \<subseteq> set (tok_slots st)"
  by (auto simp: extend_free_pages_def tok_slots_def)

lemma distinct_extend_free_pages:
  "distinct (tok_slots st) \<Longrightarrow> distinct (extend_free_pages st n bs)"
proof -
  assume d: "distinct (tok_slots st)"
  have "mset (free_pages (merge_and_sort_free st)) = mset (tok_slots st)" by (simp add: tok_slots_def)
  then have "distinct (free_pages (merge_and_sort_free st))" using d mset_eq_imp_distinct_iff by blast
  then show ?thesis using d by (simp add: extend_free_pages_def tok_slots_def)
qed

lemma lanes_ok_args:
  "extend_args_ok pre seq lloc n \<Longrightarrow> list_all2 (\<lambda>l r. (l + 1) mod P = r mod P) lloc pre \<Longrightarrow>
   lanes_ok P pre seq lloc"
proof -
  assume a: "extend_args_ok pre seq lloc n" and l: "list_all2 (\<lambda>l r. (l + 1) mod P = r mod P) lloc pre"
  from a have "list_all2 (\<lambda>p s. 0 \<le> p \<and> p \<le> s) pre seq" by (simp add: extend_args_ok_def)
  then show ?thesis using l
  proof (induction pre seq arbitrary: lloc rule: list_all2_induct)
    case (Cons r pre s seq)
    then show ?case by (cases lloc) auto
  qed simp
qed

lemma layout_exclusive:
  assumes "0 < P" "lanes_ok P pre seq lloc" "pages_needed P pre seq \<le> length fp"
    "distinct fp" "distinct (tail_pages P pre lloc)" "set (tail_pages P pre lloc) \<inter> set fp = {}"
    "x \<in> set (concat (extend_layout P pre seq lloc fp))"
  shows "x div P \<notin> set (drop (pages_needed P pre seq) fp)"
proof -
  have "x div P \<in> set (take (pages_needed P pre seq) fp) \<union> set (tail_pages P pre lloc)"
    using layout_pages [OF assms(1-3,7)] by blast
  then show ?thesis
    using set_take_disj_set_drop_if_distinct [OF assms(4), of "pages_needed P pre seq" "pages_needed P pre seq"]
      assms(6) in_set_dropD [of _ _ fp] by blast
qed


definition demo_hw :: hw where
  "demo_hw = \<lparr>lane_other = 77, oob_page = (\<lambda>_. 99), uninit_cell = (\<lambda>_. 55)\<rparr>"

definition demo_paged :: kv_alloc where
  "demo_paged = snd (paged_alloc 4 (paged_init 16 4 False False))"


lemma lanes_ok_decode:
  "list_all2 (\<lambda>l s. (l + 2) mod P = s mod P) lloc seq \<Longrightarrow>
   lanes_ok P (map (\<lambda>s. s - 1) seq) seq lloc"
proof (induction seq arbitrary: lloc)
  case (Cons s seq)
  then obtain l lloc' where l: "lloc = l # lloc'" "(l + 2) mod P = s mod P"
    "list_all2 (\<lambda>l s. (l + 2) mod P = s mod P) lloc' seq" by (auto simp: list_all2_Cons2)
  have "(l + 2 - 1) mod P = (s - 1) mod P" using l(2) by (rule mod_diff_cong) simp
  then show ?case using Cons.IH [OF l(3)] l(1) by (simp add: add.commute)
qed (simp add: list_all2_Nil2)

text \<open>
  The decode call of the paged allocator (pages of more than one slot): under the same
  conditions it is the extend layout for lengths that grow by one, so each request gets the
  slot after its last one, or the first slot of a fresh page when its page is full; the
  slots are pairwise different and off the pages that stay free; it fails exactly when the
  fresh pages run short.
\<close>

theorem paged_decode_exclusive:
  assumes st: "1 < page_size st" "\<not> debug_mode st" "distinct (tok_slots st)"
    and align: "list_all2 (\<lambda>l s. (l + 2) mod int (page_size st) = s mod int (page_size st)) lloc seq"
    and tails: "distinct (tail_pages (int (page_size st)) (map (\<lambda>s. s - 1) seq) lloc)"
      "set (tail_pages (int (page_size st)) (map (\<lambda>s. s - 1) seq) lloc) \<inter> set (tok_slots st) = {}"
  shows "case paged_alloc_decode h seq lloc st of
      (Inr (Some out), st') \<Rightarrow>
        out = concat (extend_layout (int (page_size st)) (map (\<lambda>s. s - 1) seq) seq lloc
                (decode_free_pages st (length seq)))
        \<and> length out = length seq \<and> distinct out
        \<and> (\<forall>x \<in> set out. x div int (page_size st) \<notin> set (free_pages st'))
    | (Inr None, st') \<Rightarrow>
        int (length (decode_free_pages st (length seq))) < get_num_new_pages_decode seq (int (page_size st))
    | (Inl _, _) \<Rightarrow> False"
proof -
  let ?P = "int (page_size st)"
  let ?pre = "map (\<lambda>s. s - 1) seq"
  define fp where "fp = decode_free_pages st (length seq)"
  define need where "need = get_num_new_pages_decode seq ?P"
  define out where "out = concat (extend_layout ?P ?pre seq lloc fp)"
  have P: "0 < ?P" and len: "length lloc = length seq"
    using st(1) list_all2_lengthD [OF align] by simp_all
  note lanes = lanes_ok_decode [OF align]
  have need: "need = int (pages_needed ?P ?pre seq)"
    using num_new_pages_decode [of ?P seq] num_new_pages_lane_sum [of seq ?pre ?P]
      pages_needed_lane_sum [OF P lanes] st(1) by (simp add: need_def)
  have mf: "mset (free_pages (merge_and_sort_free st)) = mset (tok_slots st)" by (simp add: tok_slots_def)
  then have fpd: "distinct fp" and sub: "set fp \<subseteq> set (tok_slots st)"
    using st(3) mset_eq_imp_distinct_iff [OF mf] by (auto simp: fp_def decode_free_pages_def tok_slots_def)
  have fps: "set (tail_pages ?P ?pre lloc) \<inter> set fp = {}" using tails(2) sub by blast
  have res: "fst (paged_alloc_decode h seq lloc st) =
           Inr (if int (length fp) < need then None else Some out)
       \<and> free_pages (snd (paged_alloc_decode h seq lloc st)) =
           (if int (length fp) < need then fp else drop (nat need) fp)"
    unfolding fp_def need_def out_def by (rule paged_alloc_decode_layout [OF st(1,2) len])
  show ?thesis
  proof (cases "int (length fp) < need")
    case True
    then show ?thesis using res unfolding fp_def [symmetric] need_def [symmetric] by (auto split: prod.splits)
  next
    case False
    then have le: "pages_needed ?P ?pre seq \<le> length fp" using need by simp
    have "length out = length seq"
      using length_decode_layout [OF P len order_refl, of fp] len unfolding out_def by simp
    moreover have "distinct out"
      unfolding out_def by (rule layout_distinct [OF P lanes le fpd tails(1) fps])
    moreover have "\<forall>x \<in> set out. x div ?P \<notin> set (drop (pages_needed ?P ?pre seq) fp)"
      unfolding out_def using layout_exclusive [OF P lanes le fpd tails(1) fps] by blast
    ultimately show ?thesis
      using res need False unfolding fp_def [symmetric] out_def [symmetric] by (auto split: prod.splits)
  qed
qed

theorem paged_decode_exclusive_witness:
  "fst (paged_alloc_decode demo_hw [3, 5] [5, 3] demo_paged) = Inr (Some [6, 8]) \<and> distinct [6, 8 :: int]"
proof -
  have f: "fst (paged_alloc_decode demo_hw [3, 5] [5, 3] demo_paged) = Inr (Some [6, 8])" by code_simp
  then obtain st' where r: "paged_alloc_decode demo_hw [3, 5] [5, 3] demo_paged = (Inr (Some [6, 8]), st')"
    by (metis prod.collapse)
  have "case paged_alloc_decode demo_hw [3, 5] [5, 3] demo_paged of
      (Inr (Some out), st') \<Rightarrow>
        out = concat (extend_layout (int (page_size demo_paged)) (map (\<lambda>s. s - 1) [3, 5]) [3, 5] [5, 3]
                (decode_free_pages demo_paged (length [3 :: int, 5])))
        \<and> length out = length [3 :: int, 5] \<and> distinct out
        \<and> (\<forall>x \<in> set out. x div int (page_size demo_paged) \<notin> set (free_pages st'))
    | (Inr None, st') \<Rightarrow>
        int (length (decode_free_pages demo_paged (length [3 :: int, 5])))
          < get_num_new_pages_decode [3, 5] (int (page_size demo_paged))
    | (Inl _, _) \<Rightarrow> False"
    by (rule paged_decode_exclusive) code_simp+
  then have "distinct [6, 8 :: int]" unfolding r prod.case sum.case option.case by blast
  with f show ?thesis by blast
qed

text \<open>
  Releasing inside a free group only records the blocks; ending the group releases their
  concatenation at once, so a group of releases has the effect of one release.
\<close>

lemma free_group_frees:
  "foldl tok_free (free_group_begin st) blocks
     = st\<lparr>is_not_in_free_group := False, free_group := filter (\<lambda>b. b \<noteq> []) blocks\<rparr>"
proof (induction blocks rule: rev_induct)
  case (snoc b blocks)
  then show ?case by (cases "b = []") (simp_all add: tok_free_def)
qed (simp add: free_group_begin_def)

lemma concat_nonempty: "concat (filter (\<lambda>b. b \<noteq> []) bs) = concat bs"
  by (induction bs) auto

text \<open>
  Releases grouped between \<open>free_group_begin\<close> and \<open>free_group_end\<close> give the free and
  release lists of a single release of all the blocks' slots, in order.
\<close>

theorem tok_free_group_is_one_free:
  assumes "is_not_in_free_group st"
  shows "backup_state (snd (free_group_end (\<lambda>xs s. ((), tok_free s xs)) ()
           (foldl tok_free (free_group_begin st) blocks)))
       = backup_state (tok_free st (concat blocks))"
  using assms unfolding free_group_frees
  by (auto simp: free_group_end_def tok_free_def backup_state_def Let_def concat_nonempty filter_empty_conv)

theorem tok_free_group_is_one_free_witness:
  "backup_state (snd (free_group_end (\<lambda>xs s. ((), tok_free s xs)) ()
           (foldl tok_free (free_group_begin (tok_init 2 False)) [[3], [], [4, 5]])))
     = ([1, 2, 3, 4, 5], [])"
proof -
  have "is_not_in_free_group (tok_init 2 False)" by code_simp
  from tok_free_group_is_one_free [OF this, of "[[3], [], [4, 5]]"] show ?thesis
    by (simp add: tok_init_def tok_clear_def tok_free_def backup_state_def upt_rec)
qed

end
