(* ===== verification/TreeValueSpec.thy ===== *)
theory TreeValueSpec
  imports Prelude
begin

text \<open>
  The tree-attention metadata of \<open>srt/lvm/tree_value_spec.py\<close>: the flattened mask and
  position buffers of a batch (\<open>TreeValueSpecInput\<close>), their filtering and merging when the
  scheduler changes the batch, and the builder of both buffers.

  The abstract view of a batch is a list of per-request blocks (\<open>treq\<close>); \<open>of_blocks\<close>
  flattens it. The refinement lemmas say that building, filtering and merging the flat
  buffers are building, selecting and appending blocks.
\<close>

section \<open>State and index helpers\<close>

record tree_spec =
  custom_mask :: "bool list"
  positions :: "int list"
  tree_value_prefix_lens :: "int list"
  tree_value_candidate_lens :: "int list"
  tree_value_cached_prefix_lens :: "int list"

text \<open>Python list indexing (a negative index counts from the end) and \<open>Tensor.narrow\<close>.\<close>

definition py_nth :: "'a list \<Rightarrow> int \<Rightarrow> 'a res" where
  "py_nth xs i =
     (if 0 \<le> i \<and> i < int (length xs) then Inr (xs ! nat i)
      else if i < 0 \<and> - int (length xs) \<le> i then Inr (xs ! nat (int (length xs) + i))
      else Inl IndexError)"

definition narrow :: "'a list \<Rightarrow> int \<Rightarrow> int \<Rightarrow> 'a list res" where
  "narrow xs start len =
     (let n = int (length xs); s = (if start < 0 then n + start else start)
      in if len < 0 then Inl RuntimeError
         else if start < - n \<or> start > n then Inl IndexError
         else if s + len > n then Inl RuntimeError
         else Inr (take (nat len) (drop (nat s) xs)))"

section \<open>Operations on a batch\<close>

fun qk_loop ::
  "(int \<times> int \<times> int) list \<Rightarrow> int \<Rightarrow> int \<Rightarrow> (int list \<times> int list \<times> int list \<times> int list) res"
where
  "qk_loop [] m_off p_off = Inr ([], [], [], [])"
| "qk_loop ((L, N, P) # reqs) m_off p_off =
     (let q = (L - P) + N; k = L + N
      in if q \<le> 0 \<or> k \<le> 0 then Inl ValueError
         else bind_res (qk_loop reqs (m_off + q * k) (p_off + q))
                (\<lambda>(qs, ks, ms, ps). Inr (q # qs, k # ks, m_off # ms, p_off # ps)))"

definition per_req_qk_and_offsets ::
  "tree_spec \<Rightarrow> (int list \<times> int list \<times> int list \<times> int list) res"
where
  "per_req_qk_and_offsets sp =
     (let Ls = tree_value_prefix_lens sp; Ns = tree_value_candidate_lens sp;
          Ps = tree_value_cached_prefix_lens sp
      in if \<not> (length Ls = length Ns \<and> length Ns = length Ps) then Inl ValueError
         else qk_loop (zip Ls (zip Ns Ps)) 0 0)"

definition gather_one ::
  "tree_spec \<Rightarrow> int list \<Rightarrow> int list \<Rightarrow> int list \<Rightarrow> int \<Rightarrow>
   (bool list \<times> int list \<times> int \<times> int \<times> int) res"
where
  "gather_one sp q_lens mask_offsets pos_offsets i =
     bind_res (py_nth q_lens i) (\<lambda>q.
     bind_res (py_nth mask_offsets i) (\<lambda>m0.
     bind_res (py_nth pos_offsets i) (\<lambda>p0.
     bind_res (py_nth (tree_value_prefix_lens sp) i) (\<lambda>L.
     bind_res (py_nth (tree_value_candidate_lens sp) i) (\<lambda>N.
     bind_res (narrow (custom_mask sp) m0 (q * (L + N))) (\<lambda>mc.
     bind_res (narrow (positions sp) p0 q) (\<lambda>pc.
     bind_res (py_nth (tree_value_cached_prefix_lens sp) i) (\<lambda>P.
       Inr (mc, pc, L, N, P)))))))))"

definition filter_gather :: "int list \<Rightarrow> (tree_spec, unit) run" where
  "filter_gather idx_list sp =
     (case per_req_qk_and_offsets sp of
        Inl e \<Rightarrow> (Inl e, sp)
      | Inr (q_lens, k_lens, mask_offsets, pos_offsets) \<Rightarrow>
          (case gather_all (gather_one sp q_lens mask_offsets pos_offsets) idx_list of
             Inl e \<Rightarrow> (Inl e, sp)
           | Inr chunks \<Rightarrow>
               (Inr (), \<lparr>custom_mask = concat (map fst chunks),
                         positions = concat (map (fst \<circ> snd) chunks),
                         tree_value_prefix_lens = map (fst \<circ> snd \<circ> snd) chunks,
                         tree_value_candidate_lens = map (fst \<circ> snd \<circ> snd \<circ> snd) chunks,
                         tree_value_cached_prefix_lens = map (snd \<circ> snd \<circ> snd \<circ> snd) chunks\<rparr>)))"

text \<open>The fast path: the first \<open>new_bs\<close> requests are kept, by cutting the buffers.\<close>

definition filter_truncate :: "nat \<Rightarrow> (tree_spec, unit) run" where
  "filter_truncate new_bs sp =
     (case per_req_qk_and_offsets sp of
        Inl e \<Rightarrow> (Inl e, sp)
      | Inr (q_lens, k_lens, mask_offsets, pos_offsets) \<Rightarrow>
          (let i = new_bs - 1;
               L = tree_value_prefix_lens sp ! i;
               N = tree_value_candidate_lens sp ! i;
               P = tree_value_cached_prefix_lens sp ! i;
               q = (L - P) + N; k = L + N;
               end_mask = mask_offsets ! i + q * k;
               end_pos = pos_offsets ! i + q
           in case narrow (custom_mask sp) 0 end_mask of
                Inl e \<Rightarrow> (Inl e, sp)
              | Inr cm \<Rightarrow>
                  (let sp1 = sp\<lparr>custom_mask := cm\<rparr>
                   in case narrow (positions sp1) 0 end_pos of
                        Inl e \<Rightarrow> (Inl e, sp1)
                      | Inr ps \<Rightarrow>
                          (Inr (), sp1\<lparr>positions := ps,
                             tree_value_prefix_lens := take new_bs (tree_value_prefix_lens sp1),
                             tree_value_candidate_lens := take new_bs (tree_value_candidate_lens sp1),
                             tree_value_cached_prefix_lens :=
                               take new_bs (tree_value_cached_prefix_lens sp1)\<rparr>))))"

definition filter_batch :: "int list option \<Rightarrow> bool \<Rightarrow> (tree_spec, unit) run" where
  "filter_batch new_indices has_been_filtered sp =
     (case new_indices of
        None \<Rightarrow> (Inr (), sp)
      | Some idx_list \<Rightarrow>
          if idx_list = []
          then (Inr (), \<lparr>custom_mask = [], positions = [], tree_value_prefix_lens = [],
                         tree_value_candidate_lens = [], tree_value_cached_prefix_lens = []\<rparr>)
          else if has_been_filtered \<and> idx_list = map int [0 ..< length idx_list]
          then (if length idx_list \<ge> length (tree_value_prefix_lens sp) then (Inr (), sp)
                else filter_truncate (length idx_list) sp)
          else filter_gather idx_list sp)"

definition merge_batch :: "tree_spec option \<Rightarrow> tree_spec \<Rightarrow> tree_spec" where
  "merge_batch other sp =
     (case other of
        None \<Rightarrow> sp
      | Some o2 \<Rightarrow>
          \<lparr>custom_mask = custom_mask sp @ custom_mask o2,
           positions = positions sp @ positions o2,
           tree_value_prefix_lens = tree_value_prefix_lens sp @ tree_value_prefix_lens o2,
           tree_value_candidate_lens = tree_value_candidate_lens sp @ tree_value_candidate_lens o2,
           tree_value_cached_prefix_lens =
             tree_value_cached_prefix_lens sp @ tree_value_cached_prefix_lens o2\<rparr>)"

section \<open>The builder\<close>

text \<open>
  The buffers are written through a row-major view of the slice of each request. \<open>uninit\<close>
  is what \<open>np.empty\<close> leaves in a position cell.
\<close>

definition reshape :: "nat \<Rightarrow> nat \<Rightarrow> 'a list \<Rightarrow> 'a list list" where
  "reshape rows k xs = map (\<lambda>t. slice xs (t * k) (t * k + k)) [0 ..< rows]"

definition fill_row :: "nat \<Rightarrow> bool list list \<Rightarrow> nat \<Rightarrow> bool list list" where
  "fill_row b m row = m[row := replicate (min b (length (m ! row))) True @ drop b (m ! row)]"

definition set_cell :: "bool list list \<Rightarrow> nat \<Rightarrow> nat \<Rightarrow> bool list list" where
  "set_cell m row col = m[row := (m ! row)[col := True]]"

definition fill_request :: "nat \<Rightarrow> nat \<Rightarrow> nat \<Rightarrow> bool list list \<Rightarrow> bool list list" where
  "fill_request L N P m =
     (let m1 = foldl (\<lambda>m t. fill_row (P + t + 1) m t) m [0 ..< L - P];
          m2 = foldl (\<lambda>m j. fill_row L m (L - P + j)) m1 [0 ..< N]
      in foldl (\<lambda>m j. set_cell m (L - P + j) (L + j)) m2 [0 ..< N])"

fun build_loop ::
  "(nat \<times> nat \<times> nat) list \<Rightarrow> bool list \<Rightarrow> int list \<Rightarrow> nat \<Rightarrow> nat \<Rightarrow> bool list \<times> int list"
where
  "build_loop [] mask_buf pos_buf mask_off pos_off = (mask_buf, pos_buf)"
| "build_loop ((L, N, P) # reqs) mask_buf pos_buf mask_off pos_off =
     (let q = (L - P) + N; k = L + N;
          m = reshape q k (slice mask_buf mask_off (mask_off + q * k));
          mask_buf = blit mask_off (concat (fill_request L N P m)) mask_buf;
          pos_buf = (if L - P > 0 then blit pos_off (map int [P ..< L]) pos_buf else pos_buf);
          pos_buf = blit (pos_off + (L - P)) (replicate N (int L)) pos_buf
      in build_loop reqs mask_buf pos_buf (mask_off + q * k) (pos_off + q))"

fun lens_valid :: "(int \<times> int \<times> int) list \<Rightarrow> bool" where
  "lens_valid [] = True"
| "lens_valid ((L, N, P) # reqs) =
     (if L \<le> 0 then False else if N \<le> 0 then False else if P < 0 \<or> P > L then False
      else lens_valid reqs)"

definition build_tree_value_custom_mask_and_positions ::
  "(nat \<Rightarrow> int) \<Rightarrow> int list \<Rightarrow> int list \<Rightarrow> int list \<Rightarrow> (bool list \<times> int list) res"
where
  "build_tree_value_custom_mask_and_positions uninit Ls Ns Ps =
     (if \<not> (length Ls = length Ns \<and> length Ns = length Ps) then Inl AssertionError
      else if length Ls = 0 then Inr ([], [])
      else if \<not> lens_valid (zip Ls (zip Ns Ps)) then Inl ValueError
      else
        (let reqs = map (\<lambda>(L, N, P). (nat L, nat N, nat P)) (zip Ls (zip Ns Ps));
             total_mask = sum_list (map (\<lambda>(L, N, P). ((L - P) + N) * (L + N)) reqs);
             total_pos = sum_list (map (\<lambda>(L, N, P). (L - P) + N) reqs)
         in Inr (build_loop reqs (replicate total_mask False) (map uninit [0 ..< total_pos]) 0 0)))"

section \<open>The batch as a list of blocks\<close>

record treq =
  tq_L :: int
  tq_N :: int
  tq_P :: int
  tq_mask :: "bool list"
  tq_pos :: "int list"

definition of_blocks :: "treq list \<Rightarrow> tree_spec" where
  "of_blocks bs =
     \<lparr>custom_mask = concat (map tq_mask bs), positions = concat (map tq_pos bs),
      tree_value_prefix_lens = map tq_L bs, tree_value_candidate_lens = map tq_N bs,
      tree_value_cached_prefix_lens = map tq_P bs\<rparr>"

definition treq_ok :: "treq \<Rightarrow> bool" where
  "treq_ok b \<longleftrightarrow> 0 < (tq_L b - tq_P b) + tq_N b \<and> 0 < tq_L b + tq_N b \<and>
     int (length (tq_mask b)) = ((tq_L b - tq_P b) + tq_N b) * (tq_L b + tq_N b) \<and>
     int (length (tq_pos b)) = (tq_L b - tq_P b) + tq_N b"

text \<open>Row \<open>t\<close> of a request's mask, as the module's documentation specifies it.\<close>

definition tree_row :: "nat \<Rightarrow> nat \<Rightarrow> nat \<Rightarrow> nat \<Rightarrow> bool list" where
  "tree_row L N P t =
     map (\<lambda>c. if t < L - P then c \<le> P + t else c < L \<or> c = L + (t - (L - P))) [0 ..< L + N]"

definition tree_block :: "int \<times> int \<times> int \<Rightarrow> treq" where
  "tree_block = (\<lambda>(L, N, P).
     \<lparr>tq_L = L, tq_N = N, tq_P = P,
      tq_mask = concat (map (tree_row (nat L) (nat N) (nat P)) [0 ..< nat (L - P + N)]),
      tq_pos = [P .. L - 1] @ replicate (nat N) L\<rparr>)"

section \<open>Filtering selects blocks\<close>

definition treq_q :: "treq \<Rightarrow> int" where
  "treq_q b = (tq_L b - tq_P b) + tq_N b"

definition treq_k :: "treq \<Rightarrow> int" where
  "treq_k b = tq_L b + tq_N b"

definition block_off :: "(treq \<Rightarrow> 'a list) \<Rightarrow> treq list \<Rightarrow> nat \<Rightarrow> nat" where
  "block_off f bs i = length (concat (map f (take i bs)))"

lemma block_off_0 [simp]: "block_off f bs 0 = 0"
  by (simp add: block_off_def)

lemma block_off_Suc_Cons [simp]: "block_off f (b # bs) (Suc i) = length (f b) + block_off f bs i"
  by (simp add: block_off_def)

lemma block_off_Suc: "i < length bs \<Longrightarrow> block_off f bs (Suc i) = block_off f bs i + length (f (bs ! i))"
  by (simp add: block_off_def take_Suc_conv_app_nth)

lemma block_off_mono: "i \<le> j \<Longrightarrow> block_off f bs i \<le> block_off f bs j"
proof -
  assume "i \<le> j"
  then have "take j bs = take i bs @ take (j - i) (drop i bs)" by (metis le_add_diff_inverse take_add)
  then show ?thesis by (simp add: block_off_def)
qed

lemma block_off_length: "block_off f bs (length bs) = length (concat (map f bs))"
  by (simp add: block_off_def)

lemma concat_block:
  "i < length bs \<Longrightarrow>
   take (length (f (bs ! i))) (drop (block_off f bs i) (concat (map f bs))) = f (bs ! i)"
proof (induction bs arbitrary: i)
  case (Cons b bs)
  then show ?case by (cases i) simp_all
qed simp

lemma concat_take_blocks:
  "take (block_off f bs i) (concat (map f bs)) = concat (map f (take i bs))"
  using append_take_drop_id [of i bs] unfolding block_off_def
  by (metis append_eq_conv_conj concat_append map_append)

lemma narrow_block:
  assumes "i < length bs" "len = int (length (f (bs ! i)))"
  shows "narrow (concat (map f bs)) (int (block_off f bs i)) len = Inr (f (bs ! i))"
proof -
  have "block_off f bs (Suc i) \<le> block_off f bs (length bs)"
    using assms(1) by (intro block_off_mono) simp
  then have "block_off f bs i + length (f (bs ! i)) \<le> length (concat (map f bs))"
    using assms(1) by (simp add: block_off_Suc block_off_length)
  then show ?thesis
    using assms concat_block [OF assms(1), of f] by (simp add: narrow_def Let_def)
qed

lemma narrow_blocks:
  assumes "i \<le> length bs"
  shows "narrow (concat (map f bs)) 0 (int (block_off f bs i)) = Inr (concat (map f (take i bs)))"
proof -
  have "block_off f bs i \<le> length (concat (map f bs))"
    using block_off_mono [OF assms, of f bs] by (simp add: block_off_length)
  then show ?thesis by (simp add: narrow_def Let_def concat_take_blocks)
qed

lemma qk_loop_blocks:
  "list_all treq_ok bs \<Longrightarrow>
   qk_loop (map (\<lambda>b. (tq_L b, tq_N b, tq_P b)) bs) m p =
     Inr (map treq_q bs, map treq_k bs,
          map (\<lambda>i. m + int (block_off tq_mask bs i)) [0 ..< length bs],
          map (\<lambda>i. p + int (block_off tq_pos bs i)) [0 ..< length bs])"
proof (induction bs arbitrary: m p)
  case (Cons b bs)
  have ok: "0 < tq_L b - tq_P b + tq_N b" "0 < tq_L b + tq_N b"
    "int (length (tq_mask b)) = (tq_L b - tq_P b + tq_N b) * (tq_L b + tq_N b)"
    "int (length (tq_pos b)) = tq_L b - tq_P b + tq_N b"
    using Cons.prems by (simp_all add: treq_ok_def)
  have up: "[0 ..< length (b # bs)] = 0 # map Suc [0 ..< length bs]"
    by (simp add: map_Suc_upt upt_conv_Cons del: upt_Suc)
  have IH: "qk_loop (map (\<lambda>b. (tq_L b, tq_N b, tq_P b)) bs)
      (m + int (length (tq_mask b))) (p + int (length (tq_pos b))) =
     Inr (map treq_q bs, map treq_k bs,
          map (\<lambda>i. m + int (length (tq_mask b)) + int (block_off tq_mask bs i)) [0 ..< length bs],
          map (\<lambda>i. p + int (length (tq_pos b)) + int (block_off tq_pos bs i)) [0 ..< length bs])"
    using Cons.prems by (intro Cons.IH) simp
  show ?case
    using ok(1,2) IH unfolding up ok(3,4)
    by (simp add: Let_def treq_q_def treq_k_def comp_def add.assoc ok(3,4))
qed simp

lemma zip_of_blocks:
  "zip (map f bs) (zip (map g bs) (map h bs)) = map (\<lambda>b. (f b, g b, h b)) bs"
  by (induction bs) simp_all

lemma per_req_of_blocks:
  "list_all treq_ok bs \<Longrightarrow>
   per_req_qk_and_offsets (of_blocks bs) =
     Inr (map treq_q bs, map treq_k bs,
          map (\<lambda>i. int (block_off tq_mask bs i)) [0 ..< length bs],
          map (\<lambda>i. int (block_off tq_pos bs i)) [0 ..< length bs])"
  using qk_loop_blocks [of bs 0 0]
  by (simp add: per_req_qk_and_offsets_def of_blocks_def Let_def zip_of_blocks)

lemma gather_one_block:
  assumes "list_all treq_ok bs" "i < length bs"
  shows "gather_one (of_blocks bs) (map treq_q bs)
      (map (\<lambda>i. int (block_off tq_mask bs i)) [0 ..< length bs])
      (map (\<lambda>i. int (block_off tq_pos bs i)) [0 ..< length bs]) (int i)
    = Inr (tq_mask (bs ! i), tq_pos (bs ! i), tq_L (bs ! i), tq_N (bs ! i), tq_P (bs ! i))"
proof -
  have ok: "treq_ok (bs ! i)" using assms by (simp add: list_all_length)
  have m: "narrow (concat (map tq_mask bs)) (int (block_off tq_mask bs i))
      (treq_q (bs ! i) * (tq_L (bs ! i) + tq_N (bs ! i))) = Inr (tq_mask (bs ! i))"
    by (rule narrow_block) (use ok assms in \<open>simp_all add: treq_ok_def treq_q_def\<close>)
  have p: "narrow (concat (map tq_pos bs)) (int (block_off tq_pos bs i)) (treq_q (bs ! i))
      = Inr (tq_pos (bs ! i))"
    by (rule narrow_block) (use ok assms in \<open>simp_all add: treq_ok_def treq_q_def\<close>)
  show ?thesis using assms m p by (simp add: gather_one_def of_blocks_def py_nth_def)
qed

lemma filter_gather_blocks:
  assumes "list_all treq_ok bs" "\<forall>i \<in> set idx. i < length bs"
  shows "filter_gather (map int idx) (of_blocks bs) = (Inr (), of_blocks (map ((!) bs) idx))"
proof -
  have "gather_all (gather_one (of_blocks bs) (map treq_q bs)
      (map (\<lambda>i. int (block_off tq_mask bs i)) [0 ..< length bs])
      (map (\<lambda>i. int (block_off tq_pos bs i)) [0 ..< length bs])) (map int idx)
    = Inr (map (\<lambda>i. (tq_mask (bs ! nat i), tq_pos (bs ! nat i), tq_L (bs ! nat i),
        tq_N (bs ! nat i), tq_P (bs ! nat i))) (map int idx))"
    using assms by (intro gather_all_map) (auto simp: gather_one_block)
  then show ?thesis
    using per_req_of_blocks [OF assms(1)] by (simp add: filter_gather_def of_blocks_def comp_def)
qed

lemma filter_truncate_blocks:
  assumes "list_all treq_ok bs" "0 < n" "n \<le> length bs"
  shows "filter_truncate n (of_blocks bs) = (Inr (), of_blocks (take n bs))"
proof -
  let ?b = "bs ! (n - 1)"
  have i: "n - 1 < length bs" "Suc (n - 1) = n" using assms by simp_all
  have ok: "treq_ok ?b" using assms(1) i by (simp add: list_all_length)
  have em: "int (block_off tq_mask bs (n - 1)) + (tq_L ?b - tq_P ?b + tq_N ?b) * (tq_L ?b + tq_N ?b)
      = int (block_off tq_mask bs n)"
    using block_off_Suc [OF i(1), of tq_mask] ok unfolding i(2) by (simp add: treq_ok_def)
  have ep: "int (block_off tq_pos bs (n - 1)) + (tq_L ?b - tq_P ?b + tq_N ?b)
      = int (block_off tq_pos bs n)"
    using block_off_Suc [OF i(1), of tq_pos] ok unfolding i(2) by (simp add: treq_ok_def)
  have sp: "per_req_qk_and_offsets (of_blocks bs) =
     Inr (map treq_q bs, map treq_k bs,
          map (\<lambda>i. int (block_off tq_mask bs i)) [0 ..< length bs],
          map (\<lambda>i. int (block_off tq_pos bs i)) [0 ..< length bs])"
    by (rule per_req_of_blocks [OF assms(1)])
  have lens: "tree_value_prefix_lens (of_blocks bs) = map tq_L bs"
    "tree_value_candidate_lens (of_blocks bs) = map tq_N bs"
    "tree_value_cached_prefix_lens (of_blocks bs) = map tq_P bs"
    "custom_mask (of_blocks bs) = concat (map tq_mask bs)"
    "positions (of_blocks bs) = concat (map tq_pos bs)"
    by (simp_all add: of_blocks_def)
  show ?thesis
    unfolding filter_truncate_def sp lens
    using i em ep narrow_blocks [OF assms(3), of tq_mask] narrow_blocks [OF assms(3), of tq_pos]
    by (simp add: Let_def) (simp add: of_blocks_def take_map)
qed

text \<open>
  Filtering a batch keeps exactly the requests named by the indices, in their order, with
  their mask and position blocks intact, on both paths.
\<close>

lemma filter_batch_blocks:
  assumes "list_all treq_ok bs" "\<forall>i \<in> set idx. i < length bs"
  shows "filter_batch (Some (map int idx)) flag (of_blocks bs) = (Inr (), of_blocks (map ((!) bs) idx))"
proof (cases "idx = [] \<or> \<not> (flag \<and> idx = [0 ..< length idx])")
  case True
  then show ?thesis
    using filter_gather_blocks [OF assms] map_injective [of int idx "[0 ..< length idx]"]
    by (auto simp: filter_batch_def of_blocks_def inj_on_def)
next
  case False
  let ?n = "length idx"
  have idx: "idx = [0 ..< ?n]" "0 < ?n" using False by auto
  have "?n - 1 \<in> set idx" using idx by (metis One_nat_def Suc_pred atLeastLessThan_iff le0 lessI set_upt)
  then have n: "?n \<le> length bs" using assms(2) idx(2) by fastforce
  have "map ((!) bs) [0 ..< ?n] = take ?n bs" using n by (intro nth_equalityI) simp_all
  then have sel: "map ((!) bs) idx = take ?n bs" using idx(1) by simp
  show ?thesis
    using False idx n sel filter_truncate_blocks [OF assms(1) idx(2) n]
    by (auto simp: filter_batch_def of_blocks_def)
qed

section \<open>The builder writes the tree mask\<close>

lemma foldl_rows:
  assumes "a + n \<le> length m"
  shows "length (foldl (\<lambda>m t. m[a + t := h t (m ! (a + t))]) m [0 ..< n]) = length m"
    "r < length m \<Longrightarrow> foldl (\<lambda>m t. m[a + t := h t (m ! (a + t))]) m [0 ..< n] ! r =
       (if a \<le> r \<and> r < a + n then h (r - a) (m ! r) else m ! r)"
proof -
  have "length (foldl (\<lambda>m t. m[a + t := h t (m ! (a + t))]) m [0 ..< n]) = length m \<and>
    (\<forall>r < length m. foldl (\<lambda>m t. m[a + t := h t (m ! (a + t))]) m [0 ..< n] ! r =
       (if a \<le> r \<and> r < a + n then h (r - a) (m ! r) else m ! r))"
    using assms by (induction n) (auto simp: nth_list_update)
  then show "length (foldl (\<lambda>m t. m[a + t := h t (m ! (a + t))]) m [0 ..< n]) = length m"
    "r < length m \<Longrightarrow> foldl (\<lambda>m t. m[a + t := h t (m ! (a + t))]) m [0 ..< n] ! r =
       (if a \<le> r \<and> r < a + n then h (r - a) (m ! r) else m ! r)" by blast+
qed

lemma fill_row_nth:
  "fill_row b m row = m[row := map (\<lambda>c. c < b \<or> m ! row ! c) [0 ..< length (m ! row)]]"
proof -
  have "replicate (min b (length (m ! row))) True @ drop b (m ! row)
      = map (\<lambda>c. c < b \<or> m ! row ! c) [0 ..< length (m ! row)]"
    by (rule nth_equalityI) (auto simp: nth_append min_def)
  then show ?thesis by (simp add: fill_row_def)
qed

lemma fill_request_rows:
  assumes "P \<le> L" "r < L - P + N"
  shows "fill_request L N P (replicate (L - P + N) (replicate (L + N) False)) ! r = tree_row L N P r"
    "length (fill_request L N P (replicate (L - P + N) (replicate (L + N) False))) = L - P + N"
proof -
  let ?m0 = "replicate (L - P + N) (replicate (L + N) False)"
  let ?h = "\<lambda>b row. map (\<lambda>c. c < b \<or> row ! c) [0 ..< length row]"
  let ?m1 = "foldl (\<lambda>m t. m[0 + t := ?h (P + t + 1) (m ! (0 + t))]) ?m0 [0 ..< L - P]"
  let ?m2 = "foldl (\<lambda>m j. m[L - P + j := ?h L (m ! (L - P + j))]) ?m1 [0 ..< N]"
  let ?m3 = "foldl (\<lambda>m j. m[L - P + j := (m ! (L - P + j))[L + j := True]]) ?m2 [0 ..< N]"
  have fr: "fill_request L N P ?m0 = ?m3"
    unfolding fill_request_def Let_def fill_row_nth set_cell_def by simp
  have l1: "length ?m1 = L - P + N" by (subst foldl_rows(1)) simp_all
  have l2: "length ?m2 = L - P + N" using l1 by (subst foldl_rows(1)) simp_all
  have l3: "length ?m3 = L - P + N" using l2 by (subst foldl_rows(1)) simp_all
  have n1: "?m1 ! r = (if r < L - P then ?h (P + r + 1) (replicate (L + N) False) else replicate (L + N) False)"
    using assms by (subst foldl_rows(2)) simp_all
  have n2: "?m2 ! r = (if L - P \<le> r then ?h L (?m1 ! r) else ?m1 ! r)"
    using assms l1 by (subst foldl_rows(2)) simp_all
  have n3: "?m3 ! r = (if L - P \<le> r then (?m2 ! r)[L + (r - (L - P)) := True] else ?m2 ! r)"
    using assms l2 by (subst foldl_rows(2)) simp_all
  have "?m3 ! r = tree_row L N P r"
    unfolding n3 n2 n1 tree_row_def using assms
    by (intro nth_equalityI) (auto simp: nth_list_update)
  then show "fill_request L N P ?m0 ! r = tree_row L N P r" using fr by simp
  show "length (fill_request L N P ?m0) = L - P + N" using fr l3 by simp
qed

lemma fill_request_is_mask:
  "P \<le> L \<Longrightarrow> fill_request L N P (replicate (L - P + N) (replicate (L + N) False))
     = map (tree_row L N P) [0 ..< L - P + N]"
proof (cases "L - P + N = 0")
  case True
  then show ?thesis by (simp add: fill_request_def)
next
  case False
  assume P: "P \<le> L"
  have "length (fill_request L N P (replicate (L - P + N) (replicate (L + N) False))) = L - P + N"
    using False by (intro fill_request_rows(2) [OF P, of 0]) (simp only: neq0_conv)
  then show ?thesis
    using fill_request_rows(1) [OF P] by (intro nth_equalityI) (simp_all del: upt_Suc)
qed

lemma reshape_zeros: "reshape q k (replicate (q * k) False) = replicate q (replicate k False)"
proof (rule nth_equalityI)
  fix t assume "t < length (reshape q k (replicate (q * k) False))"
  then have t: "t < q" by (simp add: reshape_def)
  then have "t * k + k \<le> q * k" by (metis Suc_leI add.commute mult_Suc mult_le_mono1)
  then show "reshape q k (replicate (q * k) False) ! t = replicate q (replicate k False) ! t"
    using t by (simp add: reshape_def slice_def)
qed (simp add: reshape_def)

definition nreq_mask :: "nat \<times> nat \<times> nat \<Rightarrow> bool list" where
  "nreq_mask = (\<lambda>(L, N, P). concat (map (tree_row L N P) [0 ..< L - P + N]))"

definition nreq_pos :: "nat \<times> nat \<times> nat \<Rightarrow> int list" where
  "nreq_pos = (\<lambda>(L, N, P). map int [P ..< L] @ replicate N (int L))"

lemma length_nreq_mask: "length (nreq_mask (L, N, P)) = (L - P + N) * (L + N)"
proof -
  have "length (concat (map (tree_row L N P) ts)) = length ts * (L + N)" for ts
    by (induction ts) (simp_all add: tree_row_def)
  then show ?thesis by (simp add: nreq_mask_def)
qed

lemma length_nreq_pos: "length (nreq_pos (L, N, P)) = L - P + N"
  by (simp add: nreq_pos_def)

lemma blit_at_end: "blit (length A) ys (A @ xs) = A @ ys @ drop (length ys) xs"
  by (simp add: blit_def)

lemma blit_pos:
  assumes "length U = L - P + N" "P \<le> L"
  shows "blit (length B + (L - P)) (replicate N v)
     (if L - P > 0 then blit (length B) (map int [P ..< L]) (B @ U @ W) else B @ U @ W)
   = B @ (map int [P ..< L] @ replicate N v) @ W"
  using assms by (simp add: blit_def)

lemma build_loop_blocks:
  assumes "list_all (\<lambda>(L, N, P). P \<le> L) reqs"
    "length U = sum_list (map (\<lambda>(L, N, P). (L - P) + N) reqs)"
  shows "build_loop reqs
      (A @ replicate (sum_list (map (\<lambda>(L, N, P). ((L - P) + N) * (L + N)) reqs)) False)
      (B @ U) (length A) (length B)
    = (A @ concat (map nreq_mask reqs), B @ concat (map nreq_pos reqs))"
  using assms
proof (induction reqs arbitrary: A B U)
  case (Cons req reqs)
  obtain L N P where req: "req = (L, N, P)" by (cases req)
  let ?q = "L - P + N" and ?k = "L + N"
  let ?rest = "sum_list (map (\<lambda>(L, N, P). ((L - P) + N) * (L + N)) reqs)"
  have P: "P \<le> L" using Cons.prems(1) req by simp
  define U1 where "U1 = take ?q U"
  define W where "W = drop ?q U"
  have U: "U = U1 @ W" "length U1 = ?q" "length W = sum_list (map (\<lambda>(L, N, P). (L - P) + N) reqs)"
    using Cons.prems(2) req by (simp_all add: U1_def W_def)
  have mask: "blit (length A) (concat (fill_request L N P (reshape ?q ?k
        (slice (A @ replicate (?q * ?k + ?rest) False) (length A) (length A + ?q * ?k)))))
      (A @ replicate (?q * ?k + ?rest) False) = A @ nreq_mask req @ replicate ?rest False"
  proof -
    have "slice (A @ replicate (?q * ?k + ?rest) False) (length A) (length A + ?q * ?k) = replicate (?q * ?k) False"
      by (simp add: slice_def)
    then have "concat (fill_request L N P (reshape ?q ?k
        (slice (A @ replicate (?q * ?k + ?rest) False) (length A) (length A + ?q * ?k)))) = nreq_mask req"
      by (simp only: reshape_zeros fill_request_is_mask [OF P] nreq_mask_def req prod.case)
    then show ?thesis unfolding blit_at_end using length_nreq_mask [of L N P] req by simp
  qed
  have pos: "blit (length B + (L - P)) (replicate N (int L))
     (if L - P > 0 then blit (length B) (map int [P ..< L]) (B @ U) else B @ U) = B @ nreq_pos req @ W"
    using blit_pos [OF U(2) P, of B "int L" W] by (simp only: U(1) nreq_pos_def req prod.case append_assoc)
  have "build_loop reqs ((A @ nreq_mask req) @ replicate ?rest False) ((B @ nreq_pos req) @ W)
      (length (A @ nreq_mask req)) (length (B @ nreq_pos req))
    = ((A @ nreq_mask req) @ concat (map nreq_mask reqs), (B @ nreq_pos req) @ concat (map nreq_pos reqs))"
    using Cons.prems(1) U(3) by (intro Cons.IH) simp_all
  then show ?case
    using mask pos by (simp add: req Let_def length_nreq_mask length_nreq_pos)
qed simp

section \<open>Building, filtering and merging fit together\<close>

definition reqs_valid :: "(int \<times> int \<times> int) list \<Rightarrow> bool" where
  "reqs_valid reqs \<longleftrightarrow> list_all (\<lambda>(L, N, P). 0 < L \<and> 0 < N \<and> 0 \<le> P \<and> P \<le> L) reqs"

lemma lens_valid_iff: "lens_valid reqs = reqs_valid reqs"
  by (induction reqs rule: lens_valid.induct) (auto simp: reqs_valid_def)

lemma tree_block_mask:
  "0 < L \<Longrightarrow> 0 < N \<Longrightarrow> 0 \<le> P \<Longrightarrow> P \<le> L \<Longrightarrow>
   nreq_mask (nat L, nat N, nat P) = tq_mask (tree_block (L, N, P)) \<and>
   nreq_pos (nat L, nat N, nat P) = tq_pos (tree_block (L, N, P))"
proof -
  assume a: "0 < L" "0 < N" "0 \<le> P" "P \<le> L"
  have "nat L - nat P + nat N = nat (L - P + N)" using a by simp
  moreover have "map int [nat P ..< nat L] = [P .. L - 1]"
    using a by (intro nth_equalityI) (simp_all add: nth_upto)
  ultimately show ?thesis using a by (simp add: nreq_mask_def nreq_pos_def tree_block_def)
qed

lemma tree_block_ok:
  assumes "0 < L" "0 < N" "0 \<le> P" "P \<le> L"
  shows "treq_ok (tree_block (L, N, P))"
proof -
  have n: "int (nat L - nat P + nat N) = L - P + N" "int (nat L + nat N) = L + N" using assms by linarith+
  have "int (length (tq_mask (tree_block (L, N, P)))) = (L - P + N) * (L + N)"
    using tree_block_mask [OF assms] length_nreq_mask [of "nat L" "nat N" "nat P"] n by (metis of_nat_mult)
  moreover have "int (length (tq_pos (tree_block (L, N, P)))) = L - P + N"
    using tree_block_mask [OF assms] length_nreq_pos [of "nat L" "nat N" "nat P"] n by metis
  ultimately show ?thesis using assms by (simp add: treq_ok_def) (simp add: tree_block_def)
qed

lemma tree_blocks_ok: "reqs_valid reqs \<Longrightarrow> list_all treq_ok (map tree_block reqs)"
  by (auto simp: reqs_valid_def list_all_iff tree_block_ok)

lemma build_blocks:
  "build_tree_value_custom_mask_and_positions uninit (map fst reqs) (map (fst \<circ> snd) reqs) (map (snd \<circ> snd) reqs)
     = (if reqs_valid reqs
        then Inr (custom_mask (of_blocks (map tree_block reqs)), positions (of_blocks (map tree_block reqs)))
        else Inl ValueError)"
proof -
  let ?n = "map (\<lambda>(L, N, P). (nat L, nat N, nat P)) reqs"
  have z: "zip (map fst reqs) (zip (map (fst \<circ> snd) reqs) (map (snd \<circ> snd) reqs)) = reqs"
    by (induction reqs) simp_all
  have "build_loop ?n (replicate (sum_list (map (\<lambda>(L, N, P). ((L - P) + N) * (L + N)) ?n)) False)
      (map uninit [0 ..< sum_list (map (\<lambda>(L, N, P). (L - P) + N) ?n)]) 0 0
    = (concat (map nreq_mask ?n), concat (map nreq_pos ?n))" if "reqs_valid reqs"
  proof -
    have "list_all (\<lambda>(L, N, P). P \<le> L) ?n" using that by (auto simp: reqs_valid_def list_all_iff)
    from build_loop_blocks [OF this, of "map uninit [0 ..< sum_list (map (\<lambda>(L, N, P). (L - P) + N) ?n)]" "[]" "[]"]
    show ?thesis by simp
  qed
  moreover have "map nreq_mask ?n = map (tq_mask \<circ> tree_block) reqs" "map nreq_pos ?n = map (tq_pos \<circ> tree_block) reqs"
    if "reqs_valid reqs"
    using that tree_block_mask by (auto simp: reqs_valid_def list_all_iff)
  ultimately have B: "build_loop ?n (replicate (sum_list (map (\<lambda>(L, N, P). ((L - P) + N) * (L + N)) ?n)) False)
      (map uninit [0 ..< sum_list (map (\<lambda>(L, N, P). (L - P) + N) ?n)]) 0 0
    = (concat (map (tq_mask \<circ> tree_block) reqs), concat (map (tq_pos \<circ> tree_block) reqs))" if "reqs_valid reqs"
    using that by (simp only:)
  have "reqs_valid []" by (simp add: reqs_valid_def)
  then show ?thesis using B
    unfolding build_tree_value_custom_mask_and_positions_def z lens_valid_iff
    by (cases "reqs = []") (simp_all add: Let_def of_blocks_def del: map_map add: map_map [symmetric])
qed

text \<open>
  C4: The builder of the tree-attention mask and positions. On requests with a non-empty
  prefix, at least one candidate and a cached part within the prefix it returns, for every
  request, the rows the documentation specifies (a new prefix token at position \<open>P + t\<close>
  attends to positions up to its own; candidate \<open>j\<close> attends to the whole prefix and to
  itself only) and the positions \<open>P .. L - 1\<close> followed by \<open>L\<close> for every candidate, whatever
  the uninitialised buffer held; on any other request it raises \<open>ValueError\<close>.
\<close>

theorem build_tree_value_blocks:
  "build_tree_value_custom_mask_and_positions uninit (map fst reqs) (map (fst \<circ> snd) reqs) (map (snd \<circ> snd) reqs)
     = (if reqs_valid reqs
        then Inr (custom_mask (of_blocks (map tree_block reqs)), positions (of_blocks (map tree_block reqs)))
        else Inl ValueError)"
  by (rule build_blocks)

definition built_spec :: "(int \<times> int \<times> int) list \<Rightarrow> tree_spec" where
  "built_spec reqs = of_blocks (map tree_block reqs)"

lemma tree_row_entry:
  assumes "r < L - P + N" "c < L + N"
  shows "tree_row L N P r ! c = (if r < L - P then c \<le> P + r else c < L \<or> c = L + (r - (L - P)))"
  using assms by (simp add: tree_row_def)

text \<open>
  C25: Batch changes commute with building: merging two built batches is building the
  concatenated request list, and filtering a built batch is building the selected requests,
  so after any mix of both the metadata stays aligned with the requests it belongs to.
\<close>

theorem tree_batch_commutes:
  assumes "reqs_valid reqs" "\<forall>i \<in> set idx. i < length (reqs @ others)" "reqs_valid others"
  shows "merge_batch (Some (built_spec others)) (built_spec reqs) = built_spec (reqs @ others)
    \<and> filter_batch (Some (map int idx)) flag (merge_batch (Some (built_spec others)) (built_spec reqs))
      = (Inr (), built_spec (map ((!) (reqs @ others)) idx))"
proof -
  have m: "merge_batch (Some (built_spec others)) (built_spec reqs) = built_spec (reqs @ others)"
    by (simp add: merge_batch_def built_spec_def of_blocks_def)
  have ok: "list_all treq_ok (map tree_block (reqs @ others))"
    using assms(1,3) by (intro tree_blocks_ok) (simp add: reqs_valid_def)
  have sel: "map ((!) (map tree_block (reqs @ others))) idx = map tree_block (map ((!) (reqs @ others)) idx)"
    using assms(2) by (auto simp del: map_append)
  have "filter_batch (Some (map int idx)) flag (built_spec (reqs @ others))
      = (Inr (), built_spec (map ((!) (reqs @ others)) idx))"
    using filter_batch_blocks [OF ok, of idx flag] assms(2) unfolding sel built_spec_def by simp
  then show ?thesis using m by simp
qed

theorem tree_batch_commutes_witness:
  "filter_batch (Some (map int [2, 1])) True
     (merge_batch (Some (built_spec [(2, 2, 2)])) (built_spec [(3, 1, 1), (1, 1, 0)]))
   = (Inr (), built_spec [(2, 2, 2), (1, 1, 0)])"
proof -
  have "reqs_valid [(3, 1, 1), (1, 1, 0)]" "reqs_valid [(2, 2, 2)]" by code_simp+
  from tree_batch_commutes [OF this(1) _ this(2), of "[2, 1]" True]
  have "filter_batch (Some (map int [2, 1])) True
     (merge_batch (Some (built_spec [(2, 2, 2)])) (built_spec [(3, 1, 1), (1, 1, 0)]))
   = (Inr (), built_spec (map ((!) ([(3, 1, 1), (1, 1, 0)] @ [(2, 2, 2)])) [2, 1]))"
    by (elim meta_mp [THEN conjunct2]) simp
  moreover have "map ((!) ([(3, 1, 1), (1, 1, 0)] @ [(2, 2, 2)])) [2, 1] = [(2, 2, 2), (1, 1, 0::int) :: int \<times> int \<times> int]"
    by simp
  ultimately show ?thesis by (simp only:)
qed

text \<open>
  A filter index outside the batch is reported, not misread: on the gathering path the
  call raises \<open>IndexError\<close> and leaves the batch as it was.
\<close>

theorem filter_batch_index_error:
  assumes "list_all treq_ok bs" "\<forall>i \<in> set idx. 0 \<le> i" "\<exists>i \<in> set idx. int (length bs) \<le> i"
  shows "filter_batch (Some idx) False (of_blocks bs) = (Inl IndexError, of_blocks bs)"
proof -
  let ?g = "gather_one (of_blocks bs) (map treq_q bs)
      (map (\<lambda>i. int (block_off tq_mask bs i)) [0 ..< length bs])
      (map (\<lambda>i. int (block_off tq_pos bs i)) [0 ..< length bs])"
  have bad: "?g i = Inl IndexError" if "int (length bs) \<le> i" for i
    using that by (simp add: gather_one_def py_nth_def)
  have "gather_all ?g js = Inl IndexError"
    if "\<forall>i \<in> set js. 0 \<le> i" "\<exists>i \<in> set js. int (length bs) \<le> i" for js
    using that
  proof (induction js)
    case (Cons j js)
    show ?case
    proof (cases "int (length bs) \<le> j")
      case False
      then have "nat j < length bs" "int (nat j) = j" using Cons.prems(1) by auto
      then obtain y where "?g j = Inr y" using gather_one_block [OF assms(1), of "nat j"] by simp
      moreover have "gather_all ?g js = Inl IndexError" using False Cons by auto
      ultimately show ?thesis by (simp only: gather_all.simps bind_res_simps)
    qed (simp add: bad)
  qed simp
  then have "filter_gather idx (of_blocks bs) = (Inl IndexError, of_blocks bs)"
    using per_req_of_blocks [OF assms(1)] assms(2,3) by (simp add: filter_gather_def)
  moreover have "idx \<noteq> []" using assms(3) by auto
  ultimately show ?thesis by (simp add: filter_batch_def)
qed

theorem filter_batch_index_error_witness:
  "filter_batch (Some [0, 2]) False (built_spec [(3, 1, 1), (1, 1, 0)])
     = (Inl IndexError, built_spec [(3, 1, 1), (1, 1, 0)])"
proof -
  have "list_all treq_ok (map tree_block [(3, 1, 1), (1, 1, 0)])" by code_simp
  then have "filter_batch (Some [0, 2]) False (of_blocks (map tree_block [(3, 1, 1), (1, 1, 0)]))
     = (Inl IndexError, of_blocks (map tree_block [(3, 1, 1), (1, 1, 0)]))"
    by (rule filter_batch_index_error) simp_all
  then show ?thesis by (simp only: built_spec_def)
qed

end
