(* ===== verification/Positions.thy ===== *)
theory Positions
  imports AllocKernels
begin

text \<open>
  Token positions of an extend batch, from \<open>srt/model_executor/forward_batch_info.py\<close>: the
  torch reference \<open>compute_position_torch\<close>, the fused Triton kernel that replaces it, and
  the dispatcher. Shown: the kernel computes what the reference computes, whatever the
  output buffers held before.
\<close>

text \<open>\<open>start[1:] = cumsum(lens[:-1])\<close> over a zero tensor is the exclusive running sum.\<close>

definition compute_position_torch :: "nat list \<Rightarrow> nat list \<Rightarrow> (int list \<times> nat list) res" where
  "compute_position_torch extend_prefix_lens extend_seq_lens =
     (if zip extend_prefix_lens extend_seq_lens = [] then Inl RuntimeError
      else Inr (concat (map2 (\<lambda>p e. map int [p ..< p + e]) extend_prefix_lens extend_seq_lens),
                0 # map (\<lambda>i. sum_list (take (Suc i) extend_seq_lens)) [0 ..< length extend_seq_lens - 1]))"

definition compute_position_kernel ::
  "nat list \<Rightarrow> nat list \<Rightarrow> bool \<Rightarrow> nat \<Rightarrow> (int \<times> int) list \<times> (nat \<times> nat)"
where
  "compute_position_kernel extend_prefix_lens extend_seq_lens has_prefix pid =
     (let prefix_len = (if has_prefix then extend_prefix_lens ! pid else 0);
          seq_len = extend_seq_lens ! pid;
          cumsum_start = foldl (\<lambda>acc i. acc + extend_seq_lens ! i) 0 [0 ..< pid];
          num_loop = (seq_len + 512 - 1) div 512
      in (concat (map (\<lambda>i. map (\<lambda>j. (int (cumsum_start + (j + i * 512)), int (prefix_len + (j + i * 512))))
                    (filter (\<lambda>j. j + i * 512 < seq_len) [0 ..< 512])) [0 ..< num_loop]),
          (pid, cumsum_start)))"

definition compute_position_triton ::
  "(nat \<Rightarrow> int) \<Rightarrow> (nat \<Rightarrow> nat) \<Rightarrow> nat list \<Rightarrow> nat list \<Rightarrow> nat \<Rightarrow> int list \<times> nat list"
where
  "compute_position_triton uninit_pos uninit_loc extend_prefix_lens extend_seq_lens extend_seq_lens_sum =
     (let bs = length extend_seq_lens;
          has_prefix = (length extend_prefix_lens = bs);
          progs = map (compute_position_kernel extend_prefix_lens extend_seq_lens has_prefix) [0 ..< bs]
      in (store_all (map uninit_pos [0 ..< extend_seq_lens_sum]) (concat (map fst progs)),
          foldl (\<lambda>b (i, v). b[i := v]) (map uninit_loc [0 ..< bs]) (map snd progs)))"

definition compute_position ::
  "bool \<Rightarrow> (nat \<Rightarrow> int) \<Rightarrow> (nat \<Rightarrow> nat) \<Rightarrow> nat list \<Rightarrow> nat list \<Rightarrow> nat \<Rightarrow> (int list \<times> nat list) res"
where
  "compute_position support_triton uninit_pos uninit_loc extend_prefix_lens extend_seq_lens extend_seq_lens_sum =
     (if support_triton
      then Inr (compute_position_triton uninit_pos uninit_loc extend_prefix_lens extend_seq_lens extend_seq_lens_sum)
      else compute_position_torch extend_prefix_lens extend_seq_lens)"

section \<open>The kernel's stores are consecutive\<close>

lemma upt_blocks: "concat (map (\<lambda>i. map (\<lambda>j. j + i * b) [0 ..< b]) [0 ..< k]) = [0 ..< k * b]"
proof (induction k)
  case (Suc k)
  have "map (\<lambda>j. j + k * b) [0 ..< b] = [k * b ..< k * b + b]"
    by (simp add: map_add_upt add.commute)
  moreover have "[0 ..< k * b + b] = [0 ..< k * b] @ [k * b ..< k * b + b]"
    by (rule upt_add_eq_append) simp
  ultimately show ?case using Suc.IH by (simp add: add.commute)
qed simp

lemma filter_upt_less_min: "filter (\<lambda>x. x < n) [0 ..< m] = [0 ..< min n m]"
proof (induction m)
  case (Suc m)
  then show ?case by (cases "n = Suc m") (auto simp: min_def)
qed simp

lemma blocks_of:
  "concat (map (\<lambda>i. map (\<lambda>j. f (j + i * b)) (filter (\<lambda>j. j + i * b < n) [0 ..< b])) [0 ..< k])
     = map f [0 ..< min n (k * b)]"
proof -
  have "concat (map (\<lambda>i. map (\<lambda>j. f (j + i * b)) (filter (\<lambda>j. j + i * b < n) [0 ..< b])) js)
      = map f (filter (\<lambda>x. x < n) (concat (map (\<lambda>i. map (\<lambda>j. j + i * b) [0 ..< b]) js)))" for js
    by (induction js) (simp_all add: filter_map comp_def)
  then show ?thesis by (simp only: upt_blocks filter_upt_less_min)
qed

lemma kernel_stores:
  assumes "pid < length lens" "length prefix = length lens"
  shows "compute_position_kernel prefix lens True pid =
    (run_of (sum_list (take pid lens)) (map int [prefix ! pid ..< prefix ! pid + lens ! pid]),
     (pid, sum_list (take pid lens)))"
proof -
  have start: "foldl (\<lambda>acc i. acc + lens ! i) 0 [0 ..< k] = sum_list (take k lens)" if "k \<le> length lens" for k
    using that by (induction k) (simp_all add: take_Suc_conv_app_nth)
  have loops: "min (lens ! pid) ((lens ! pid + 512 - 1) div 512 * 512) = lens ! pid"
  proof -
    have "lens ! pid + 512 - 1 = (lens ! pid + 512 - 1) div 512 * 512 + (lens ! pid + 512 - 1) mod 512" by simp
    moreover have "(lens ! pid + 512 - 1) mod 512 < 512" by simp
    ultimately have "lens ! pid \<le> (lens ! pid + 512 - 1) div 512 * 512" by linarith
    then show ?thesis by simp
  qed
  have "map (\<lambda>x. (int (sum_list (take pid lens) + x), int (prefix ! pid + x))) [0 ..< lens ! pid]
      = run_of (sum_list (take pid lens)) (map int [prefix ! pid ..< prefix ! pid + lens ! pid])"
    by (rule run_of_nth) simp_all
  then show ?thesis
    using assms start [of pid] loops
      blocks_of [of "\<lambda>x. (int (sum_list (take pid lens) + x), int (prefix ! pid + x))" 512 "lens ! pid"]
    by (simp add: compute_position_kernel_def Let_def)
qed

lemma length_concat_ranges:
  "length prefix = length lens \<Longrightarrow>
   length (concat (take i (map2 (\<lambda>p e. map int [p ..< p + e]) prefix lens))) = sum_list (take i lens)"
proof (induction lens arbitrary: prefix i)
  case (Cons e lens)
  then obtain p ps where "prefix = p # ps" by (cases prefix) auto
  then show ?case using Cons by (cases i) simp_all
qed simp

lemma foldl_store_index:
  "length b = n \<Longrightarrow> foldl (\<lambda>b (i, v). b[i := v]) b (map (\<lambda>i. (i, f i)) [0 ..< n]) = map f [0 ..< n]"
proof -
  have "k \<le> length b \<Longrightarrow> foldl (\<lambda>b (i, v). b[i := v]) b (map (\<lambda>i. (i, f i)) [0 ..< k]) = map f [0 ..< k] @ drop k b" for k
  proof (induction k)
    case (Suc k)
    then have "drop k b = b ! k # drop (Suc k) b" by (simp add: Cons_nth_drop_Suc)
    then show ?case using Suc by (simp add: list_update_append)
  qed simp
  then show "length b = n \<Longrightarrow> ?thesis" by simp
qed

text \<open>
  The fused kernel is the reference: for a non-empty batch with one prefix length per
  request, the Triton path returns the positions and start offsets of the torch path,
  whatever its output buffers contained.
\<close>

theorem compute_position_triton_is_torch:
  assumes "length prefix = length lens" "lens \<noteq> []"
  shows "compute_position True up ul prefix lens (sum_list lens) = compute_position False up ul prefix lens (sum_list lens)"
proof -
  let ?R = "map2 (\<lambda>p e. map int [p ..< p + e]) prefix lens"
  let ?K = "\<lambda>i. compute_position_kernel prefix lens True i"
  have lenR: "length ?R = length lens" using assms by simp
  have tot: "length (concat ?R) = sum_list lens"
    using length_concat_ranges [OF assms(1), of "length lens"] assms(1) by simp
  have K: "?K i = (run_of (sum_list (take i lens)) (?R ! i), (i, sum_list (take i lens)))" if "i < length lens" for i
    using kernel_stores [OF that assms(1)] that assms(1) by simp
  have pos: "store_all (map up [0 ..< sum_list lens]) (concat (map (\<lambda>i. fst (?K i)) [0 ..< length lens])) = concat ?R"
  proof -
    have "store_all (map up [0 ..< sum_list lens]) (concat (map (\<lambda>i. fst (?K i)) [0 ..< length ?R]))
      = concat (take (length ?R) ?R) @ drop (length (concat (take (length ?R) ?R))) (map up [0 ..< sum_list lens])"
      by (rule store_blocks) (use tot lenR K length_concat_ranges [OF assms(1)] in simp_all)
    then show ?thesis using lenR tot by simp
  qed
  have loc: "foldl (\<lambda>b (i, v). b[i := v]) (map ul [0 ..< length lens]) (map (\<lambda>i. snd (?K i)) [0 ..< length lens])
      = map (\<lambda>i. sum_list (take i lens)) [0 ..< length lens]"
  proof -
    have "map (\<lambda>i. snd (?K i)) [0 ..< length lens] = map (\<lambda>i. (i, sum_list (take i lens))) [0 ..< length lens]"
      using K by simp
    then show ?thesis by (simp only: foldl_store_index length_map length_upt diff_zero)
  qed
  have starts: "map (\<lambda>i. sum_list (take i lens)) [0 ..< length lens]
      = 0 # map (\<lambda>i. sum_list (take (Suc i) lens)) [0 ..< length lens - 1]"
    using assms(2) by (cases "length lens") (simp_all add: upt_conv_Cons map_Suc_upt [symmetric] del: upt_Suc)
  have "prefix \<noteq> []" using assms by auto
  then show ?thesis
    using assms pos loc starts
    by (simp add: compute_position_def compute_position_triton_def compute_position_torch_def Let_def comp_def)
qed

theorem compute_position_triton_is_torch_witness:
  "compute_position True (\<lambda>_. 9) (\<lambda>_. 9) [3, 0] [2, 1] 3 = Inr ([3, 4, 0], [0, 2])"
proof -
  have "compute_position True (\<lambda>_. 9) (\<lambda>_. 9) [3, 0] [2, 1] (sum_list [2, 1])
      = compute_position False (\<lambda>_. 9) (\<lambda>_. 9) [3, 0] [2, 1] (sum_list [2, 1])"
    by (rule compute_position_triton_is_torch) simp_all
  also have "\<dots> = Inr ([3, 4, 0], [0, 2])" by code_simp
  finally show ?thesis by simp
qed

end
