(* ===== verification/GuidanceParams.thy ===== *)
theory GuidanceParams
  imports LvmKv "HOL-Library.Sublist"
begin

text \<open>
  Request parameters of LenVM guidance: the first part of
  \<open>srt/lvm/lvm_guided_sampling.py\<close> (parameter extraction and parsing, the per-token
  temperature map, the entropy threshold, the incremental prefix cache) and
  \<open>srt/lvm/lvm_value_utils.py\<close> (EOS handling).

  A parameter is whatever JSON put into \<open>custom_params\<close>, so it is a value of \<open>pyval\<close>;
  conversions follow Python's \<open>float()\<close> and \<open>int()\<close>, with the literal grammars of strings
  as a parameter (\<open>py_lib\<close>). Attributes a request does not carry read as \<open>PNone\<close>. Values
  cached on the request object are fields of the request record that the functions return
  updated.
\<close>

section \<open>Python values\<close>

datatype xfloat = Fin real | PosInf | NegInf | NaN

datatype pyval =
    PNone
  | PBool bool
  | PInt int
  | PFloat xfloat
  | PStr string
  | PList "pyval list"
  | PDict "(string \<times> pyval) list"

record py_lib =
  float_of_str :: "string \<Rightarrow> xfloat option"
  int_of_str :: "string \<Rightarrow> int option"

definition py_float :: "py_lib \<Rightarrow> pyval \<Rightarrow> xfloat res" where
  "py_float lib v =
     (case v of
        PBool b \<Rightarrow> Inr (Fin (if b then 1 else 0))
      | PInt i \<Rightarrow> Inr (Fin (real_of_int i))
      | PFloat x \<Rightarrow> Inr x
      | PStr s \<Rightarrow> (case float_of_str lib s of Some x \<Rightarrow> Inr x | None \<Rightarrow> Inl ValueError)
      | _ \<Rightarrow> Inl TypeError)"

definition py_int :: "py_lib \<Rightarrow> pyval \<Rightarrow> int res" where
  "py_int lib v =
     (case v of
        PBool b \<Rightarrow> Inr (if b then 1 else 0)
      | PInt i \<Rightarrow> Inr i
      | PFloat (Fin x) \<Rightarrow> Inr (if 0 \<le> x then \<lfloor>x\<rfloor> else \<lceil>x\<rceil>)
      | PFloat _ \<Rightarrow> Inl ValueError
      | PStr s \<Rightarrow> (case int_of_str lib s of Some i \<Rightarrow> Inr i | None \<Rightarrow> Inl ValueError)
      | _ \<Rightarrow> Inl TypeError)"

definition py_truthy :: "pyval \<Rightarrow> bool" where
  "py_truthy v =
     (case v of
        PNone \<Rightarrow> False
      | PBool b \<Rightarrow> b
      | PInt i \<Rightarrow> i \<noteq> 0
      | PFloat (Fin x) \<Rightarrow> x \<noteq> 0
      | PFloat _ \<Rightarrow> True
      | PStr s \<Rightarrow> s \<noteq> []
      | PList xs \<Rightarrow> xs \<noteq> []
      | PDict d \<Rightarrow> d \<noteq> [])"

definition is_space :: "char \<Rightarrow> bool" where
  "is_space c \<longleftrightarrow> c \<in> set [CHR 0x20, CHR 0x09, CHR 0x0A, CHR 0x0B, CHR 0x0C, CHR 0x0D]"

definition py_strip :: "string \<Rightarrow> string" where
  "py_strip s = rev (dropWhile is_space (rev (dropWhile is_space s)))"

definition lower_char :: "char \<Rightarrow> char" where
  "lower_char c =
     (let n = (of_char c :: nat) in if 65 \<le> n \<and> n \<le> 90 then char_of (n + 32) else c)"

definition py_lower :: "string \<Rightarrow> string" where
  "py_lower s = map lower_char s"

text \<open>\<open>(v or default).strip().lower()\<close>.\<close>

definition norm_word :: "pyval \<Rightarrow> string \<Rightarrow> string res" where
  "norm_word v d =
     (if py_truthy v
      then (case v of PStr s \<Rightarrow> Inr (py_lower (py_strip s)) | _ \<Rightarrow> Inl AttributeError)
      else Inr (py_lower (py_strip d)))"

section \<open>Requests\<close>

datatype temp_cache = TUnset | TNothing | TMap "(int \<times> xfloat) list"

record greq =
  g_rid :: rid
  g_custom :: pyval
  origin_input_ids :: "int list"
  output_ids :: "int list option"
  eos_token_ids :: pyval
  tok_eos :: pyval
  multimodal_inputs :: "mm_input option"
  temp_scale_cache :: temp_cache
  entropy_cache :: "real option"
  prefix_cache :: "(int \<times> int \<times> int list) option"
  temp_tensors :: "(int list \<times> xfloat list) option"

record kwargs =
  kw_args :: "(string \<times> pyval) list"
  kw_req :: "greq option"

definition dict_get :: "(string \<times> pyval) list \<Rightarrow> string \<Rightarrow> pyval" where
  "dict_get d k = (case map_of d k of Some v \<Rightarrow> v | None \<Rightarrow> PNone)"

definition get_req_custom_params :: "greq option \<Rightarrow> (string \<times> pyval) list" where
  "get_req_custom_params req =
     (case req of None \<Rightarrow> [] | Some r \<Rightarrow> (case g_custom r of PDict d \<Rightarrow> d | _ \<Rightarrow> []))"

fun first_present :: "(string \<times> pyval) list \<Rightarrow> string list \<Rightarrow> pyval" where
  "first_present d [] = PNone"
| "first_present d (n # ns) = (if dict_get d n \<noteq> PNone then dict_get d n else first_present d ns)"

definition get_kwarg_or_custom_param :: "kwargs \<Rightarrow> string list \<Rightarrow> pyval" where
  "get_kwarg_or_custom_param kw names =
     (let v = first_present (kw_args kw) names
      in if v \<noteq> PNone then v else first_present (get_req_custom_params (kw_req kw)) names)"

definition default_guidance_fn :: "real list \<Rightarrow> real list \<Rightarrow> int list \<Rightarrow> kwargs \<Rightarrow> real list res" where
  "default_guidance_fn token_probs token_values token_ids kw = Inr token_probs"

definition parse_required_float :: "py_lib \<Rightarrow> pyval \<Rightarrow> real option \<Rightarrow> real res" where
  "parse_required_float lib raw dflt =
     (if raw = PNone then (case dflt of None \<Rightarrow> Inl ValueError | Some d \<Rightarrow> Inr d)
      else case py_float lib raw of
        Inl _ \<Rightarrow> Inl ValueError
      | Inr (Fin x) \<Rightarrow> Inr x
      | Inr _ \<Rightarrow> Inl ValueError)"

definition get_generated_len :: "greq option \<Rightarrow> nat" where
  "get_generated_len req =
     (case req of None \<Rightarrow> 0 | Some r \<Rightarrow> (case output_ids r of None \<Rightarrow> 0 | Some out \<Rightarrow> length out))"

definition extract_value_scale :: "py_lib \<Rightarrow> kwargs \<Rightarrow> real res" where
  "extract_value_scale lib kw =
     parse_required_float lib (get_kwarg_or_custom_param kw [''value_scale'', ''scale'']) (Some 1)"

definition extract_value_min :: "py_lib \<Rightarrow> kwargs \<Rightarrow> real option res" where
  "extract_value_min lib kw =
     (let v = get_kwarg_or_custom_param kw [''value_min'']
      in if v = PNone then Inr None
         else bind_res (parse_required_float lib v None) (\<lambda>x. Inr (Some x)))"

definition valid_modes :: "string list" where
  "valid_modes = [''mul'', ''linear'', ''exp'', ''length_mul'', ''centered_exp'', ''value_bias'']"

definition extract_value_mode :: "kwargs \<Rightarrow> string res" where
  "extract_value_mode kw =
     bind_res (norm_word (get_kwarg_or_custom_param kw [''mode'', ''value_mode'']) ''mul'')
       (\<lambda>m. if m \<in> set valid_modes then Inr m else Inl ValueError)"

definition extract_length_gamma :: "py_lib \<Rightarrow> kwargs \<Rightarrow> real res" where
  "extract_length_gamma lib kw =
     bind_res (parse_required_float lib (get_kwarg_or_custom_param kw [''length_gamma'', ''gamma''])
                 (Some (997 / 1000)))
       (\<lambda>g. if 0 < g \<and> g < 1 then Inr g else Inl ValueError)"

datatype constraint = CEq | CGe | CLe | CEqSoft

definition extract_value_constraint :: "kwargs \<Rightarrow> constraint res" where
  "extract_value_constraint kw =
     bind_res (norm_word (get_kwarg_or_custom_param kw [''value_constraint'', ''constraint'', ''cmp'', ''op'']) ''eq'')
       (\<lambda>c. if c \<in> set [''='', ''=='', ''eq'', ''equal'', ''equals''] then Inr CEq
            else if c \<in> set [''>'', ''>='', ''ge'', ''gte'', ''greater_equal''] then Inr CGe
            else if c \<in> set [''<'', ''<='', ''le'', ''lte'', ''less_equal''] then Inr CLe
            else if c \<in> set [''eq_soft'', ''soft'', ''equal_soft''] then Inr CEqSoft
            else Inl ValueError)"

definition extract_target_value :: "py_lib \<Rightarrow> kwargs \<Rightarrow> real option res" where
  "extract_target_value lib kw =
     (let tgt_v = get_kwarg_or_custom_param kw [''target_value''];
          tgt_len = get_kwarg_or_custom_param kw [''target_length''];
          tgt_len_mode = get_kwarg_or_custom_param kw [''target_length_mode'', ''length_mode'']
      in if tgt_v \<noteq> PNone then bind_res (parse_required_float lib tgt_v None) (\<lambda>v. Inr (Some v))
         else if tgt_len = PNone then Inr None
         else bind_res (parse_required_float lib tgt_len None) (\<lambda>len.
              bind_res (norm_word tgt_len_mode ''total'') (\<lambda>mode.
                (let len = (if mode = ''total'' \<or> mode = ''budget''
                            then max (len - real (get_generated_len (kw_req kw))) 0 else len)
                 in bind_res (extract_length_gamma lib kw) (\<lambda>gamma.
                      Inr (Some (1 - exp (len * ln gamma))))))))"

section \<open>Per-token temperature map\<close>

fun parse_scale_items :: "py_lib \<Rightarrow> (string \<times> pyval) list \<Rightarrow> (int \<times> xfloat) list \<Rightarrow> (int \<times> xfloat) list res" where
  "parse_scale_items lib [] acc = Inr acc"
| "parse_scale_items lib ((k, v) # items) acc =
     (case py_int lib (PStr k) of
        Inl _ \<Rightarrow> Inl ValueError
      | Inr i \<Rightarrow> (case py_float lib v of
                   Inl _ \<Rightarrow> Inl ValueError
                 | Inr d \<Rightarrow> parse_scale_items lib items (AList.update i d acc)))"

fun parse_boosted :: "py_lib \<Rightarrow> pyval list \<Rightarrow> xfloat \<Rightarrow> (int \<times> xfloat) list \<Rightarrow> (int \<times> xfloat) list res" where
  "parse_boosted lib [] d acc = Inr acc"
| "parse_boosted lib (t # ts) d acc =
     (case py_int lib t of
        Inl _ \<Rightarrow> Inl ValueError
      | Inr i \<Rightarrow> parse_boosted lib ts d (AList.update i d acc))"

definition py_iter :: "pyval \<Rightarrow> pyval list res" where
  "py_iter v =
     (case v of
        PList xs \<Rightarrow> Inr xs
      | PStr s \<Rightarrow> Inr (map (\<lambda>c. PStr [c]) s)
      | PDict d \<Rightarrow> Inr (map (PStr \<circ> fst) d)
      | _ \<Rightarrow> Inl TypeError)"

definition parse_temp_scale :: "py_lib \<Rightarrow> (string \<times> pyval) list \<Rightarrow> (int \<times> xfloat) list res" where
  "parse_temp_scale lib cp =
     (let sm = dict_get cp ''token_temperature_scale'' in
      if sm \<noteq> PNone
      then (case sm of PDict items \<Rightarrow> parse_scale_items lib items [] | _ \<Rightarrow> Inl ValueError)
      else
        (let ids = dict_get cp ''boosted_token_ids''; divisor = dict_get cp ''token_temp_divisor''
         in if ids \<noteq> PNone \<or> divisor \<noteq> PNone
            then (if ids = PNone \<or> divisor = PNone then Inl ValueError
                  else bind_res (parse_required_float lib divisor None) (\<lambda>d.
                       bind_res (py_iter ids) (\<lambda>ts. parse_boosted lib ts (Fin d) [])))
            else Inr []))"

text \<open>An empty map counts as no map; the outcome is cached on the request.\<close>

definition extract_token_temperature_scale :: "py_lib \<Rightarrow> (greq, (int \<times> xfloat) list option) run" where
  "extract_token_temperature_scale lib req =
     (case temp_scale_cache req of
        TNothing \<Rightarrow> (Inr None, req)
      | TMap m \<Rightarrow> (Inr (Some m), req)
      | TUnset \<Rightarrow>
          (let cp = get_req_custom_params (Some req)
           in if cp = [] then (Inr None, req\<lparr>temp_scale_cache := TNothing\<rparr>)
              else case parse_temp_scale lib cp of
                Inl e \<Rightarrow> (Inl e, req)
              | Inr [] \<Rightarrow> (Inr None, req\<lparr>temp_scale_cache := TNothing\<rparr>)
              | Inr m \<Rightarrow> (Inr (Some m), req\<lparr>temp_scale_cache := TMap m\<rparr>)))"

section \<open>Gating and thresholds\<close>

definition guidance_keys :: "string list" where
  "guidance_keys = [''value_scale'', ''scale'', ''value_mode'', ''mode'', ''target_value'', ''target_length'',
     ''value_constraint'', ''constraint'', ''cmp'', ''op'']"

definition req_wants_value_guidance :: "greq \<Rightarrow> bool" where
  "req_wants_value_guidance req =
     (case g_custom req of
        PDict d \<Rightarrow> list_ex (\<lambda>k. map_of d k \<noteq> None) guidance_keys
      | _ \<Rightarrow> False)"

definition extract_entropy_threshold :: "py_lib \<Rightarrow> greq \<Rightarrow> real option \<times> greq" where
  "extract_entropy_threshold lib req =
     (case entropy_cache req of
        Some x \<Rightarrow> (Some x, req)
      | None \<Rightarrow>
          (case g_custom req of
             PDict d \<Rightarrow>
               (let thr = (case map_of d ''value_entropy_threshold'' of
                             Some v \<Rightarrow> v | None \<Rightarrow> dict_get d ''entropy_threshold'')
                in if thr = PNone then (None, req)
                   else case py_float lib thr of
                     Inr (Fin x) \<Rightarrow> (Some x, req\<lparr>entropy_cache := Some x\<rparr>)
                   | _ \<Rightarrow> (None, req))
           | _ \<Rightarrow> (None, req)))"

section \<open>The incremental prefix\<close>

definition get_prefix_ids_incremental :: "greq \<Rightarrow> int list \<times> greq" where
  "get_prefix_ids_incremental req =
     (let origin = origin_input_ids req;
          out = (case output_ids req of Some o1 \<Rightarrow> o1 | None \<Rightarrow> []);
          full = origin @ out;
          rebuilt = (full, req\<lparr>prefix_cache := Some (int (length origin), int (length out), full)\<rparr>)
      in case prefix_cache req of
           None \<Rightarrow> rebuilt
         | Some (origin_len, out_len_cached, pre) \<Rightarrow>
             if origin_len < 0 \<or> out_len_cached < 0 then rebuilt
             else if int (length origin) \<noteq> origin_len
                   \<or> int (length pre) \<noteq> origin_len + out_len_cached then rebuilt
             else if int (length out) < out_len_cached then rebuilt
             else if int (length out) > out_len_cached
             then (let p = pre @ drop (nat out_len_cached) out
                   in (p, req\<lparr>prefix_cache := Some (origin_len, int (length out), p)\<rparr>))
             else (pre, req))"

section \<open>End-of-sequence tokens\<close>

definition int_set :: "py_lib \<Rightarrow> pyval list \<Rightarrow> int list res" where
  "int_set lib vs = gather_all (py_int lib) vs"

definition get_eos_token_ids :: "py_lib \<Rightarrow> greq \<Rightarrow> int set res" where
  "get_eos_token_ids lib req =
     bind_res
       (if py_truthy (eos_token_ids req)
        then (case eos_token_ids req of
                PList vs \<Rightarrow> int_set lib vs
              | v \<Rightarrow> (case py_int lib v of Inl _ \<Rightarrow> Inl ValueError | Inr i \<Rightarrow> Inr [i]))
        else Inr [])
       (\<lambda>eos. if tok_eos req = PNone then Inr (set eos)
              else case py_int lib (tok_eos req) of
                Inl _ \<Rightarrow> Inl ValueError
              | Inr i \<Rightarrow> Inr (insert i (set eos)))"

definition force_eos_value_zero :: "py_lib \<Rightarrow> int list \<Rightarrow> greq \<Rightarrow> (real list, unit) run" where
  "force_eos_value_zero lib token_ids req token_values =
     (if token_ids = [] \<or> token_values = [] \<or> length token_ids \<noteq> length token_values
      then (Inr (), token_values)
      else case get_eos_token_ids lib req of
        Inl e \<Rightarrow> (Inl e, token_values)
      | Inr eos \<Rightarrow> (Inr (), map2 (\<lambda>t v. if t \<in> eos then 0 else v) token_ids token_values))"

section \<open>The cached prefix is the prefix\<close>

text \<open>The calls of a request's life: before each, the generation has left \<open>output_ids\<close> as given.\<close>

fun prefix_calls :: "greq \<Rightarrow> int list list \<Rightarrow> int list list" where
  "prefix_calls req [] = []"
| "prefix_calls req (out # outs) =
     (case get_prefix_ids_incremental (req\<lparr>output_ids := Some out\<rparr>) of
        (p, req') \<Rightarrow> p # prefix_calls req' outs)"

text \<open>Between two calls the output either grew at its end or became shorter.\<close>

fun output_history :: "int list list \<Rightarrow> bool" where
  "output_history (a # b # outs) \<longleftrightarrow> (prefix a b \<or> length b < length a) \<and> output_history (b # outs)"
| "output_history _ \<longleftrightarrow> True"

lemma incremental_step:
  assumes "output_ids req = Some out"
    "prefix_cache req = None \<or>
     (\<exists>old. prefix_cache req = Some (int (length (origin_input_ids req)), int (length old), origin_input_ids req @ old)
        \<and> (prefix old out \<or> length out < length old))"
  shows "get_prefix_ids_incremental req = (origin_input_ids req @ out,
    req\<lparr>prefix_cache := Some (int (length (origin_input_ids req)), int (length out), origin_input_ids req @ out)\<rparr>)"
proof (cases "prefix_cache req")
  case None
  then show ?thesis using assms(1) by (simp add: get_prefix_ids_incremental_def Let_def)
next
  case (Some c)
  then obtain old where old: "prefix_cache req = Some (int (length (origin_input_ids req)), int (length old), origin_input_ids req @ old)"
    "prefix old out \<or> length out < length old" using assms(2) by auto
  show ?thesis
  proof (cases "length out < length old")
    case True
    then show ?thesis using assms(1) old(1) by (simp add: get_prefix_ids_incremental_def Let_def)
  next
    case False
    then obtain ext where ext: "out = old @ ext" using old(2) by (auto simp: prefix_def)
    show ?thesis
    proof (cases "ext = []")
      case True
      then have "req = req\<lparr>prefix_cache := Some (int (length (origin_input_ids req)), int (length out), origin_input_ids req @ out)\<rparr>"
        using old(1) ext by (cases req) simp
      then show ?thesis using assms(1) old(1) ext True by (simp add: get_prefix_ids_incremental_def Let_def)
    next
      case False
      then show ?thesis using assms(1) old(1) ext by (simp add: get_prefix_ids_incremental_def Let_def)
    qed
  qed
qed

lemma prefix_calls_after:
  assumes "prefix_cache req = Some (int (length (origin_input_ids req)), int (length old), origin_input_ids req @ old)"
    "output_history (old # outs)"
  shows "prefix_calls req outs = map (\<lambda>out. origin_input_ids req @ out) outs"
  using assms
proof (induction outs arbitrary: req old)
  case (Cons out outs)
  let ?r = "req\<lparr>output_ids := Some out\<rparr>"
  let ?c = "Some (int (length (origin_input_ids req)), int (length out), origin_input_ids req @ out)"
  have "get_prefix_ids_incremental ?r = (origin_input_ids ?r @ out,
      ?r\<lparr>prefix_cache := Some (int (length (origin_input_ids ?r)), int (length out), origin_input_ids ?r @ out)\<rparr>)"
    using Cons.prems by (intro incremental_step) auto
  moreover have "prefix_calls (?r\<lparr>prefix_cache := ?c\<rparr>) outs = map (\<lambda>out. origin_input_ids (?r\<lparr>prefix_cache := ?c\<rparr>) @ out) outs"
    using Cons.prems(2) by (intro Cons.IH [of _ out]) simp_all
  ultimately show ?case by simp
qed simp

text \<open>
  C26: The incremental prefix cache is transparent: over a request's life in which the output
  between calls only grows at its end or becomes shorter, every call returns the prompt
  followed by the current output, as rebuilding it from scratch would.
\<close>

theorem prefix_incremental_transparent:
  assumes "prefix_cache req = None" "output_history outs"
  shows "prefix_calls req outs = map (\<lambda>out. origin_input_ids req @ out) outs"
proof (cases outs)
  case (Cons out rest)
  let ?r = "req\<lparr>output_ids := Some out\<rparr>"
  have "get_prefix_ids_incremental ?r = (origin_input_ids ?r @ out,
      ?r\<lparr>prefix_cache := Some (int (length (origin_input_ids ?r)), int (length out), origin_input_ids ?r @ out)\<rparr>)"
    using assms by (intro incremental_step) simp_all
  then show ?thesis
    using prefix_calls_after [of "?r\<lparr>prefix_cache := Some (int (length (origin_input_ids ?r)), int (length out), origin_input_ids ?r @ out)\<rparr>" out rest]
      assms(2) Cons by simp
qed simp

definition demo_req :: greq where
  "demo_req = \<lparr>g_rid = ''a'', g_custom = PDict [(''target_length'', PInt 10)], origin_input_ids = [7, 8], output_ids = None,
     eos_token_ids = PList [PInt 2], tok_eos = PInt 3, multimodal_inputs = None, temp_scale_cache = TUnset,
     entropy_cache = None, prefix_cache = None, temp_tensors = None\<rparr>"

definition demo_lib :: py_lib where
  "demo_lib = \<lparr>float_of_str = (\<lambda>_. None), int_of_str = (\<lambda>_. None)\<rparr>"

theorem prefix_incremental_transparent_witness:
  "prefix_calls demo_req [[1], [1, 2, 3], [1], [1, 5]] = [[7, 8, 1], [7, 8, 1, 2, 3], [7, 8, 1], [7, 8, 1, 5]]"
proof -
  have "prefix_cache demo_req = None" "output_history [[1], [1, 2, 3], [1], [1, 5]]" by code_simp+
  from prefix_incremental_transparent [OF this] show ?thesis by (simp add: demo_req_def)
qed

text \<open>
  The cache does not notice an output that was replaced without getting shorter: after
  a call with output \<open>[1, 2]\<close>, a call with output \<open>[3, 4]\<close> still returns the old prefix.
\<close>

theorem prefix_cache_stale:
  "prefix_calls demo_req [[1, 2], [3, 4]] = [[7, 8, 1, 2], [7, 8, 1, 2]]"
  by code_simp

section \<open>Targets and end-of-sequence values\<close>

lemma parse_required_float_default: "parse_required_float lib PNone (Some d) = Inr d"
  by (simp add: parse_required_float_def)

lemma extract_length_gamma_range: "extract_length_gamma lib kw = Inr g \<Longrightarrow> 0 < g \<and> g < 1"
  by (auto simp: extract_length_gamma_def bind_res_Inr_iff split: if_splits)



text \<open>
  Forcing end-of-sequence values: when the ids and values have one length and the
  request's EOS ids can be read, the value of every EOS candidate becomes 0, all other
  values stay, and the EOS ids include the tokenizer's.
\<close>

theorem force_eos_zeroes_exactly_eos:
  assumes "length ids = length vals" "get_eos_token_ids lib req = Inr eos"
  shows "\<exists>vals'. force_eos_value_zero lib ids req vals = (Inr (), vals') \<and> length vals' = length vals
    \<and> (\<forall>j < length vals. vals' ! j = (if ids ! j \<in> eos then 0 else vals ! j))
    \<and> (\<forall>i. py_int lib (tok_eos req) = Inr i \<longrightarrow> i \<in> eos)"
proof -
  have "py_int lib (tok_eos req) = Inr i \<Longrightarrow> i \<in> eos" for i
    using assms(2) by (auto simp: get_eos_token_ids_def bind_res_Inr_iff py_int_def split: if_splits)
  then show ?thesis using assms by (auto simp: force_eos_value_zero_def)
qed

theorem force_eos_zeroes_exactly_eos_witness:
  "\<exists>vals'. force_eos_value_zero demo_lib [5, 3, 2] demo_req [1 / 2, 1 / 3, 1 / 4] = (Inr (), vals') \<and> vals' ! 1 = 0 \<and> vals' ! 0 = 1 / 2"
proof -
  have e: "get_eos_token_ids demo_lib demo_req = Inr (insert 3 (set [2]))"
    by (simp add: get_eos_token_ids_def demo_req_def demo_lib_def py_truthy_def int_set_def py_int_def)
  from force_eos_zeroes_exactly_eos [OF _ e, of "[5, 3, 2]" "[1 / 2, 1 / 3, 1 / 4]"] show ?thesis by auto
qed

end
