(* ===== verification/GuidedSampler.thy ===== *)
theory GuidedSampler
  imports ValueGuidance
begin

text \<open>
  \<open>LvmGuidedSampler\<close> of \<open>srt/lvm/lvm_guided_sampling.py\<close>: candidate filtering and the
  pending result, the in-process provider's prefix bookkeeping, the HTTP reply, the CPU and
  the GPU application of guidance, and \<open>apply\<close>, which ties them together; and the part of
  \<open>srt/layers/sampler.py\<close> that scales token temperatures and decides how to sample.

  A probability tensor is a list of rows. \<open>torch.topk\<close> leaves the order of equal entries
  open, so it is a parameter; so are the guidance function a user may load, the HTTP
  service and the model's forward pass. Guidance functions are compared by identity in the
  code, hence the datatype \<open>guide_fn\<close>.
\<close>

section \<open>Configuration\<close>

record torch_ops =
  topk :: "real list \<Rightarrow> nat \<Rightarrow> (real \<times> nat) list"
  sort_desc :: "real list \<Rightarrow> (real \<times> nat) list"

datatype guide_fn = FDefault | FHard | FExpectation | FCombined
  | FCustom "real list \<Rightarrow> real list \<Rightarrow> int list \<Rightarrow> kwargs \<Rightarrow> real list res"

definition run_guide :: "py_lib \<Rightarrow> guide_fn \<Rightarrow> real list \<Rightarrow> real list \<Rightarrow> int list \<Rightarrow> kwargs \<Rightarrow> real list res" where
  "run_guide lib f =
     (case f of
        FDefault \<Rightarrow> default_guidance_fn
      | FHard \<Rightarrow> lvm_hard_value_constraint_guidance lib
      | FExpectation \<Rightarrow> lvm_expectation_guidance lib
      | FCombined \<Rightarrow> lvm_combined_guidance lib
      | FCustom g \<Rightarrow> g)"

fun expectation_like :: "guide_fn \<Rightarrow> bool" where
  "expectation_like FExpectation = True"
| "expectation_like FCombined = True"
| "expectation_like _ = False"

record server_args =
  enable_lvm_guided_sampling :: bool
  enable_token_temp_scale :: bool
  lvm_guided_url :: "string option"
  lvm_guided_inproc :: bool
  lvm_guided_timeout :: real
  lvm_guided_bypass_cache :: bool
  lvm_guided_fn :: guide_fn

record lvm_guided_config =
  c_url :: "string option"
  c_timeout :: real
  c_bypass_cache :: bool
  c_fn :: guide_fn

definition from_server_args :: "server_args \<Rightarrow> lvm_guided_config option res" where
  "from_server_args sa =
     (if \<not> enable_lvm_guided_sampling sa \<and> \<not> enable_token_temp_scale sa then Inr None
      else if enable_lvm_guided_sampling sa \<and> lvm_guided_url sa \<in> {None, Some ''''} \<and> \<not> lvm_guided_inproc sa
      then Inl ValueError
      else Inr (Some \<lparr>c_url = lvm_guided_url sa, c_timeout = lvm_guided_timeout sa,
                      c_bypass_cache = lvm_guided_bypass_cache sa, c_fn = lvm_guided_fn sa\<rparr>))"

definition TOP_K_ALL :: int where
  "TOP_K_ALL = 2 ^ 30"

section \<open>Filtering\<close>

fun cumsum_from :: "real \<Rightarrow> real list \<Rightarrow> real list" where
  "cumsum_from acc [] = []"
| "cumsum_from acc (x # xs) = (acc + x) # cumsum_from (acc + x) xs"

definition keep_top_p :: "real \<Rightarrow> real list \<Rightarrow> real list" where
  "keep_top_p top_p vals = map2 (\<lambda>c v. if c - v \<le> top_p then v else 0) (cumsum_from 0 vals) vals"

definition keep_min_p :: "real \<Rightarrow> real list \<Rightarrow> real list" where
  "keep_min_p min_p vals = map (\<lambda>v. if v \<ge> Max (set vals) * min_p then v else 0) vals"

definition scatter :: "nat \<Rightarrow> (nat \<times> real) list \<Rightarrow> real list" where
  "scatter n ws = foldl (\<lambda>b (i, x). b[i := x]) (replicate n 0) ws"

text \<open>\<open>torch.argmax\<close>: the first position of the largest entry.\<close>

definition argmax :: "real list \<Rightarrow> nat" where
  "argmax xs = length (takeWhile (\<lambda>x. x < Max (set xs)) xs)"

definition filter_probs :: "torch_ops \<Rightarrow> real list \<Rightarrow> int \<Rightarrow> real \<Rightarrow> real \<Rightarrow> real list" where
  "filter_probs tk probs top_k top_p min_p =
     (let n = length probs;
          f1 = (if top_k \<noteq> TOP_K_ALL
                then (let idx = map snd (topk tk probs (nat (min top_k (int n))))
                      in map (\<lambda>i. if i \<in> set idx then probs ! i else 0) [0 ..< n])
                else probs);
          f2 = (if top_p < 1
                then (let s = sort_desc tk f1 in scatter n (zip (map snd s) (keep_top_p top_p (map fst s)))) else f1)
      in if min_p > 0 then keep_min_p min_p f2 else f2)"

definition entropy :: "real list \<Rightarrow> real" where
  "entropy p = - sum_list (map (\<lambda>x. x * ln (x + 1 / 10 ^ 20)) p)"

text \<open>
  One row of the batched top-k path. The flags say whether any row of the batch uses top-p
  or min-p, since the code skips the filter only when no row does.
\<close>

definition topk_row_vals :: "torch_ops \<Rightarrow> nat \<Rightarrow> bool \<Rightarrow> bool \<Rightarrow> real list \<Rightarrow> nat \<Rightarrow> real \<Rightarrow> real \<Rightarrow> real list" where
  "topk_row_vals tk k_max any_p any_m row top_k top_p min_p =
     (let tv = map fst (topk tk row k_max);
          v0 = map (\<lambda>j. if j < top_k then tv ! j else 0) [0 ..< length tv];
          v1 = (if any_p then keep_top_p top_p v0 else v0);
          v2 = (if any_m then keep_min_p min_p v1 else v1)
      in if length (filter (\<lambda>v. v > 0) v2) = 0 then v2[0 := tv ! 0] else v2)"

datatype row_out = Deterministic nat | Skipped | Send "nat list" "real list" "nat list" "real list"

definition entropy_skips :: "real option \<Rightarrow> real list \<Rightarrow> bool" where
  "entropy_skips thr vals =
     (case thr of None \<Rightarrow> False
      | Some t \<Rightarrow> entropy (map (\<lambda>v. v / max (sum_list vals) (1 / 10 ^ 20)) vals) \<le> t)"

text \<open>
  The row's candidates are the ids of its positive entries; \<open>Send\<close> carries them with their
  probabilities, and the unfiltered ids and values of the padded device tensors.
\<close>

definition topk_row :: "torch_ops \<Rightarrow> nat \<Rightarrow> bool \<Rightarrow> bool \<Rightarrow> real list \<Rightarrow> nat \<Rightarrow> real \<Rightarrow> real \<Rightarrow> real option \<Rightarrow> row_out" where
  "topk_row tk k_max any_p any_m row top_k top_p min_p thr =
     (let vals = topk_row_vals tk k_max any_p any_m row top_k top_p min_p;
          ids = map snd (topk tk row k_max);
          cand = filter (\<lambda>(i, v). v > 0) (zip ids vals)
      in if length cand = 1 then Deterministic (fst (hd cand))
         else if entropy_skips thr vals then Skipped
         else if cand = [] then Skipped
         else Send (map fst cand) (map snd cand) ids vals)"

text \<open>The slow path (no top-k): candidates of one row over the whole vocabulary.\<close>

definition all_cands :: "torch_ops \<Rightarrow> real list \<Rightarrow> real \<Rightarrow> real \<Rightarrow> (nat \<times> real) list" where
  "all_cands tk row top_p min_p =
     (let filtered = filter_probs tk row TOP_K_ALL top_p min_p;
          idx = filter (\<lambda>i. filtered ! i \<noteq> 0) [0 ..< length row];
          best = argmax row
      in if idx = [] then [(best, row ! best)] else map (\<lambda>i. (i, filtered ! i)) idx)"

definition all_entropy_skips :: "real option \<Rightarrow> real list \<Rightarrow> bool" where
  "all_entropy_skips thr ps =
     (case thr of None \<Rightarrow> False
      | Some t \<Rightarrow> (let s = sum_list ps in if s > 0 then entropy (map (\<lambda>x. x / s) ps) else 0) \<le> t)"

section \<open>The pending result\<close>

record pending =
  pd_guided :: "real list list"
  pd_send :: "nat list"
  pd_prefix :: "int list list"
  pd_cand_ids :: "nat list list"
  pd_cand_probs :: "real list list"
  pd_gpu :: "(real list list \<times> nat list list) option"

record row_params =
  rp_top_k :: int
  rp_top_p :: real
  rp_min_p :: real

fun any_target :: "py_lib \<Rightarrow> greq list \<Rightarrow> bool res" where
  "any_target lib [] = Inr False"
| "any_target lib (r # rs) =
     bind_res (extract_target_value lib \<lparr>kw_args = [], kw_req = Some r\<rparr>)
       (\<lambda>t. if t \<noteq> None then Inr True else any_target lib rs)"

definition clamp_k :: "nat \<Rightarrow> int \<Rightarrow> nat" where
  "clamp_k vocab k = nat (min (max k 1) (int vocab))"

text \<open>The entropy thresholds are read row by row and cached on the requests.\<close>

fun read_thresholds :: "py_lib \<Rightarrow> nat list \<Rightarrow> greq list \<Rightarrow> real option list \<times> greq list" where
  "read_thresholds lib [] reqs = ([], reqs)"
| "read_thresholds lib (i # js) reqs =
     (case extract_entropy_threshold lib (reqs ! i) of
        (t, r) \<Rightarrow> (case read_thresholds lib js (reqs[i := r]) of (ts, reqs') \<Rightarrow> (t # ts, reqs')))"

fun collect_prefixes :: "nat list \<Rightarrow> greq list \<Rightarrow> int list list \<times> greq list" where
  "collect_prefixes [] reqs = ([], reqs)"
| "collect_prefixes (i # js) reqs =
     (case get_prefix_ids_incremental (reqs ! i) of
        (p, r) \<Rightarrow> (case collect_prefixes js (reqs[i := r]) of (ps, reqs') \<Rightarrow> (p # ps, reqs')))"

text \<open>What a path contributes: deterministic rows, and per sent row its index, prefix, ids and probabilities.\<close>

record part =
  pt_det :: "(nat \<times> nat) list"
  pt_send :: "nat list"
  pt_prefix :: "int list list"
  pt_ids :: "nat list list"
  pt_probs :: "real list list"
  pt_full :: "(nat list \<times> real list) list"

definition empty_part :: part where
  "empty_part = \<lparr>pt_det = [], pt_send = [], pt_prefix = [], pt_ids = [], pt_probs = [], pt_full = []\<rparr>"

definition vocab_size :: "real list list \<Rightarrow> nat" where
  "vocab_size probs = length (probs ! 0)"

definition k_max_of :: "nat \<Rightarrow> row_params list \<Rightarrow> nat list \<Rightarrow> nat" where
  "k_max_of vocab params rows = Max (set (map (\<lambda>i. clamp_k vocab (rp_top_k (params ! i))) rows))"

definition topk_part :: "torch_ops \<Rightarrow> py_lib \<Rightarrow> real list list \<Rightarrow> row_params list \<Rightarrow> nat list \<Rightarrow> greq list \<Rightarrow> part \<times> greq list" where
  "topk_part tk lib probs params rows reqs =
     (let k_of = (\<lambda>i. clamp_k (vocab_size probs) (rp_top_k (params ! i)));
          k_max = k_max_of (vocab_size probs) params rows;
          any_p = list_ex (\<lambda>i. rp_top_p (params ! i) < 1) rows;
          any_m = list_ex (\<lambda>i. rp_min_p (params ! i) > 0) rows
      in case read_thresholds lib rows reqs of
           (thrs, reqs1) \<Rightarrow>
             (let outs = map2 (\<lambda>i thr. (i, topk_row tk k_max any_p any_m (probs ! i) (k_of i)
                                (rp_top_p (params ! i)) (rp_min_p (params ! i)) thr)) rows thrs;
                  det = concat (map (\<lambda>(i, r). case r of Deterministic t \<Rightarrow> [(i, t)] | _ \<Rightarrow> []) outs);
                  sent = concat (map (\<lambda>(i, r). case r of Send ids ps fi fv \<Rightarrow> [(i, ids, ps, fi, fv)] | _ \<Rightarrow> []) outs)
              in case collect_prefixes (map fst sent) reqs1 of
                   (pfx, reqs2) \<Rightarrow>
                     (\<lparr>pt_det = det, pt_send = map fst sent, pt_prefix = pfx,
                       pt_ids = map (\<lambda>(_, ids, _). ids) sent, pt_probs = map (\<lambda>(_, _, ps, _). ps) sent,
                       pt_full = map (\<lambda>(_, _, _, fi, fv). (fi, fv)) sent\<rparr>, reqs2)))"

fun all_part :: "torch_ops \<Rightarrow> py_lib \<Rightarrow> real list list \<Rightarrow> row_params list \<Rightarrow> nat list \<Rightarrow> greq list \<Rightarrow> part \<times> greq list" where
  "all_part tk lib probs params [] reqs = (empty_part, reqs)"
| "all_part tk lib probs params (i # rows) reqs =
     (let cand = all_cands tk (probs ! i) (rp_top_p (params ! i)) (rp_min_p (params ! i))
      in if length cand = 1
         then (case all_part tk lib probs params rows reqs of
                 (pt, reqs') \<Rightarrow> (pt\<lparr>pt_det := (i, fst (hd cand)) # pt_det pt\<rparr>, reqs'))
         else (case extract_entropy_threshold lib (reqs ! i) of
                 (thr, r1) \<Rightarrow>
                   if all_entropy_skips thr (map snd cand)
                   then all_part tk lib probs params rows (reqs[i := r1])
                   else (case get_prefix_ids_incremental r1 of
                           (p, r2) \<Rightarrow>
                             (case all_part tk lib probs params rows (reqs[i := r2]) of
                                (pt, reqs') \<Rightarrow>
                                  (pt\<lparr>pt_send := i # pt_send pt, pt_prefix := p # pt_prefix pt,
                                      pt_ids := map fst cand # pt_ids pt,
                                      pt_probs := map snd cand # pt_probs pt\<rparr>, reqs')))))"

definition one_hot_row :: "nat \<Rightarrow> nat \<Rightarrow> real list" where
  "one_hot_row n t = (replicate n 0)[t := 1]"

definition fill_deterministic :: "(nat \<times> nat) list \<Rightarrow> real list list \<Rightarrow> real list list" where
  "fill_deterministic det probs = foldl (\<lambda>g (i, t). g[i := one_hot_row (length (g ! i)) t]) probs det"

definition build_pending ::
  "torch_ops \<Rightarrow> py_lib \<Rightarrow> guide_fn \<Rightarrow> real list list \<Rightarrow> row_params list \<Rightarrow> (greq list, pending option) run"
where
  "build_pending tk lib fn probs params reqs =
     (let guided_rows = filter (\<lambda>i. req_wants_value_guidance (reqs ! i)) [0 ..< length reqs]
      in if guided_rows = [] then (Inr None, reqs)
         else case any_target lib reqs of
           Inl e \<Rightarrow> (Inl e, reqs)
         | Inr has_hard_target \<Rightarrow>
             (let rows_all = filter (\<lambda>i. rp_top_k (params ! i) = TOP_K_ALL) guided_rows;
                  rows_topk = filter (\<lambda>i. rp_top_k (params ! i) \<noteq> TOP_K_ALL) guided_rows;
                  use_gpu = (expectation_like fn \<and> rows_all = [] \<and> \<not> has_hard_target)
              in if rows_topk \<noteq> [] \<and> k_max_of (vocab_size probs) params rows_topk = 0 then (Inr None, reqs)
                 else case (if rows_topk = [] then (empty_part, reqs) else topk_part tk lib probs params rows_topk reqs) of
                   (a, reqs1) \<Rightarrow>
                     (case all_part tk lib probs params rows_all reqs1 of
                        (b, reqs2) \<Rightarrow>
                          (let det = pt_det a @ pt_det b; send = pt_send a @ pt_send b
                           in if send = [] \<and> det = [] then (Inr None, reqs2)
                              else (Inr (Some
                                \<lparr>pd_guided = fill_deterministic det probs, pd_send = send,
                                 pd_prefix = pt_prefix a @ pt_prefix b, pd_cand_ids = pt_ids a @ pt_ids b,
                                 pd_cand_probs = (if use_gpu then [] else pt_probs a) @ pt_probs b,
                                 pd_gpu = (if use_gpu \<and> pt_full a \<noteq> []
                                           then Some (map snd (pt_full a), map fst (pt_full a)) else None)\<rparr>), reqs2)))))"

section \<open>The in-process provider\<close>

record inproc =
  ip_lvm :: lvm
  ip_is_vlm :: bool
  ip_deltas :: "(rid \<times> int) list"

definition clean_stale_requests :: "rid set \<Rightarrow> (inproc, unit) run" where
  "clean_stale_requests active ip =
     (case cleanup_stale_rids active (ip_lvm ip) of
        (Inl e, s) \<Rightarrow> (Inl e, ip\<lparr>ip_lvm := s\<rparr>)
      | (Inr _, s) \<Rightarrow>
          (Inr (), ip\<lparr>ip_lvm := s, ip_deltas := (if ip_is_vlm ip then filter (\<lambda>(r, _). r \<in> active) (ip_deltas ip)
                                                 else ip_deltas ip)\<rparr>))"

text \<open>
  The loop of \<open>tree_value_extend\<close>: a request whose cache is longer than its prefix is
  retracted, one whose cache is shorter contributes the missing suffix.
\<close>

fun extend_plan :: "(rid \<times> int list \<times> greq) list \<Rightarrow> (inproc, (rid \<times> int list \<times> mm_input option) list) run" where
  "extend_plan [] ip = (Inr [], ip)"
| "extend_plan ((r, p_ids, req) # xs) ip =
     (let cached_len = kv_len (ip_lvm ip) r; target_len = length p_ids
      in if target_len < cached_len
         then (case retract r target_len (ip_lvm ip) of
                 (Inl e, s) \<Rightarrow> (Inl e, ip\<lparr>ip_lvm := s\<rparr>)
               | (Inr _, s) \<Rightarrow> extend_plan xs (ip\<lparr>ip_lvm := s\<rparr>))
         else if target_len > cached_len
         then (let mm = (if ip_is_vlm ip \<and> cached_len = 0 then multimodal_inputs req else None);
                   ip1 = (case mm of
                            None \<Rightarrow> ip
                          | Some m \<Rightarrow> (case mrope_position_delta m of
                                       None \<Rightarrow> ip
                                     | Some d \<Rightarrow> ip\<lparr>ip_deltas := AList.update r d (ip_deltas ip)\<rparr>))
               in case extend_plan xs ip1 of
                    (Inl e, ip2) \<Rightarrow> (Inl e, ip2)
                  | (Inr plan, ip2) \<Rightarrow> (Inr ((r, drop cached_len p_ids, mm) # plan), ip2))
         else extend_plan xs ip)"

definition tree_value_extend ::
  "'v env \<Rightarrow> rid list \<Rightarrow> int list list \<Rightarrow> greq list \<Rightarrow> (inproc, unit) run"
where
  "tree_value_extend env rids prefix_ids reqs ip =
     (case extend_plan (zip rids (zip prefix_ids reqs)) ip of
        (Inl e, ip1) \<Rightarrow> (Inl e, ip1)
      | (Inr plan, ip1) \<Rightarrow>
          if plan = [] then (Inr (), ip1)
          else (case extend_prefix_batch env (map fst plan) (map (fst \<circ> snd) plan)
                       (if ip_is_vlm ip1 then Some (map (snd \<circ> snd) plan) else None)
                       (if ip_is_vlm ip1 then Some (ip_deltas ip1) else None) (ip_lvm ip1) of
                  (r, s) \<Rightarrow> (r, ip1\<lparr>ip_lvm := s\<rparr>)))"

text \<open>
  The launches differ from one another only in where the embeddings are left, which the
  model does not see, and the collects only wait for them.
\<close>

definition tree_value_launch_gpu ::
  "'v env \<Rightarrow> rid list \<Rightarrow> int list list \<Rightarrow> (int list list \<times> bool list list) option \<Rightarrow> (inproc, 'v list) run"
where
  "tree_value_launch_gpu env rids candidate_ids gpu ip =
     (case eval_candidates_batch_gpu env rids candidate_ids gpu
             (if ip_is_vlm ip then Some (ip_deltas ip) else None) (ip_lvm ip) of
        (r, s) \<Rightarrow> (r, ip\<lparr>ip_lvm := s\<rparr>))"

definition tree_value_collect :: "real list list \<Rightarrow> pyval list" where
  "tree_value_collect embs = map (\<lambda>row. PList (map (\<lambda>x. PFloat (Fin x)) row)) embs"

definition tree_value ::
  "real list env \<Rightarrow> rid list \<Rightarrow> int list list \<Rightarrow> int list list \<Rightarrow> greq list \<Rightarrow> (inproc, pyval list) run"
where
  "tree_value env rids prefix_ids candidate_ids reqs =
     andthen (tree_value_extend env rids prefix_ids reqs)
       (\<lambda>_. andthen (tree_value_launch_gpu env rids candidate_ids None)
         (\<lambda>embs. ret (tree_value_collect embs)))"

section \<open>The HTTP provider\<close>

text \<open>
  The service receives prefixes, candidates and the cache flag; \<open>None\<close> stands for any
  failure of the call or of decoding its body.
\<close>

type_synonym http = "int list list \<Rightarrow> int list list \<Rightarrow> bool \<Rightarrow> pyval option"

fun reply_items :: "pyval list \<Rightarrow> pyval list res" where
  "reply_items [] = Inr []"
| "reply_items (it # its) =
     (case it of
        PDict d \<Rightarrow> bind_res (reply_items its)
          (\<lambda>vs. Inr ((case map_of d ''embedding'' of Some v \<Rightarrow> v | None \<Rightarrow> PList []) # vs))
      | _ \<Rightarrow> Inl RuntimeError)"

definition parse_reply :: "pyval \<Rightarrow> pyval list res" where
  "parse_reply data =
     (case data of
        PDict d \<Rightarrow>
          (case map_of d ''embedding'' of
             Some v \<Rightarrow> Inr [v]
           | None \<Rightarrow> (case map_of d ''data'' of Some (PList xs) \<Rightarrow> reply_items xs | _ \<Rightarrow> Inl RuntimeError))
      | PList xs \<Rightarrow> reply_items xs
      | _ \<Rightarrow> Inl RuntimeError)"

definition wrap_error :: "py_error \<Rightarrow> ('s, 'a) run \<Rightarrow> ('s, 'a) run" where
  "wrap_error e m s = (case m s of (Inl _, s') \<Rightarrow> (Inl e, s') | (Inr x, s') \<Rightarrow> (Inr x, s'))"

definition post_tree_value ::
  "real list env \<Rightarrow> http \<Rightarrow> bool \<Rightarrow> rid list \<Rightarrow> int list list \<Rightarrow> int list list \<Rightarrow> greq list \<Rightarrow>
   (inproc option, pyval list) run"
where
  "post_tree_value env http bypass_cache rids prefix_ids candidate_ids reqs prov =
     (case prov of
        Some ip \<Rightarrow>
          (case wrap_error RuntimeError (tree_value env rids prefix_ids candidate_ids reqs) ip of
             (r, ip') \<Rightarrow> (r, Some ip'))
      | None \<Rightarrow>
          ((case http prefix_ids candidate_ids bypass_cache of
              None \<Rightarrow> Inl RuntimeError
            | Some data \<Rightarrow> parse_reply data), None))"

section \<open>Applying guidance on the CPU\<close>

definition sigmoid :: "real \<Rightarrow> real" where
  "sigmoid x = 1 / (1 + exp (- x))"

text \<open>
  \<open>torch.tensor\<close> of a reply's embedding: a flat list of finite numbers; everything else
  raises (nested lists, which torch would turn into a matrix, are counted here too).
\<close>

definition number_of :: "pyval \<Rightarrow> real res" where
  "number_of v =
     (case v of
        PInt i \<Rightarrow> Inr (real_of_int i)
      | PFloat (Fin x) \<Rightarrow> Inr x
      | PBool b \<Rightarrow> Inr (if b then 1 else 0)
      | _ \<Rightarrow> Inl TypeError)"

definition to_tensor :: "pyval \<Rightarrow> real list res" where
  "to_tensor v = (case v of PList xs \<Rightarrow> gather_all number_of xs | _ \<Rightarrow> Inl TypeError)"

definition py_item :: "'a list \<Rightarrow> nat \<Rightarrow> 'a res" where
  "py_item xs k = (if k < length xs then Inr (xs ! k) else Inl IndexError)"

definition normalise_probs :: "real list \<Rightarrow> real list \<Rightarrow> real list res" where
  "normalise_probs token_probs new_probs =
     (if length new_probs \<noteq> length token_probs then Inl RuntimeError
      else
        (let c = clamp0 new_probs; prob_sum = sum_list c
         in if prob_sum \<le> 0 then Inl RuntimeError else Inr (map (\<lambda>x. x / prob_sum) c)))"

definition guide_row :: "py_lib \<Rightarrow> guide_fn \<Rightarrow> pending \<Rightarrow> greq \<Rightarrow> pyval list \<Rightarrow> nat \<Rightarrow> (nat \<times> real) list res" where
  "guide_row lib fn pd req lvm_values k =
     bind_res (bind_res (py_item lvm_values k) to_tensor) (\<lambda>raw.
     bind_res (py_item (pd_cand_probs pd) k) (\<lambda>token_probs.
     bind_res (py_item (pd_cand_ids pd) k) (\<lambda>token_ids.
       (case force_eos_value_zero lib (map int token_ids) req (map sigmoid raw) of
          (Inl e, _) \<Rightarrow> Inl e
        | (Inr _, token_values) \<Rightarrow>
            (case run_guide lib fn token_probs token_values (map int token_ids)
                    \<lparr>kw_args = [], kw_req = Some req\<rparr> of
               Inl _ \<Rightarrow> Inl RuntimeError
             | Inr new_probs \<Rightarrow>
                 bind_res (normalise_probs token_probs new_probs) (\<lambda>ps. Inr (zip token_ids ps)))))))"

fun apply_guidance_from :: "py_lib \<Rightarrow> guide_fn \<Rightarrow> pending \<Rightarrow> greq list \<Rightarrow> pyval list \<Rightarrow> nat \<Rightarrow> nat list \<Rightarrow> real list list \<Rightarrow> real list list res" where
  "apply_guidance_from lib fn pd reqs lvm_values k [] guided = Inr guided"
| "apply_guidance_from lib fn pd reqs lvm_values k (i # rows) guided =
     bind_res (guide_row lib fn pd (reqs ! i) lvm_values k) (\<lambda>ws.
       apply_guidance_from lib fn pd reqs lvm_values (Suc k) rows
         (guided[i := scatter (length (guided ! i)) ws]))"

definition apply_guidance :: "py_lib \<Rightarrow> guide_fn \<Rightarrow> pending \<Rightarrow> greq list \<Rightarrow> pyval list \<Rightarrow> real list list res" where
  "apply_guidance lib fn pd reqs lvm_values =
     apply_guidance_from lib fn pd reqs lvm_values 0 (pd_send pd) (pd_guided pd)"

section \<open>Applying guidance on the device\<close>

text \<open>\<open>xs.masked_fill(~mask, x)\<close>.\<close>

definition fill_invalid :: "bool list \<Rightarrow> real \<Rightarrow> real list \<Rightarrow> real list" where
  "fill_invalid vm x xs = map2 (\<lambda>m v. if m then v else x) vm xs"

definition fit_row :: "nat \<Rightarrow> real list \<Rightarrow> real list" where
  "fit_row k xs = take k xs @ replicate (k - length xs) 0"

definition fit_embeddings :: "nat \<Rightarrow> nat \<Rightarrow> real list list \<Rightarrow> real list list res" where
  "fit_embeddings b k embs =
     (if length embs > b then Inl IndexError
      else Inr (map (fit_row k) embs @ replicate (b - length embs) (replicate k 0)))"

definition gpu_values :: "bool list \<Rightarrow> nat list \<Rightarrow> int set \<Rightarrow> real list \<Rightarrow> real list" where
  "gpu_values vm ids eos emb =
     map2 (\<lambda>i v. if int i \<in> eos then 0 else v) ids (fill_invalid vm 0 (map sigmoid emb))"

definition normalised_probs :: "real list \<Rightarrow> real list" where
  "normalised_probs p = (let p_sum = max (sum_list p) (1 / 10 ^ 20) in map (\<lambda>x. x / p_sum) p)"

definition softmax_weights :: "bool list \<Rightarrow> real list \<Rightarrow> real list \<Rightarrow> real list" where
  "softmax_weights vm p_norm logits0 =
     (let logits1 = fill_invalid vm (- (10 ^ 9)) logits0;
          logits = map (\<lambda>l. l - Max (set logits1)) logits1;
          w = fill_invalid vm 0 (map2 (\<lambda>p l. p * exp l) p_norm logits);
          s = max (sum_list w) (1 / 10 ^ 20)
      in map (\<lambda>x. x / s) w)"

text \<open>
  The target of a tilting mode. \<open>torch.pow\<close> of zero with a negative exponent is infinite,
  and the target then minus infinity: \<open>None\<close>.
\<close>

definition gpu_target :: "string \<Rightarrow> real \<Rightarrow> real \<Rightarrow> real \<Rightarrow> real \<Rightarrow> real option" where
  "gpu_target mode scale cur_exp min_v max_v =
     (let v_range = max (max_v - min_v) (1 / 10 ^ 8)
      in if mode = ''exp'' then
           (let cur_norm = min (max ((cur_exp - min_v) / v_range) 0) 1
            in if 1 - cur_norm = 0 \<and> scale < 0 then None
               else Some (min_v + (1 - py_pow (1 - cur_norm) scale) * v_range))
         else if mode = ''linear'' then
           Some (if scale \<ge> 1 then cur_exp + (scale - 1) * (max_v - cur_exp)
                 else cur_exp - (1 - scale) * (cur_exp - min_v))
         else if mode = ''length_mul'' then
           (let log_gamma = ln (997 / 1000);
                mu_v = min (max cur_exp (1 / 10 ^ 15)) (1 - 1 / 10 ^ 15);
                l_cur = ln (1 + (- mu_v)) / log_gamma;
                l_tgt = scale * l_cur;
                target = 1 - exp (l_tgt * log_gamma)
            in Some (min (max target (min_v + 1 / 10 ^ 12)) (max_v - 1 / 10 ^ 12)))
         else Some (cur_exp * scale))"

definition gpu_clamp_target :: "real option \<Rightarrow> real \<Rightarrow> real \<Rightarrow> real" where
  "gpu_clamp_target t min_v max_v =
     (let eps_v = max (max (max_v - min_v) (1 / 10 ^ 8) * (1 / 10 ^ 6)) (1 / 10 ^ 12)
      in case t of None \<Rightarrow> min_v + eps_v | Some x \<Rightarrow> max (min x (max_v - eps_v)) (min_v + eps_v))"

definition gpu_tilted :: "bool list \<Rightarrow> real list \<Rightarrow> real list \<Rightarrow> real \<Rightarrow> real list" where
  "gpu_tilted vm log_p dv lam =
     (let logits = map2 (\<lambda>l d. l + d * lam) log_p dv;
          w = fill_invalid vm 0 (map (\<lambda>l. exp (l - Max (set logits))) logits);
          s = max (sum_list w) (1 / 10 ^ 20)
      in map (\<lambda>x. x / s) w)"

fun gpu_newton :: "bool list \<Rightarrow> real list \<Rightarrow> real list \<Rightarrow> real list \<Rightarrow> real \<Rightarrow> nat \<Rightarrow> real \<Rightarrow> real" where
  "gpu_newton vm log_p dv vals target 0 lam = lam"
| "gpu_newton vm log_p dv vals target (Suc n) lam =
     (let w = gpu_tilted vm log_p dv lam;
          mean = dot w vals;
          mean2 = dot w (map (\<lambda>v. v * v) vals);
          var = max (mean2 - mean * mean) 0;
          err = mean - target;
          step = err / max var (1 / 10 ^ 16)
      in gpu_newton vm log_p dv vals target n (min (max (lam - step) (- 100)) 100))"

text \<open>One row in a tilting mode: twenty Newton rounds, or the row as it is when no tilt is needed.\<close>

definition gpu_tilt_row :: "string \<Rightarrow> real \<Rightarrow> bool list \<Rightarrow> real list \<Rightarrow> real list \<Rightarrow> real list" where
  "gpu_tilt_row mode scale vm p_norm vals =
     (let cur_exp = dot p_norm vals;
          min_v = Min (set (fill_invalid vm (10 ^ 9) vals));
          max_v = Max (set (fill_invalid vm (- (10 ^ 9)) vals));
          v_range = max (max_v - min_v) (1 / 10 ^ 8);
          target = gpu_clamp_target (gpu_target mode scale cur_exp min_v max_v) min_v max_v;
          log_p = fill_invalid vm (- (10 ^ 9)) (map (\<lambda>p. ln (max p (1 / 10 ^ 20))) p_norm);
          dv = fill_invalid vm 0 (map (\<lambda>v. v - min_v) vals);
          lam = gpu_newton vm log_p dv vals target 20 0
      in if v_range > 1 / 10 ^ 8 \<and> \<bar>target - cur_exp\<bar> > 1 / 10 ^ 8
         then gpu_tilted vm log_p dv lam else p_norm)"

definition gpu_row :: "string \<Rightarrow> real \<Rightarrow> bool list \<Rightarrow> real list \<Rightarrow> real list \<Rightarrow> real list \<Rightarrow> real list res" where
  "gpu_row mode scale vm probs vals emb =
     (let p_norm = normalised_probs probs
      in if mode = ''centered_exp'' then Inr (softmax_weights vm p_norm (map (\<lambda>v. v * scale) vals))
         else if mode = ''value_bias'' then Inr (softmax_weights vm p_norm (map (\<lambda>e. e * scale) emb))
         else if mode \<in> {''exp'', ''linear'', ''length_mul'', ''mul''}
         then Inr (gpu_tilt_row mode scale vm p_norm vals)
         else Inl ValueError)"

definition batch_mode :: "string list \<Rightarrow> string" where
  "batch_mode modes = (if card (set modes) = 1 then modes ! 0 else ''mul'')"

definition apply_guidance_gpu :: "py_lib \<Rightarrow> pending \<Rightarrow> greq list \<Rightarrow> real list list \<times> nat list list \<Rightarrow> real list list \<Rightarrow> real list list res" where
  "apply_guidance_gpu lib pd reqs gpu embs =
     (let padded_probs = fst gpu; padded_ids = snd gpu;
          b = length padded_probs; k_max = length (padded_probs ! 0);
          masks = map (map (\<lambda>x. x > 0)) padded_probs;
          sent = map (\<lambda>i. reqs ! i) (pd_send pd)
      in bind_res (fit_embeddings b k_max embs) (\<lambda>emb.
         bind_res (gather_all (\<lambda>req.
           bind_res (extract_value_scale lib \<lparr>kw_args = [], kw_req = Some req\<rparr>) (\<lambda>scale.
           bind_res (extract_value_mode \<lparr>kw_args = [], kw_req = Some req\<rparr>) (\<lambda>mode. Inr (scale, mode)))) sent) (\<lambda>sm.
         bind_res (gather_all (get_eos_token_ids lib) sent) (\<lambda>eos.
         bind_res (gather_all (\<lambda>j.
             gpu_row (batch_mode (map snd sm)) (fst (sm ! j)) (masks ! j) (padded_probs ! j)
               (gpu_values (masks ! j) (padded_ids ! j) (eos ! j) (emb ! j)) (emb ! j)) [0 ..< b]) (\<lambda>fin.
           Inr (foldl (\<lambda>g (i, j). g[i := scatter (length (g ! i))
                         (zip (padded_ids ! j) (fill_invalid (masks ! j) 0 (fin ! j)))])
                  (pd_guided pd) (zip (pd_send pd) [0 ..< b])))))))"

section \<open>The whole step\<close>

text \<open>The state a step changes: the provider and what the requests cache.\<close>

record sampler =
  sp_inproc :: "inproc option"
  sp_reqs :: "greq list"

definition gpu_step ::
  "real list env \<Rightarrow> py_lib \<Rightarrow> pending \<Rightarrow> real list list \<times> nat list list \<Rightarrow> greq list \<Rightarrow> (inproc, real list list) run"
where
  "gpu_step env lib pd gpu reqs =
     (let reqs_send = map (\<lambda>i. reqs ! i) (pd_send pd); rids_send = map g_rid reqs_send
      in andthen (tree_value_extend env rids_send (pd_prefix pd) reqs_send) (\<lambda>_.
         andthen (tree_value_launch_gpu env rids_send (map (map int) (pd_cand_ids pd))
                    (Some (map (map int) (snd gpu), map (map (\<lambda>x. x > 0)) (fst gpu)))) (\<lambda>emb ip.
         (apply_guidance_gpu lib pd reqs gpu emb, ip))))"

definition cpu_step ::
  "real list env \<Rightarrow> http \<Rightarrow> py_lib \<Rightarrow> lvm_guided_config \<Rightarrow> pending \<Rightarrow> (sampler, real list list option) run"
where
  "cpu_step env http lib cfg pd st =
     (let reqs_send = map (\<lambda>i. sp_reqs st ! i) (pd_send pd)
      in case post_tree_value env http (c_bypass_cache cfg) (map g_rid reqs_send) (pd_prefix pd)
                (map (map int) (pd_cand_ids pd)) reqs_send (sp_inproc st) of
           (Inl e, prov) \<Rightarrow> (Inl e, st\<lparr>sp_inproc := prov\<rparr>)
         | (Inr lvm_values, prov) \<Rightarrow>
             (bind_res (apply_guidance lib (c_fn cfg) pd (sp_reqs st) lvm_values) (\<lambda>g. Inr (Some g)),
              st\<lparr>sp_inproc := prov\<rparr>))"

definition apply_pending ::
  "real list env \<Rightarrow> http \<Rightarrow> py_lib \<Rightarrow> lvm_guided_config \<Rightarrow> pending \<Rightarrow> (sampler, real list list option) run"
where
  "apply_pending env http lib cfg pd st =
     (if pd_send pd = [] then (Inr (Some (pd_guided pd)), st)
      else case (pd_gpu pd, sp_inproc st) of
        (Some gpu, Some ip) \<Rightarrow>
          (case wrap_error RuntimeError (gpu_step env lib pd gpu (sp_reqs st)) ip of
             (Inl e, ip') \<Rightarrow> (Inl e, st\<lparr>sp_inproc := Some ip'\<rparr>)
           | (Inr g, ip') \<Rightarrow> (Inr (Some g), st\<lparr>sp_inproc := Some ip'\<rparr>))
      | _ \<Rightarrow> cpu_step env http lib cfg pd st)"

definition apply_guided ::
  "torch_ops \<Rightarrow> real list env \<Rightarrow> http \<Rightarrow> py_lib \<Rightarrow> lvm_guided_config \<Rightarrow> real list list \<Rightarrow> row_params list \<Rightarrow>
   (sampler, real list list option) run"
where
  "apply_guided tk env http lib cfg probs params st =
     (case (case sp_inproc st of
              None \<Rightarrow> (Inr (), st)
            | Some ip \<Rightarrow>
                (case clean_stale_requests (set (map g_rid (sp_reqs st))) ip of
                   (r, ip') \<Rightarrow> (r, st\<lparr>sp_inproc := Some ip'\<rparr>))) of
        (Inl e, st1) \<Rightarrow> (Inl e, st1)
      | (Inr _, st1) \<Rightarrow>
          (case build_pending tk lib (c_fn cfg) probs params (sp_reqs st1) of
             (Inl e, reqs) \<Rightarrow> (Inl e, st1\<lparr>sp_reqs := reqs\<rparr>)
           | (Inr None, reqs) \<Rightarrow> (Inr None, st1\<lparr>sp_reqs := reqs\<rparr>)
           | (Inr (Some pd), reqs) \<Rightarrow> apply_pending env http lib cfg pd (st1\<lparr>sp_reqs := reqs\<rparr>)))"

end
