(* ===== verification/LvmKvInv.thy ===== *)
theory LvmKvInv
  imports LvmKv
begin

text \<open>
  Ownership of KV slots and pool rows by the requests of the in-process runner, for
  allocators with single-slot pages: the invariant, its preservation by every operation of
  \<open>LvmKv\<close> on every outcome, and the functional facts about what the operations do to the
  slots a request owns.
\<close>

section \<open>Ownership\<close>

definition owned_with :: "(rid \<Rightarrow> nat) \<Rightarrow> lvm \<Rightarrow> int list" where
  "owned_with lens s =
     concat (map (\<lambda>(r, i). take (lens r) (req_to_token (rt_pool s) ! i)) (pool_indices s))"

definition owned :: "lvm \<Rightarrow> rid \<Rightarrow> int list" where
  "owned s r = (case map_of (pool_indices s) r of None \<Rightarrow> []
     | Some i \<Rightarrow> take (kv_len s r) (req_to_token (rt_pool s) ! i))"

text \<open>
  The tables: each request has one row, no row is both free and in use, rows have the
  context length and the counters stay within it.
\<close>

definition tables_ok :: "lvm \<Rightarrow> bool" where
  "tables_ok s \<longleftrightarrow>
     distinct (map fst (pool_indices s)) \<and> map fst (kv_lens s) = map fst (pool_indices s) \<and>
     mset (free_slots (rt_pool s)) + mset (map snd (pool_indices s))
       = mset [0 ..< length (req_to_token (rt_pool s))] \<and>
     (\<forall>row \<in> set (req_to_token (rt_pool s)). length row = max_context_len (rt_pool s)) \<and>
     (\<forall>n \<in> set (map snd (kv_lens s)). n \<le> max_context_len (rt_pool s))"

text \<open>
  The slots: together, the free ones, those of the requests and those lost to an exception
  are all the slots of the pool.
\<close>

definition slots_ok :: "int multiset \<Rightarrow> int multiset \<Rightarrow> lvm \<Rightarrow> bool" where
  "slots_ok all lost s \<longleftrightarrow>
     page_size (kv_pool s) = 1 \<and> tok_inv (kv_pool s) \<and>
     mset (tok_slots (kv_pool s)) + mset (owned_with (kv_len s) s) + lost = all"

definition lvm_inv :: "int multiset \<Rightarrow> int multiset \<Rightarrow> lvm \<Rightarrow> bool" where
  "lvm_inv all lost s \<longleftrightarrow> tables_ok s \<and> slots_ok all lost s"

lemma tables_okD:
  assumes "tables_ok s"
  shows "distinct (map fst (pool_indices s))" "map fst (kv_lens s) = map fst (pool_indices s)"
    "distinct (map snd (pool_indices s))"
    "\<And>r i. (r, i) \<in> set (pool_indices s) \<Longrightarrow> i < length (req_to_token (rt_pool s))"
    "\<And>i. i < length (req_to_token (rt_pool s)) \<Longrightarrow> length (req_to_token (rt_pool s) ! i) = max_context_len (rt_pool s)"
    "\<And>r. kv_len s r \<le> max_context_len (rt_pool s)"
proof -
  let ?all = "[0 ..< length (req_to_token (rt_pool s))]"
  have m: "mset (free_slots (rt_pool s) @ map snd (pool_indices s)) = mset ?all"
    using assms by (simp add: tables_ok_def)
  have "distinct (free_slots (rt_pool s) @ map snd (pool_indices s))"
    using mset_eq_imp_distinct_iff [OF m] by simp
  then show "distinct (map snd (pool_indices s))" by simp
  show "distinct (map fst (pool_indices s))" "map fst (kv_lens s) = map fst (pool_indices s)"
    using assms unfolding tables_ok_def by blast+
  show "i < length (req_to_token (rt_pool s))" if "(r, i) \<in> set (pool_indices s)" for r i
  proof -
    have "i \<in> set (free_slots (rt_pool s) @ map snd (pool_indices s))" using that by force
    then have "i \<in> set ?all" using mset_eq_setD [OF m] by (simp only:)
    then show ?thesis by simp
  qed
  show "length (req_to_token (rt_pool s) ! i) = max_context_len (rt_pool s)"
    if "i < length (req_to_token (rt_pool s))" for i
    using assms that by (simp add: tables_ok_def)
  show "kv_len s r \<le> max_context_len (rt_pool s)" for r
  proof (cases "map_of (kv_lens s) r")
    case (Some n)
    then have "n \<in> set (map snd (kv_lens s))" by (force dest: map_of_SomeD)
    moreover have "\<forall>n \<in> set (map snd (kv_lens s)). n \<le> max_context_len (rt_pool s)"
      using assms unfolding tables_ok_def by blast
    ultimately show ?thesis using Some by (simp only: kv_len_def option.case)
  qed (simp add: kv_len_def)
qed

lemma owned_with_cong:
  assumes "pool_indices s' = pool_indices s"
    "\<And>r i. (r, i) \<in> set (pool_indices s) \<Longrightarrow>
       take (lens' r) (req_to_token (rt_pool s') ! i) = take (lens r) (req_to_token (rt_pool s) ! i)"
  shows "owned_with lens' s' = owned_with lens s"
  using assms unfolding owned_with_def by (auto intro!: arg_cong [where f = concat])

lemma map_of_SomeI:
  "tables_ok s \<Longrightarrow> (r, i) \<in> set (pool_indices s) \<longleftrightarrow> map_of (pool_indices s) r = Some i"
  using tables_okD(1) by (metis map_of_eq_Some_iff)

text \<open>Taking one request out of the concatenation.\<close>

lemma owned_with_split:
  assumes "tables_ok s" "map_of (pool_indices s) r = Some i"
  shows "mset (owned_with lens s) =
    mset (take (lens r) (req_to_token (rt_pool s) ! i))
    + mset (owned_with lens (s\<lparr>pool_indices := AList.delete r (pool_indices s)\<rparr>))"
proof -
  have "mset (concat (map (\<lambda>(r, i). f r i) ps))
      = mset (f r i) + mset (concat (map (\<lambda>(r, i). f r i) (AList.delete r ps)))"
    if "distinct (map fst ps)" "map_of ps r = Some i" for f :: "rid \<Rightarrow> nat \<Rightarrow> int list" and ps
    using that
  proof (induction ps)
    case (Cons p ps)
    obtain r' i' where p: "p = (r', i')" by (cases p)
    show ?case
    proof (cases "r' = r")
      case True
      then have "AList.delete r ps = ps" using Cons.prems(1) p by (simp add: delete_notin_dom dom_map_of_conv_image_fst)
      then show ?thesis using True p Cons.prems by simp
    next
      case False
      then show ?thesis using Cons p by (simp add: ac_simps)
    qed
  qed simp
  from this [OF tables_okD(1) [OF assms(1)] assms(2)] show ?thesis
    by (simp add: owned_with_def)
qed

section \<open>The building blocks keep the invariant\<close>

lemma AList_update_new: "r \<notin> fst ` set al \<Longrightarrow> AList.update r v al = al @ [(r, v)]"
  by (induction al) auto

lemma AList_update_keys:
  "r \<in> fst ` set al \<Longrightarrow> map fst (AList.update r v al) = map fst al"
  by (induction al) auto

lemma kv_len_update:
  "kv_len (s\<lparr>kv_lens := AList.update r n (kv_lens s)\<rparr>) r' = (if r' = r then n else kv_len s r')"
  by (simp add: kv_len_def update_conv)

lemma kv_len_frame [simp]:
  "kv_len (s\<lparr>rt_pool := rp\<rparr>) = kv_len s" "kv_len (s\<lparr>kv_pool := kv\<rparr>) = kv_len s"
  "kv_len (s\<lparr>pool_indices := ps\<rparr>) = kv_len s"
  by (simp_all add: kv_len_def fun_eq_iff)

lemma owned_with_frame [simp]:
  "owned_with lens (s\<lparr>kv_pool := kv\<rparr>) = owned_with lens s"
  "owned_with lens (s\<lparr>kv_lens := kl\<rparr>) = owned_with lens s"
  by (simp_all add: owned_with_def)

lemma kv_len_absent: "tables_ok s \<Longrightarrow> map_of (pool_indices s) r = None \<Longrightarrow> kv_len s r = 0"
proof -
  assume t: "tables_ok s" and n: "map_of (pool_indices s) r = None"
  have "r \<notin> fst ` set (kv_lens s)" using n tables_okD(2) [OF t] by (metis image_set map_of_eq_None_iff)
  then have "map_of (kv_lens s) r = None" by (simp add: map_of_eq_None_iff)
  then show ?thesis by (simp add: kv_len_def)
qed

lemma get_or_alloc_cases:
  assumes "tables_ok s"
  obtains i where "map_of (pool_indices s) r = Some i" "get_or_alloc r s = (Inr i, s)"
  | "get_or_alloc r s = (Inl RuntimeError, s)" "map_of (pool_indices s) r = None" "free_slots (rt_pool s) = []"
  | i fs where "map_of (pool_indices s) r = None" "free_slots (rt_pool s) = i # fs"
      "get_or_alloc r s = (Inr i, s\<lparr>rt_pool := (rt_pool s)\<lparr>free_slots := fs\<rparr>,
         pool_indices := pool_indices s @ [(r, i)], kv_lens := kv_lens s @ [(r, 0)]\<rparr>)"
proof (cases "map_of (pool_indices s) r")
  case None
  then have "r \<notin> fst ` set (pool_indices s)" "r \<notin> fst ` set (kv_lens s)"
    using tables_okD(2) [OF assms] by (metis image_set map_of_eq_None_iff)+
  then show ?thesis
    using that(2,3) None
    by (cases "free_slots (rt_pool s)") (simp_all add: get_or_alloc_def rp_alloc_def AList_update_new)
next
  case (Some i)
  then show ?thesis using that(1) by (simp add: get_or_alloc_def)
qed

lemma get_or_alloc_keeps:
  assumes inv: "lvm_inv all lost s" and run: "get_or_alloc r s = (res, s')"
  shows "lvm_inv all lost s'" "kv_len s' = kv_len s" "kv_pool s' = kv_pool s"
    "req_to_token (rt_pool s') = req_to_token (rt_pool s)"
    "max_context_len (rt_pool s') = max_context_len (rt_pool s)"
    "map_of (pool_indices s) \<subseteq>\<^sub>m map_of (pool_indices s')"
    "\<And>i. res = Inr i \<Longrightarrow> map_of (pool_indices s') r = Some i"
proof -
  have t: "tables_ok s" using inv by (simp add: lvm_inv_def)
  have "lvm_inv all lost s' \<and> kv_len s' = kv_len s \<and> kv_pool s' = kv_pool s \<and>
    req_to_token (rt_pool s') = req_to_token (rt_pool s) \<and>
    max_context_len (rt_pool s') = max_context_len (rt_pool s) \<and>
    map_of (pool_indices s) \<subseteq>\<^sub>m map_of (pool_indices s') \<and>
    (\<forall>i. res = Inr i \<longrightarrow> map_of (pool_indices s') r = Some i)"
  proof (cases rule: get_or_alloc_cases [OF t, of r])
    case (1 i)
    then show ?thesis using run inv by auto
  next
    case 2
    then show ?thesis using run inv by auto
  next
    case (3 i fs)
    let ?s = "s\<lparr>rt_pool := (rt_pool s)\<lparr>free_slots := fs\<rparr>,
         pool_indices := pool_indices s @ [(r, i)], kv_lens := kv_lens s @ [(r, 0)]\<rparr>"
    have new: "r \<notin> fst ` set (pool_indices s)" using 3(1) by (simp add: map_of_eq_None_iff)
    have kl: "kv_len ?s = kv_len s"
    proof
      fix r'
      show "kv_len ?s r' = kv_len s r'"
        using kv_len_absent [OF t 3(1)]
        by (auto simp: kv_len_def map_add_def split: option.splits)
    qed
    have "tables_ok ?s"
      using t new 3(2) by (auto simp: tables_ok_def)
    moreover have "owned_with (kv_len s) ?s = owned_with (kv_len s) s"
      using kv_len_absent [OF t 3(1)] by (simp add: owned_with_def)
    ultimately have "lvm_inv all lost ?s"
      using inv kl by (simp add: lvm_inv_def slots_ok_def)
    moreover have "map_of (pool_indices s) \<subseteq>\<^sub>m map_of (pool_indices ?s)"
      by (auto simp: map_le_def map_add_def split: option.splits)
    moreover have "map_of (pool_indices ?s) r = Some i"
      using 3(1) by (simp add: map_add_def)
    ultimately show ?thesis using run 3(3) kl by (auto simp: map_add_def)
  qed
  then show "lvm_inv all lost s'" "kv_len s' = kv_len s" "kv_pool s' = kv_pool s"
    "req_to_token (rt_pool s') = req_to_token (rt_pool s)"
    "max_context_len (rt_pool s') = max_context_len (rt_pool s)"
    "map_of (pool_indices s) \<subseteq>\<^sub>m map_of (pool_indices s')"
    "\<And>i. res = Inr i \<Longrightarrow> map_of (pool_indices s') r = Some i" by blast+
qed

lemma get_or_alloc_all_keeps:
  assumes "lvm_inv all lost s" "run_all get_or_alloc rids s = (res, s')"
  shows "lvm_inv all lost s' \<and> kv_len s' = kv_len s \<and> kv_pool s' = kv_pool s \<and>
    req_to_token (rt_pool s') = req_to_token (rt_pool s) \<and>
    max_context_len (rt_pool s') = max_context_len (rt_pool s) \<and>
    map_of (pool_indices s) \<subseteq>\<^sub>m map_of (pool_indices s') \<and>
    (\<forall>idxs. res = Inr idxs \<longrightarrow> map (map_of (pool_indices s')) rids = map Some idxs)"
  using assms
proof (induction rids arbitrary: s s' res)
  case (Cons r rids)
  obtain x s1 where one: "get_or_alloc r s = (x, s1)" by (cases "get_or_alloc r s")
  note k = get_or_alloc_keeps [OF Cons.prems(1) one]
  show ?case
  proof (cases x)
    case (Inl e)
    then show ?thesis using Cons.prems(2) one k by auto
  next
    case (Inr i)
    obtain y s2 where rest: "run_all get_or_alloc rids s1 = (y, s2)" by (cases "run_all get_or_alloc rids s1")
    note IH = Cons.IH [OF k(1) rest]
    have s': "s' = s2" using Cons.prems(2) one Inr rest by (cases y) auto
    have "map_of (pool_indices s2) r = Some i"
      using k(7) [OF Inr] IH by (metis domI map_le_def)
    moreover have "map_of (pool_indices s) \<subseteq>\<^sub>m map_of (pool_indices s2)"
      using k(6) IH map_le_trans by blast
    ultimately show ?thesis
      using IH k(2-5) Cons.prems(2) one Inr rest s' by (cases y) auto
  qed
qed auto

lemma rp_write_frame:
  assumes "rp_write row i j vals rp = (res, rp')"
  shows "free_slots rp' = free_slots rp \<and> max_context_len rp' = max_context_len rp \<and>
    length (req_to_token rp') = length (req_to_token rp) \<and>
    (\<forall>k < length (req_to_token rp). length (req_to_token rp' ! k) = length (req_to_token rp ! k) \<and>
       (k \<noteq> row \<longrightarrow> req_to_token rp' ! k = req_to_token rp ! k) \<and>
       take i (req_to_token rp' ! k) = take i (req_to_token rp ! k))"
proof -
  have b: "length (blit i ys r) = length r \<and> take i (blit i ys r) = take i r"
    if "length ys = length (slice r i j)" for ys and r :: "int list"
    using that by (cases "i \<le> length r") (auto simp: blit_def)
  show ?thesis
  proof (cases "row < length (req_to_token rp)")
    case True
    let ?r = "req_to_token rp ! row"
    show ?thesis
    proof (cases "length vals = length (slice ?r i j)")
      case eq: True
      then have "rp' = rp\<lparr>req_to_token := (req_to_token rp)[row := blit i vals ?r]\<rparr>"
        using assms True by (simp add: rp_write_def Let_def)
      then show ?thesis using b [OF eq] True by (simp add: nth_list_update)
    next
      case neq: False
      let ?ys = "replicate (length (slice ?r i j)) (vals ! 0)"
      have "rp' = rp \<or> rp' = rp\<lparr>req_to_token := (req_to_token rp)[row := blit i ?ys ?r]\<rparr>"
        using assms True neq by (simp add: rp_write_def Let_def split: if_splits)
      then show ?thesis
      proof
        assume "rp' = rp\<lparr>req_to_token := (req_to_token rp)[row := blit i ?ys ?r]\<rparr>"
        then show ?thesis using b [of ?ys ?r] True by (simp add: nth_list_update)
      qed simp
    qed
  qed (use assms in \<open>auto simp: rp_write_def\<close>)
qed

lemma write_keeps:
  assumes inv: "lvm_inv all lost s" and w: "rp_write row i j vals (rt_pool s) = (res, rp')"
    and past: "\<And>r. (r, row) \<in> set (pool_indices s) \<Longrightarrow> kv_len s r \<le> i"
  shows "lvm_inv all lost (s\<lparr>rt_pool := rp'\<rparr>)"
proof -
  note f = rp_write_frame [OF w]
  have t: "tables_ok s" using inv by (simp add: lvm_inv_def)
  have "tables_ok (s\<lparr>rt_pool := rp'\<rparr>)"
    using t f by (simp add: tables_ok_def all_set_conv_all_nth)
  moreover have "owned_with (kv_len s) (s\<lparr>rt_pool := rp'\<rparr>) = owned_with (kv_len s) s"
  proof (rule owned_with_cong)
    fix r k assume rk: "(r, k) \<in> set (pool_indices s)"
    have k: "k < length (req_to_token (rt_pool s))" using tables_okD(4) [OF t rk] .
    show "take (kv_len s r) (req_to_token (rt_pool (s\<lparr>rt_pool := rp'\<rparr>)) ! k)
        = take (kv_len s r) (req_to_token (rt_pool s) ! k)"
    proof (cases "k = row")
      case True
      then have le: "kv_len s r \<le> i" using past rk by simp
      have "take i (req_to_token rp' ! k) = take i (req_to_token (rt_pool s) ! k)" using f k by blast
      then have "take (kv_len s r) (take i (req_to_token rp' ! k))
          = take (kv_len s r) (take i (req_to_token (rt_pool s) ! k))" by (simp only:)
      then show ?thesis using le by (simp add: min_absorb1)
    qed (use f k in simp)
  qed simp
  ultimately show ?thesis using inv by (simp add: lvm_inv_def slots_ok_def)
qed

text \<open>Which rows a batch writes: each at or past the end of its owner's prefix.\<close>

definition rows_past :: "lvm \<Rightarrow> (nat \<times> nat \<times> nat) list \<Rightarrow> bool" where
  "rows_past s rows \<longleftrightarrow>
     (\<forall>(idx, p, e) \<in> set rows. \<forall>(r, i) \<in> set (pool_indices s). i = idx \<longrightarrow> kv_len s r \<le> p)"

lemma write_rows_keeps:
  assumes "lvm_inv all lost s" "write_rows rows locs s = (res, s')" "rows_past s rows"
  shows "lvm_inv all lost s' \<and> kv_len s' = kv_len s \<and> kv_pool s' = kv_pool s \<and> pool_indices s' = pool_indices s
    \<and> kv_lens s' = kv_lens s \<and> max_context_len (rt_pool s') = max_context_len (rt_pool s)
    \<and> free_slots (rt_pool s') = free_slots (rt_pool s)"
  using assms
proof (induction rows arbitrary: s locs)
  case (Cons row rows)
  obtain idx p e where row: "row = (idx, p, e)" by (cases row)
  obtain x rp where w: "rp_write idx p (p + e) (take e locs) (rt_pool s) = (x, rp)"
    by (cases "rp_write idx p (p + e) (take e locs) (rt_pool s)")
  have inv: "lvm_inv all lost (s\<lparr>rt_pool := rp\<rparr>)"
    using Cons.prems(3) row by (intro write_keeps [OF Cons.prems(1) w]) (auto simp: rows_past_def)
  have past: "rows_past (s\<lparr>rt_pool := rp\<rparr>) rows" using Cons.prems(3) row by (auto simp: rows_past_def)
  show ?case
  proof (cases x)
    case (Inl er)
    then show ?thesis using Cons.prems(2) w row inv rp_write_frame [OF w] by auto
  next
    case (Inr u)
    then have "write_rows rows (drop e locs) (s\<lparr>rt_pool := rp\<rparr>) = (res, s')"
      using Cons.prems(2) w row by simp
    from Cons.IH [OF inv this past] rp_write_frame [OF w] show ?thesis by simp
  qed
qed auto

lemma kv_alloc_for_keeps:
  assumes "lvm_inv all lost s" "kv_alloc_for h ll ps ss n s = (res, s')"
  shows "(\<exists>xs. res = Inr (Some xs) \<and> length xs = n \<and> lvm_inv all (lost + mset xs) s') \<or>
      res = Inr None \<and> lvm_inv all lost s'"
    "rt_pool s' = rt_pool s" "pool_indices s' = pool_indices s" "kv_lens s' = kv_lens s" "kv_len s' = kv_len s"
proof -
  have ps1: "page_size (kv_pool s) = 1" and ti: "tok_inv (kv_pool s)"
    using assms(1) by (simp_all add: lvm_inv_def slots_ok_def)
  obtain r a where ra: "tok_alloc (kv_pool s) n = (r, a)" by (cases "tok_alloc (kv_pool s) n")
  have s': "res = Inr r" "s' = s\<lparr>kv_pool := a\<rparr>"
    using assms(2) ps1 ra by (auto simp: kv_alloc_for_def)
  have pa: "page_size a = 1" using ra ps1 by (auto simp: tok_alloc_def Let_def split: if_splits)
  have tia: "tok_inv a" using tpool.alloc_inv [of "kv_pool s" n] ti ra by simp
  have tb: "tables_ok (s\<lparr>kv_pool := a\<rparr>)" using assms(1) by (simp add: lvm_inv_def tables_ok_def)
  show "(\<exists>xs. res = Inr (Some xs) \<and> length xs = n \<and> lvm_inv all (lost + mset xs) s') \<or>
      res = Inr None \<and> lvm_inv all lost s'"
  proof (cases r)
    case None
    then show ?thesis
      using assms(1) tpool.alloc_None [of "kv_pool s" n a] ti ra s' pa tia tb
      by (simp add: lvm_inv_def slots_ok_def)
  next
    case (Some xs)
    then have "length xs = n" "mset (tok_slots (kv_pool s)) = mset xs + mset (tok_slots a)"
      using tpool.alloc_Some [of "kv_pool s" n xs a] ti ra by simp_all
    then show ?thesis
      using assms(1) Some s' pa tia tb by (simp add: lvm_inv_def slots_ok_def ac_simps)
  qed
  show "rt_pool s' = rt_pool s" "pool_indices s' = pool_indices s" "kv_lens s' = kv_lens s" "kv_len s' = kv_len s"
    using s' by simp_all
qed

lemma kv_free_keeps:
  assumes "lvm_inv all (lost + mset xs) s"
  shows "\<exists>s'. kv_free xs s = (Inr (), s') \<and> lvm_inv all lost s' \<and> rt_pool s' = rt_pool s \<and>
    pool_indices s' = pool_indices s \<and> kv_lens s' = kv_lens s \<and> kv_len s' = kv_len s \<and>
    mset (tok_slots (kv_pool s')) = mset (tok_slots (kv_pool s)) + mset xs"
proof -
  have ps1: "page_size (kv_pool s) = 1" and ti: "tok_inv (kv_pool s)"
    using assms by (simp_all add: lvm_inv_def slots_ok_def)
  have f: "mset (tok_slots (tok_free (kv_pool s) xs)) = mset (tok_slots (kv_pool s)) + mset xs"
    "tok_inv (tok_free (kv_pool s) xs)" "page_size (tok_free (kv_pool s) xs) = 1"
    using tpool.free_mset [OF ti] tpool.free_inv [OF ti] ps1 by (simp_all add: tok_free_def)
  have "lvm_inv all lost (s\<lparr>kv_pool := tok_free (kv_pool s) xs\<rparr>)"
    using assms f by (simp add: lvm_inv_def slots_ok_def tables_ok_def ac_simps)
  then show ?thesis using ps1 f by (simp add: kv_free_def)
qed

section \<open>Retraction, release and cleanup\<close>

lemma owned_with_fun_upd:
  assumes "tables_ok s" "map_of (pool_indices s) r = Some i"
  shows "mset (owned_with (lens(r := n)) s) + mset (take (lens r) (req_to_token (rt_pool s) ! i))
    = mset (owned_with lens s) + mset (take n (req_to_token (rt_pool s) ! i))"
proof -
  let ?d = "s\<lparr>pool_indices := AList.delete r (pool_indices s)\<rparr>"
  have "owned_with (lens(r := n)) ?d = owned_with lens ?d"
    by (rule owned_with_cong) (auto simp: AList.delete_eq)
  then show ?thesis
    using owned_with_split [OF assms, of lens] owned_with_split [OF assms, of "lens(r := n)"]
    by (simp add: ac_simps)
qed

lemma mem_kv_lens: "tables_ok s \<Longrightarrow> map_of (pool_indices s) r = Some i \<Longrightarrow> r \<in> fst ` set (kv_lens s)"
  using tables_okD(2) [of s] by (metis image_set map_of_eq_None_iff option.distinct(1))

lemma tables_ok_set_len:
  assumes "tables_ok s" "map_of (pool_indices s) r = Some i" "n \<le> max_context_len (rt_pool s)"
  shows "tables_ok (s\<lparr>kv_lens := AList.update r n (kv_lens s)\<rparr>)"
proof -
  have "set (map snd (AList.update r n al)) \<subseteq> insert n (set (map snd al))" for al
    by (induction al) auto
  then show ?thesis
    using assms AList_update_keys [OF mem_kv_lens [OF assms(1,2)], of n]
    unfolding tables_ok_def by (auto simp del: set_map)
qed

lemma kv_len_set_len: "kv_len (s\<lparr>kv_lens := AList.update r n (kv_lens s)\<rparr>) = (kv_len s)(r := n)"
  by (rule ext) (simp add: kv_len_update)

lemma kv_pool_set_len: "kv_pool (s\<lparr>kv_lens := AList.update r n (kv_lens s)\<rparr>) = kv_pool s" for s :: lvm
  by simp

lemma set_AList_delete: "set (AList.delete r al) \<subseteq> set al"
  by (auto simp: AList.delete_eq)

lemma keys_AList_delete: "map fst (AList.delete r al) = filter (\<lambda>k. k \<noteq> r) (map fst al)"
  by (induction al) auto

lemma lvm_upd_comm: "s\<lparr>kv_pool := a, kv_lens := b\<rparr> = s\<lparr>kv_lens := b, kv_pool := a\<rparr>" for s :: lvm
  by (cases s) simp

lemma shrink_len:
  assumes "lvm_inv all lost s" "map_of (pool_indices s) r = Some i" "n \<le> kv_len s r"
  shows "lvm_inv all (lost + mset (slice (req_to_token (rt_pool s) ! i) n (kv_len s r)))
    (s\<lparr>kv_lens := AList.update r n (kv_lens s)\<rparr>)"
proof -
  let ?row = "req_to_token (rt_pool s) ! i"
  let ?s = "s\<lparr>kv_lens := AList.update r n (kv_lens s)\<rparr>"
  have t: "tables_ok s" using assms(1) by (simp add: lvm_inv_def)
  have "take (kv_len s r) ?row = take n ?row @ slice ?row n (kv_len s r)"
    using assms(3) by (simp add: slice_def take_add [symmetric])
  then have o: "mset (owned_with ((kv_len s)(r := n)) s) + mset (slice ?row n (kv_len s r)) = mset (owned_with (kv_len s) s)"
    using owned_with_fun_upd [OF t assms(2), of "kv_len s" n] by (simp add: ac_simps)
  have "mset (owned_with (kv_len ?s) ?s) + mset (slice ?row n (kv_len s r)) = mset (owned_with (kv_len s) s)"
    using o unfolding kv_len_set_len by simp
  then have "slots_ok all (lost + mset (slice ?row n (kv_len s r))) ?s"
    using assms(1) kv_pool_set_len [where s = s and r = r and n = n] unfolding lvm_inv_def slots_ok_def
    by (metis union_assoc union_commute)
  moreover have "tables_ok ?s"
    using tables_ok_set_len [OF t assms(2)] tables_okD(6) [OF t, of r] assms(3) by simp
  ultimately show ?thesis by (simp add: lvm_inv_def)
qed

lemma retract_keeps:
  assumes "lvm_inv all lost s" "map_of (pool_indices s) r = Some i"
  shows "\<exists>s'. retract r n s = (Inr (), s') \<and> lvm_inv all lost s' \<and> rt_pool s' = rt_pool s \<and>
    pool_indices s' = pool_indices s \<and> kv_len s' = (kv_len s)(r := min n (kv_len s r)) \<and>
    mset (tok_slots (kv_pool s')) = mset (tok_slots (kv_pool s)) + mset (slice (req_to_token (rt_pool s) ! i) n (kv_len s r))"
proof (cases "kv_len s r \<le> n")
  case True
  then show ?thesis using assms by (simp add: retract_def slice_def fun_upd_idem)
next
  case False
  let ?sl = "slice (req_to_token (rt_pool s) ! i) n (kv_len s r)"
  have t: "tables_ok s" using assms(1) by (simp add: lvm_inv_def)
  have i: "i < length (req_to_token (rt_pool s))"
    using tables_okD(4) [OF t] map_of_SomeI [OF t] assms(2) by blast
  let ?u = "s\<lparr>kv_lens := AList.update r n (kv_lens s)\<rparr>"
  obtain s' where s': "kv_free ?sl ?u = (Inr (), s')" "lvm_inv all lost s'" "rt_pool s' = rt_pool s"
    "pool_indices s' = pool_indices s" "kv_len s' = (kv_len s)(r := n)"
    "mset (tok_slots (kv_pool s')) = mset (tok_slots (kv_pool s)) + mset ?sl"
    using kv_free_keeps [OF shrink_len [OF assms, of n]] False kv_len_set_len [where s = s and r = r and n = n] by auto
  have ps1: "page_size (kv_pool s) = 1" using assms(1) by (simp add: lvm_inv_def slots_ok_def)
  have "retract r n s = (Inr (), s')"
    using s'(1) False i assms(2) ps1 by (simp add: retract_def Let_def row_slice_def kv_free_def lvm_upd_comm)
  then show ?thesis using s' False by (simp add: min_def)
qed

lemma delete_snd_mset:
  "distinct (map fst ps) \<Longrightarrow> map_of ps r = Some i \<Longrightarrow>
   mset (map snd ps) = {#i#} + mset (map snd (AList.delete r ps))"
proof (induction ps)
  case (Cons p ps)
  obtain r' i' where p: "p = (r', i')" by (cases p)
  show ?case
  proof (cases "r' = r")
    case True
    then have "AList.delete r ps = ps" using Cons.prems(1) p by (simp add: delete_notin_dom dom_map_of_conv_image_fst)
    then show ?thesis using True p Cons.prems by simp
  next
    case False
    then show ?thesis using Cons p by (simp add: ac_simps)
  qed
qed simp

lemma drop_request:
  assumes "lvm_inv all lost s" "map_of (pool_indices s) r = Some i"
  shows "lvm_inv all (lost + mset (take (kv_len s r) (req_to_token (rt_pool s) ! i)))
    (s\<lparr>rt_pool := rp_free_one (rt_pool s) i, pool_indices := AList.delete r (pool_indices s),
       kv_lens := AList.delete r (kv_lens s)\<rparr>)" (is "lvm_inv _ _ ?s")
proof -
  have t: "tables_ok s" using assms(1) by (simp add: lvm_inv_def)
  have "\<forall>n \<in> set (map snd (AList.delete r (kv_lens s))). n \<le> max_context_len (rt_pool s)"
    using t set_AList_delete [of r "kv_lens s"] by (auto simp: tables_ok_def)
  then have tb: "tables_ok ?s"
    using t delete_snd_mset [OF tables_okD(1) [OF t] assms(2)]
    by (simp add: tables_ok_def rp_free_one_def keys_AList_delete ac_simps)
  have kl: "kv_len ?s r' = kv_len s r'" if "r' \<noteq> r" for r'
    using that by (simp add: kv_len_def delete_conv)
  have "owned_with (kv_len ?s) ?s = owned_with (kv_len s) (s\<lparr>pool_indices := AList.delete r (pool_indices s)\<rparr>)"
    unfolding owned_with_def using kl
    by (intro arg_cong [where f = concat] map_cong) (auto simp: rp_free_one_def AList.delete_eq)
  then show ?thesis
    using owned_with_split [OF t assms(2), of "kv_len s"] assms(1) tb
    by (simp add: lvm_inv_def slots_ok_def ac_simps)
qed

lemma release_keeps:
  assumes inv: "lvm_inv all lost s"
  shows "\<exists>s'. release r s = (Inr (), s') \<and> lvm_inv all lost s' \<and>
    pool_indices s' = AList.delete r (pool_indices s) \<and> kv_lens s' = AList.delete r (kv_lens s) \<and>
    req_to_token (rt_pool s') = req_to_token (rt_pool s) \<and>
    mset (tok_slots (kv_pool s')) = mset (tok_slots (kv_pool s)) + mset (owned s r)"
proof (cases "map_of (pool_indices s) r")
  case None
  have t: "tables_ok s" using inv by (simp add: lvm_inv_def)
  have n: "r \<notin> fst ` set (pool_indices s)" using None by (simp add: map_of_eq_None_iff)
  then have "r \<notin> fst ` set (kv_lens s)" using tables_okD(2) [OF t] by (metis image_set)
  then show ?thesis
    using None inv n by (simp add: release_def owned_def delete_notin_dom dom_map_of_conv_image_fst)
next
  case (Some i)
  have t: "tables_ok s" and ps1: "page_size (kv_pool s) = 1"
    using inv by (simp_all add: lvm_inv_def slots_ok_def)
  have i: "i < length (req_to_token (rt_pool s))"
    using tables_okD(4) [OF t] map_of_SomeI [OF t] Some by blast
  let ?own = "take (kv_len s r) (req_to_token (rt_pool s) ! i)"
  let ?d = "s\<lparr>rt_pool := rp_free_one (rt_pool s) i, pool_indices := AList.delete r (pool_indices s),
       kv_lens := AList.delete r (kv_lens s)\<rparr>"
  obtain s' where s': "kv_free ?own ?d = (Inr (), s')" "lvm_inv all lost s'" "rt_pool s' = rt_pool ?d"
    "pool_indices s' = pool_indices ?d" "kv_lens s' = kv_lens ?d"
    "mset (tok_slots (kv_pool s')) = mset (tok_slots (kv_pool ?d)) + mset ?own"
    using kv_free_keeps [OF drop_request [OF inv Some]] by blast
  have "release r s = (Inr (), s')"
  proof -
    have e: "s' = ?d\<lparr>kv_pool := tok_free (kv_pool s) ?own\<rparr>" using s'(1) ps1 by (simp add: kv_free_def)
    show ?thesis
    proof (cases "kv_len s r")
      case 0
      then show ?thesis using Some e by (cases s) (simp add: release_def Let_def tok_free_def)
    next
      case (Suc k)
      then show ?thesis
        using Some e i ps1
        by (cases s) (simp add: release_def Let_def row_slice_def kv_free_def slice_def)
    qed
  qed
  then show ?thesis using s' Some by (simp add: rp_free_one_def owned_def)
qed

lemma release_all_keeps:
  assumes "lvm_inv all lost s"
  shows "\<exists>us s'. run_all release rs s = (Inr us, s') \<and> lvm_inv all lost s' \<and>
    pool_indices s' = filter (\<lambda>(r, i). r \<notin> set rs) (pool_indices s) \<and>
    kv_lens s' = filter (\<lambda>(r, i). r \<notin> set rs) (kv_lens s) \<and>
    req_to_token (rt_pool s') = req_to_token (rt_pool s)"
  using assms
proof (induction rs arbitrary: s)
  case (Cons r rs)
  obtain s1 where s1: "release r s = (Inr (), s1)" "lvm_inv all lost s1"
    "pool_indices s1 = AList.delete r (pool_indices s)" "kv_lens s1 = AList.delete r (kv_lens s)"
    "req_to_token (rt_pool s1) = req_to_token (rt_pool s)"
    using release_keeps [OF Cons.prems] by blast
  obtain us s' where s': "run_all release rs s1 = (Inr us, s')" "lvm_inv all lost s'"
    "pool_indices s' = filter (\<lambda>(r, i). r \<notin> set rs) (pool_indices s1)"
    "kv_lens s' = filter (\<lambda>(r, i). r \<notin> set rs) (kv_lens s1)"
    "req_to_token (rt_pool s') = req_to_token (rt_pool s1)"
    using Cons.IH [OF s1(2)] by blast
  have "filter (\<lambda>(r, i). r \<notin> set rs) (AList.delete r al) = filter (\<lambda>(r', i). r' \<notin> set (r # rs)) al"
    for al :: "(rid \<times> nat) list"
    by (induction al) auto
  then show ?case using s1 s' by simp
qed simp

lemma owned_frame:
  assumes "map_of (pool_indices s') r = map_of (pool_indices s) r" "kv_len s' r = kv_len s r"
    "req_to_token (rt_pool s') = req_to_token (rt_pool s)"
  shows "owned s' r = owned s r"
  using assms by (simp add: owned_def split: option.split)

lemma map_of_filter_keys: "map_of (filter (\<lambda>(r, i). P r) al) r = (if P r then map_of al r else None)"
  by (induction al) auto

lemma cleanup_keeps:
  assumes "lvm_inv all lost s"
  shows "\<exists>s'. cleanup_stale_rids active s = (Inr (), s') \<and> lvm_inv all lost s' \<and>
    active_rids s' = filter (\<lambda>r. r \<in> active) (active_rids s) \<and>
    (\<forall>r \<in> active. owned s' r = owned s r \<and> kv_len s' r = kv_len s r)"
proof -
  let ?st = "filter (\<lambda>r. r \<notin> active) (active_rids s)"
  obtain us s' where s': "run_all release ?st s = (Inr us, s')" "lvm_inv all lost s'"
    "pool_indices s' = filter (\<lambda>(r, i). r \<notin> set ?st) (pool_indices s)"
    "kv_lens s' = filter (\<lambda>(r, i). r \<notin> set ?st) (kv_lens s)"
    "req_to_token (rt_pool s') = req_to_token (rt_pool s)"
    using release_all_keeps [OF assms] by blast
  have "active_rids s' = filter (\<lambda>r. r \<in> active) (active_rids s)"
  proof -
    have "active_rids s' = map fst (filter (\<lambda>(r, i). r \<in> active) (pool_indices s))"
      unfolding active_rids_def s'(3) by (rule arg_cong [where f = "map fst"], rule filter_cong) (force simp: active_rids_def)+
    also have "\<dots> = filter (\<lambda>r. r \<in> active) (active_rids s)"
      unfolding active_rids_def by (simp add: filter_map comp_def) (simp only: case_prod_unfold)
    finally show ?thesis .
  qed
  moreover have "owned s' r = owned s r \<and> kv_len s' r = kv_len s r" if "r \<in> active" for r
  proof -
    have "r \<notin> set ?st" using that by simp
    then have "map_of (pool_indices s') r = map_of (pool_indices s) r" "kv_len s' r = kv_len s r"
      unfolding s'(3,4) kv_len_def by (simp_all only: map_of_filter_keys not_False_eq_True if_True)
    then show ?thesis using owned_frame s'(5) by blast
  qed
  ultimately show ?thesis using s'(1,2) by (auto simp: cleanup_stale_rids_def Let_def)
qed

section \<open>Evaluation\<close>

lemma rows_past_lookup:
  assumes "tables_ok s" "map (map_of (pool_indices s)) rids = map Some idxs"
  shows "rows_past s (zip idxs (zip (map (kv_len s) rids) lens))"
proof -
  have "kv_len s r \<le> p"
    if "(idx, p, e) \<in> set (zip idxs (zip (map (kv_len s) rids) lens))" "(r, idx) \<in> set (pool_indices s)" for idx p e r
  proof -
    from that(1) obtain k where k: "k < length idxs" "k < length rids" "idx = idxs ! k" "p = kv_len s (rids ! k)"
      by (auto simp: in_set_zip)
    have "map_of (pool_indices s) (rids ! k) = Some idx"
      using arg_cong [OF assms(2), of "\<lambda>xs. xs ! k"] k by simp
    then have "(rids ! k, idx) \<in> set (pool_indices s)" by (rule map_of_SomeD)
    then have "rids ! k = r"
      using that(2) tables_okD(3) [OF assms(1)] by (metis eq_snd_iff distinct_map inj_onD fst_conv snd_conv)
    then show ?thesis using k by simp
  qed
  then show ?thesis unfolding rows_past_def by blast
qed

lemma lookup_all_ok: "lookup_all d rs = Inr idxs \<Longrightarrow> map (map_of d) rs = map Some idxs"
  unfolding lookup_all_def
proof (induction rs arbitrary: idxs)
  case (Cons r rs)
  then show ?case by (auto simp: bind_res_Inr_iff split: option.splits)
qed simp


lemma write_owned:
  assumes t: "tables_ok s" and w: "rp_write row i j vals (rt_pool s) = (res, rp')"
    and past: "\<And>r. (r, row) \<in> set (pool_indices s) \<Longrightarrow> kv_len s r \<le> i"
  shows "owned (s\<lparr>rt_pool := rp'\<rparr>) r = owned s r"
proof (cases "map_of (pool_indices s) r")
  case (Some k)
  note f = rp_write_frame [OF w]
  have rk: "(r, k) \<in> set (pool_indices s)" using Some by (rule map_of_SomeD)
  have k: "k < length (req_to_token (rt_pool s))" using tables_okD(4) [OF t rk] .
  have "take (kv_len s r) (req_to_token rp' ! k) = take (kv_len s r) (req_to_token (rt_pool s) ! k)"
  proof (cases "k = row")
    case True
    then have le: "kv_len s r \<le> i" using past rk by simp
    have "take i (req_to_token rp' ! k) = take i (req_to_token (rt_pool s) ! k)" using f k by blast
    then have "take (kv_len s r) (take i (req_to_token rp' ! k))
        = take (kv_len s r) (take i (req_to_token (rt_pool s) ! k))" by (simp only:)
    then show ?thesis using le by (simp add: min_absorb1)
  qed (use f k in simp)
  then show ?thesis using Some by (simp add: owned_def)
qed (simp add: owned_def)

lemma write_rows_owned:
  assumes "lvm_inv all lost s" "write_rows rows locs s = (res, s')" "rows_past s rows"
  shows "owned s' r = owned s r"
  using assms
proof (induction rows arbitrary: s locs)
  case (Cons row rows)
  obtain idx p e where row: "row = (idx, p, e)" by (cases row)
  obtain x rp where w: "rp_write idx p (p + e) (take e locs) (rt_pool s) = (x, rp)"
    by (cases "rp_write idx p (p + e) (take e locs) (rt_pool s)")
  have p: "\<And>r. (r, idx) \<in> set (pool_indices s) \<Longrightarrow> kv_len s r \<le> p"
    using Cons.prems(3) row by (auto simp: rows_past_def)
  have inv: "lvm_inv all lost (s\<lparr>rt_pool := rp\<rparr>)" by (rule write_keeps [OF Cons.prems(1) w p])
  have o: "owned (s\<lparr>rt_pool := rp\<rparr>) r = owned s r"
    using Cons.prems(1) by (intro write_owned [OF _ w p]) (simp_all add: lvm_inv_def)
  have past: "rows_past (s\<lparr>rt_pool := rp\<rparr>) rows" using Cons.prems(3) row by (auto simp: rows_past_def)
  show ?case
  proof (cases x)
    case (Inl er)
    then show ?thesis using Cons.prems(2) w row o by auto
  next
    case (Inr u)
    then have "write_rows rows (drop e locs) (s\<lparr>rt_pool := rp\<rparr>) = (res, s')"
      using Cons.prems(2) w row by simp
    from Cons.IH [OF inv this past] o show ?thesis by simp
  qed
qed auto

lemma owned_eqI:
  "rt_pool s' = rt_pool s \<Longrightarrow> pool_indices s' = pool_indices s \<Longrightarrow> kv_len s' = kv_len s \<Longrightarrow> owned s' = owned s"
  by (rule ext) (simp add: owned_def split: option.split)

text \<open>
  An evaluation ends in one of three ways: it gives up before it holds slots; it raises
  between the allocation and the forward pass and the slots it took are lost; or it runs
  the forward pass and gives the slots back whatever the pass does.
\<close>

lemma eval_cases:
  assumes inv: "lvm_inv all lost s" and run: "eval_candidates_batch_gpu env rids cands gpu deltas s = (res, s')"
  shows "kv_len s' = kv_len s \<and> pool_indices s' = pool_indices s \<and> owned s' = owned s \<and>
    (lvm_inv all lost s' \<or>
     (\<exists>xs e. res = Inl e \<and> lvm_inv all (lost + mset xs) s' \<and> length xs = sum_list (map length cands)))"
proof -
  have t: "tables_ok s" using inv by (simp add: lvm_inv_def)
  let ?ps = "map (kv_len s) rids" and ?cs = "map length cands"
  show ?thesis
  proof (cases "rids = [] \<or> length cands < length rids \<or> (\<exists>e. lookup_all (pool_indices s) rids = Inl e)")
    case True
    then have "s' = s" using run by (auto simp: eval_candidates_batch_gpu_def Let_def split: if_splits)
    then show ?thesis using inv by simp
  next
    case False
    then obtain idxs where lk: "lookup_all (pool_indices s) rids = Inr idxs"
      by (cases "lookup_all (pool_indices s) rids") auto
    obtain a s1 where al: "kv_alloc_for (e_hw env) (eval_last_loc s (zip idxs ?ps)) ?ps (map2 (+) ?ps ?cs) (sum_list ?cs) s = (a, s1)"
      by (cases "kv_alloc_for (e_hw env) (eval_last_loc s (zip idxs ?ps)) ?ps (map2 (+) ?ps ?cs) (sum_list ?cs) s")
    note k = kv_alloc_for_keeps [OF inv al]
    have o1: "owned s1 = owned s" using k by (intro owned_eqI)
    from k(1) show ?thesis
    proof (elim disjE exE conjE)
      assume "a = Inr None" "lvm_inv all lost s1"
      then show ?thesis using run False lk al k o1 by (simp add: eval_candidates_batch_gpu_def Let_def)
    next
      fix xs assume xs: "a = Inr (Some xs)" "length xs = sum_list ?cs" "lvm_inv all (lost + mset xs) s1"
      obtain w s2 where wr: "write_rows (zip idxs (zip ?ps ?cs)) xs s1 = (w, s2)"
        by (cases "write_rows (zip idxs (zip ?ps ?cs)) xs s1")
      have past: "rows_past s1 (zip idxs (zip ?ps ?cs))"
        using rows_past_lookup [OF t lookup_all_ok [OF lk], of ?cs] k by (simp add: rows_past_def)
      note w = write_rows_keeps [OF xs(3) wr past]
      have o2: "owned s2 = owned s1" using write_rows_owned [OF xs(3) wr past] by blast
      show ?thesis
      proof (cases "(\<exists>e. w = Inl e) \<or> (\<exists>e. build_tree_value_custom_mask_and_positions (uninit_cell (e_hw env)) (map int ?ps) (map int ?cs) (map int ?ps) = Inl e)")
        case True
        then have "s' = s2 \<and> (\<exists>e. res = Inl e)"
          using run False lk al xs wr by (auto simp: eval_candidates_batch_gpu_def Let_def split: sum.splits)
        then show ?thesis using w o1 o2 k xs by auto
      next
        case ok: False
        have w': "w = Inr ()" using ok by (cases w) auto
        obtain mp where mp: "build_tree_value_custom_mask_and_positions (uninit_cell (e_hw env)) (map int ?ps) (map int ?cs) (map int ?ps) = Inr mp"
          using ok by (cases "build_tree_value_custom_mask_and_positions (uninit_cell (e_hw env)) (map int ?ps) (map int ?cs) (map int ?ps)") blast+
        obtain s3 where s3: "kv_free xs s2 = (Inr (), s3)" "lvm_inv all lost s3" "rt_pool s3 = rt_pool s2"
          "pool_indices s3 = pool_indices s2" "kv_len s3 = kv_len s2"
          using kv_free_keeps [of all lost xs s2] w by blast
        have "s' = s3"
          using run False lk al xs wr mp w' s3(1) by (auto simp: eval_candidates_batch_gpu_def Let_def)
        then show ?thesis using s3 w o1 o2 k owned_eqI [OF s3(3-5)] by simp
      qed
    qed
  qed
qed

section \<open>Extension\<close>

lemma rp_write_fit:
  assumes "row < length (req_to_token rp)" "i + length vals \<le> length (req_to_token rp ! row)"
  shows "rp_write row i (i + length vals) vals rp
    = (Inr (), rp\<lparr>req_to_token := (req_to_token rp)[row := blit i vals (req_to_token rp ! row)]\<rparr>)"
  using assms by (simp add: rp_write_def Let_def)

definition rows_fit :: "int list list \<Rightarrow> (nat \<times> nat \<times> nat) list \<Rightarrow> bool" where
  "rows_fit R rows \<longleftrightarrow> distinct (map fst rows) \<and>
     (\<forall>(idx, p, e) \<in> set rows. idx < length R \<and> p + e \<le> length (R ! idx))"

definition set_rows :: "lvm \<Rightarrow> int list list \<Rightarrow> lvm" where
  "set_rows s R = s\<lparr>rt_pool := (rt_pool s)\<lparr>req_to_token := R\<rparr>\<rparr>"

lemma write_rows_content:
  assumes "rows_fit (req_to_token (rt_pool s)) rows" "length locs = sum_list (map (snd \<circ> snd) rows)"
  shows "\<exists>blocks R'. write_rows rows locs s = (Inr (), set_rows s R') \<and> concat blocks = locs \<and>
    length R' = length (req_to_token (rt_pool s)) \<and>
    list_all2 (\<lambda>(idx, p, e) b. length b = e \<and> R' ! idx = blit p b (req_to_token (rt_pool s) ! idx)) rows blocks \<and>
    (\<forall>i. i \<notin> fst ` set rows \<longrightarrow> R' ! i = req_to_token (rt_pool s) ! i)"
  using assms
proof (induction rows arbitrary: s locs)
  case Nil
  then show ?case by (intro exI [of _ "[]"] exI [of _ "req_to_token (rt_pool s)"]) (simp add: set_rows_def)
next
  case (Cons row rows)
  obtain idx p e where row: "row = (idx, p, e)" by (cases row)
  let ?R = "req_to_token (rt_pool s)"
  let ?b = "take e locs"
  let ?R1 = "?R[idx := blit p ?b (?R ! idx)]"
  have fit: "idx < length ?R" "p + e \<le> length (?R ! idx)" "idx \<notin> fst ` set rows"
    using Cons.prems(1) row by (auto simp: rows_fit_def)
  have lb: "length ?b = e" using Cons.prems(2) row by simp
  have fit1: "rows_fit (req_to_token (rt_pool (set_rows s ?R1))) rows"
    using Cons.prems(1) fit row lb
    by (fastforce simp: rows_fit_def set_rows_def nth_list_update)
  have len1: "length (drop e locs) = sum_list (map (snd \<circ> snd) rows)"
    using Cons.prems(2) row by (simp add: comp_def)
  obtain blocks R' where IH: "write_rows rows (drop e locs) (set_rows s ?R1) = (Inr (), set_rows (set_rows s ?R1) R')"
    "concat blocks = drop e locs" "length R' = length ?R1"
    "list_all2 (\<lambda>(idx, p, e) b. length b = e \<and> R' ! idx = blit p b (?R1 ! idx)) rows blocks"
    "\<forall>i. i \<notin> fst ` set rows \<longrightarrow> R' ! i = ?R1 ! i"
    using Cons.IH [OF fit1 len1] by (auto simp: set_rows_def)
  have w: "rp_write idx p (p + e) ?b (rt_pool s) = (Inr (), (rt_pool s)\<lparr>req_to_token := ?R1\<rparr>)"
    using rp_write_fit [of idx "rt_pool s" p ?b] fit lb by simp
  have "write_rows (row # rows) locs s = (Inr (), set_rows s R')"
    using w IH(1) row by (simp add: set_rows_def)
  moreover have "concat (?b # blocks) = locs" using IH(2) by simp
  moreover have "list_all2 (\<lambda>(idx, p, e) b. length b = e \<and> R' ! idx = blit p b (?R ! idx)) rows blocks"
  proof (rule list.rel_mono_strong [OF IH(4)])
    have "?R1 ! a = ?R ! a" if "(a, q) \<in> set rows" for a q
    proof -
      have "idx \<noteq> a" using that fit(3) by force
      then show ?thesis by (rule nth_list_update_neq)
    qed
    then show "(\<lambda>(idx, p, e) b. length b = e \<and> R' ! idx = blit p b (?R ! idx)) x b"
      if "x \<in> set rows" "b \<in> set blocks"
        "(\<lambda>(idx, p, e) b. length b = e \<and> R' ! idx = blit p b (?R1 ! idx)) x b" for x b
      using that by (cases x) simp
  qed
  moreover have "R' ! idx = blit p ?b (?R ! idx)" using IH(5) fit by simp
  moreover have "\<forall>i. i \<notin> fst ` set (row # rows) \<longrightarrow> R' ! i = ?R ! i"
    using IH(5) row by (auto simp: nth_list_update)
  moreover have "length R' = length ?R" using IH(3) by simp
  ultimately show ?case
    using row lb by (intro exI [of _ "?b # blocks"] exI [of _ R']) simp
qed

text \<open>The counters after a sequence of increments.\<close>

definition grow :: "(rid \<times> nat) list \<Rightarrow> (rid \<Rightarrow> nat) \<Rightarrow> rid \<Rightarrow> nat" where
  "grow ups l = foldl (\<lambda>l (r, e). l(r := l r + e)) l ups"

lemma grow_Cons [simp]: "grow ((r, e) # ups) l = grow ups (l(r := l r + e))"
  by (simp add: grow_def)

lemma grow_Nil [simp]: "grow [] l = l"
  by (simp add: grow_def)

lemma grow_other: "r \<notin> fst ` set ups \<Longrightarrow> grow ups l r = l r"
  by (induction ups arbitrary: l) auto

lemma grow_at: "distinct (map fst ups) \<Longrightarrow> (r, e) \<in> set ups \<Longrightarrow> grow ups l r = l r + e"
proof (induction ups arbitrary: l)
  case (Cons u ups)
  obtain r' e' where u: "u = (r', e')" by (cases u)
  show ?case
  proof (cases "r' = r")
    case True
    then have "r \<notin> fst ` set ups" using Cons.prems(1) u by simp
    moreover from this have "e' = e" using Cons.prems u True by force
    ultimately show ?thesis using grow_other [of r ups "l(r := l r + e)"] u True by simp
  next
    case False
    then have "grow ups (l(r' := l r' + e')) r = (l(r' := l r' + e')) r + e"
      using Cons.prems u by (intro Cons.IH) auto
    then show ?thesis using u False by simp
  qed
qed simp

lemma bump_Cons:
  "bump_kv_lens ((r, e) # ups) s = bump_kv_lens ups (s\<lparr>kv_lens := AList.update r (kv_len s r + e) (kv_lens s)\<rparr>)"
  by (simp add: bump_kv_lens_def)

lemma bump_frame:
  "pool_indices (bump_kv_lens ups s) = pool_indices s \<and> rt_pool (bump_kv_lens ups s) = rt_pool s \<and>
   kv_pool (bump_kv_lens ups s) = kv_pool s \<and> kv_len (bump_kv_lens ups s) = grow ups (kv_len s)"
proof (induction ups arbitrary: s)
  case Nil
  then show ?case by (simp add: bump_kv_lens_def)
next
  case (Cons u ups)
  then show ?case by (cases u) (simp add: bump_Cons kv_len_set_len del: fun_upd_apply)
qed

lemma bump_tables:
  assumes "tables_ok s" "distinct (map fst ups)"
    "\<forall>(r, e) \<in> set ups. map_of (pool_indices s) r \<noteq> None \<and> kv_len s r + e \<le> max_context_len (rt_pool s)"
  shows "tables_ok (bump_kv_lens ups s)"
  using assms
proof (induction ups arbitrary: s)
  case (Cons u ups)
  obtain r e where u: "u = (r, e)" by (cases u)
  let ?s = "s\<lparr>kv_lens := AList.update r (kv_len s r + e) (kv_lens s)\<rparr>"
  have "tables_ok ?s"
    using Cons.prems u by (auto intro: tables_ok_set_len)
  moreover have "\<forall>(r', e') \<in> set ups. map_of (pool_indices ?s) r' \<noteq> None \<and> kv_len ?s r' + e' \<le> max_context_len (rt_pool ?s)"
    using Cons.prems(2,3) u by (force simp: kv_len_set_len)
  ultimately show ?case using Cons.IH [of ?s] Cons.prems(2) u by (simp add: bump_Cons)
qed (simp add: bump_kv_lens_def)

lemma owned_grow:
  assumes "tables_ok s" "distinct (map fst ups)"
    "\<forall>(r, b) \<in> set ups. \<exists>i. map_of (pool_indices s) r = Some i \<and>
       take (l r + length b) (req_to_token (rt_pool s) ! i) = take (l r) (req_to_token (rt_pool s) ! i) @ b"
  shows "mset (owned_with (grow (map (\<lambda>(r, b). (r, length b)) ups) l) s)
    = mset (owned_with l s) + mset (concat (map snd ups))"
  using assms(2,3)
proof (induction ups arbitrary: l)
  case (Cons u ups)
  obtain r b where u: "u = (r, b)" by (cases u)
  let ?l = "l(r := l r + length b)"
  obtain i where i: "map_of (pool_indices s) r = Some i"
    "take (l r + length b) (req_to_token (rt_pool s) ! i) = take (l r) (req_to_token (rt_pool s) ! i) @ b"
    using Cons.prems(2) u by auto
  have "mset (owned_with ?l s) = mset (owned_with l s) + mset b"
    using owned_with_fun_upd [OF assms(1) i(1), of l "l r + length b"] i(2) by simp
  moreover have "mset (owned_with (grow (map (\<lambda>(r, b). (r, length b)) ups) ?l) s)
      = mset (owned_with ?l s) + mset (concat (map snd ups))"
  proof (rule Cons.IH)
    have "r' \<noteq> r" if "(r', b') \<in> set ups" for r' b' using Cons.prems(1) u that by force
    then show "\<forall>(r', b') \<in> set ups. \<exists>i. map_of (pool_indices s) r' = Some i \<and>
       take (?l r' + length b') (req_to_token (rt_pool s) ! i) = take (?l r') (req_to_token (rt_pool s) ! i) @ b'"
      using Cons.prems(2) by auto
  qed (use Cons.prems(1) in simp)
  ultimately show ?case using u by simp
qed simp

text \<open>What callers of an extension pass: distinct requests, one token list each, room in the rows.\<close>

definition extend_ok :: "lvm \<Rightarrow> rid list \<Rightarrow> int list list \<Rightarrow> bool" where
  "extend_ok s rids toks \<longleftrightarrow> distinct rids \<and> length toks = length rids \<and>
     (\<forall>(r, ts) \<in> set (zip rids toks). kv_len s r + length ts \<le> max_context_len (rt_pool s))"

lemma rows_fit_lookup:
  assumes t: "tables_ok s" and lk: "map (map_of (pool_indices s)) rids = map Some idxs" and ok: "extend_ok s rids toks"
  shows "rows_fit (req_to_token (rt_pool s)) (zip idxs (zip (map (kv_len s) rids) (map length toks)))"
proof -
  have len: "length idxs = length rids" using arg_cong [OF lk, of length] by simp
  have lk': "map_of (pool_indices s) (rids ! k) = Some (idxs ! k)" if "k < length rids" for k
    using arg_cong [OF lk, of "\<lambda>xs. xs ! k"] that len by simp
  have mem: "(rids ! k, idxs ! k) \<in> set (pool_indices s)" if "k < length rids" for k
    using lk' [OF that] by (rule map_of_SomeD)
  have inj: "j = k" if "j < length rids" "k < length rids" "idxs ! j = idxs ! k" for j k
  proof -
    have "rids ! j = rids ! k"
      using mem [OF that(1)] mem [OF that(2)] that(3) tables_okD(3) [OF t]
      by (metis distinct_map inj_onD prod.inject snd_conv)
    then show ?thesis using ok that by (simp add: extend_ok_def nth_eq_iff_index_eq)
  qed
  have d: "distinct idxs" unfolding distinct_conv_nth using inj len by auto
  have fits: "idxs ! k < length (req_to_token (rt_pool s)) \<and>
      kv_len s (rids ! k) + length (toks ! k) \<le> length (req_to_token (rt_pool s) ! (idxs ! k))" if "k < length rids" for k
  proof -
    have "(rids ! k, toks ! k) \<in> set (zip rids toks)" using ok that by (force simp: extend_ok_def in_set_zip)
    then show ?thesis
      using ok tables_okD(4) [OF t mem [OF that]] tables_okD(5) [OF t] by (auto simp: extend_ok_def)
  qed
  show ?thesis
    unfolding rows_fit_def using d fits len ok
    by (auto simp: in_set_zip extend_ok_def)
qed

lemma take_blit: "p + length b \<le> length row \<Longrightarrow> take (p + length b) (blit p b row) = take p (blit p b row) @ b"
  by (simp add: blit_def)

text \<open>
  Writing the new slots and then raising the counters hands the allocated slots to the
  requests, each its own block.
\<close>

lemma extend_commit:
  assumes inv: "lvm_inv all (lost + mset xs) s" and lk: "map (map_of (pool_indices s)) rids = map Some idxs"
    and ok: "extend_ok s rids toks" and xs: "length xs = sum_list (map length toks)"
  obtains blocks s3 where "write_rows (zip idxs (zip (map (kv_len s) rids) (map length toks))) xs s = (Inr (), s3)"
    "concat blocks = xs" "map length blocks = map length toks"
    "lvm_inv all lost (bump_kv_lens (zip rids (map length toks)) s3)"
    "kv_len (bump_kv_lens (zip rids (map length toks)) s3) = grow (zip rids (map length toks)) (kv_len s)"
    "pool_indices s3 = pool_indices s"
    "\<forall>k < length rids. owned (bump_kv_lens (zip rids (map length toks)) s3) (rids ! k) = owned s (rids ! k) @ blocks ! k"
    "\<forall>r. r \<notin> set rids \<longrightarrow> owned (bump_kv_lens (zip rids (map length toks)) s3) r = owned s r"
proof -
  let ?rows = "zip idxs (zip (map (kv_len s) rids) (map length toks))"
  let ?ups = "zip rids (map length toks)"
  have t: "tables_ok s" using inv by (simp add: lvm_inv_def)
  have len: "length idxs = length rids" "length toks = length rids" "distinct rids"
    using arg_cong [OF lk, of length] ok by (simp_all add: extend_ok_def)
  have lk': "map_of (pool_indices s) (rids ! k) = Some (idxs ! k)" if "k < length rids" for k
    using arg_cong [OF lk, of "\<lambda>xs. xs ! k"] that len by simp
  note fit = rows_fit_lookup [OF t lk ok]
  have sl: "sum_list (map (snd \<circ> snd) ?rows) = length xs"
  proof -
    have "map (snd \<circ> snd) ?rows = map length toks" using len by (intro nth_equalityI) simp_all
    then show ?thesis using xs by simp
  qed
  obtain blocks R' where B: "write_rows ?rows xs s = (Inr (), set_rows s R')" "concat blocks = xs"
    "length R' = length (req_to_token (rt_pool s))"
    "list_all2 (\<lambda>(idx, p, e) b. length b = e \<and> R' ! idx = blit p b (req_to_token (rt_pool s) ! idx)) ?rows blocks"
    "\<forall>i. i \<notin> fst ` set ?rows \<longrightarrow> R' ! i = req_to_token (rt_pool s) ! i"
    using write_rows_content [OF fit sl [symmetric]] by blast
  let ?s3 = "set_rows s R'"
  have inv3: "lvm_inv all (lost + mset xs) ?s3" "kv_len ?s3 = kv_len s" "pool_indices ?s3 = pool_indices s"
    "max_context_len (rt_pool ?s3) = max_context_len (rt_pool s)" "\<forall>r. owned ?s3 r = owned s r"
    using write_rows_keeps [OF inv B(1) rows_past_lookup [OF t lk]]
      write_rows_owned [OF inv B(1) rows_past_lookup [OF t lk]] by blast+
  have lb: "length blocks = length rids" using list_all2_lengthD [OF B(4)] len by simp
  have Bk: "length (blocks ! k) = length (toks ! k)"
    "R' ! (idxs ! k) = blit (kv_len s (rids ! k)) (blocks ! k) (req_to_token (rt_pool s) ! (idxs ! k))"
    if "k < length rids" for k
    using list_all2_nthD [OF B(4), of k] that len by simp_all
  have grown: "take (kv_len s (rids ! k) + length (blocks ! k)) (R' ! (idxs ! k))
      = take (kv_len s (rids ! k)) (R' ! (idxs ! k)) @ blocks ! k" if "k < length rids" for k
  proof -
    have "(idxs ! k, kv_len s (rids ! k), length (toks ! k)) \<in> set ?rows"
      using that len by (force simp: in_set_zip)
    then have "kv_len s (rids ! k) + length (blocks ! k) \<le> length (req_to_token (rt_pool s) ! (idxs ! k))"
      using fit Bk(1) [OF that] by (auto simp: rows_fit_def)
    then show ?thesis unfolding Bk(2) [OF that] by (rule take_blit)
  qed
  have lens: "map length blocks = map length toks" using Bk(1) lb len by (intro nth_equalityI) simp_all
  have ups: "map (\<lambda>(r, b). (r, length b)) (zip rids blocks) = ?ups"
    using lb len Bk(1) by (intro nth_equalityI) simp_all
  let ?s4 = "bump_kv_lens ?ups ?s3"
  note f = bump_frame [of ?ups ?s3]
  have t4: "tables_ok ?s4"
  proof (rule bump_tables)
    show "\<forall>(r, e) \<in> set ?ups. map_of (pool_indices ?s3) r \<noteq> None \<and> kv_len ?s3 r + e \<le> max_context_len (rt_pool ?s3)"
      using ok lk' len inv3(2-4) unfolding extend_ok_def by (fastforce simp: in_set_zip)
  qed (use inv3(1) len in \<open>simp_all add: lvm_inv_def\<close>)
  have "mset (owned_with (grow ?ups (kv_len s)) ?s3) = mset (owned_with (kv_len s) ?s3) + mset xs"
  proof -
    have "tables_ok ?s3" using inv3(1) by (simp add: lvm_inv_def)
    moreover have "distinct (map fst (zip rids blocks))" using len lb by simp
    moreover have "\<forall>(r, b) \<in> set (zip rids blocks). \<exists>i. map_of (pool_indices ?s3) r = Some i \<and>
       take (kv_len s r + length b) (req_to_token (rt_pool ?s3) ! i) = take (kv_len s r) (req_to_token (rt_pool ?s3) ! i) @ b"
      using grown lk' lb by (auto simp: in_set_zip set_rows_def)
    ultimately show ?thesis using owned_grow [of ?s3 "zip rids blocks" "kv_len s"] lb B(2) unfolding ups by simp
  qed
  moreover have "owned_with l ?s4 = owned_with l ?s3" for l using f by (simp add: owned_with_def)
  ultimately have inv4: "lvm_inv all lost ?s4"
    using inv3(1,2) t4 f by (simp add: lvm_inv_def slots_ok_def ac_simps)
  have own: "owned ?s4 (rids ! k) = owned s (rids ! k) @ blocks ! k" if "k < length rids" for k
  proof -
    have "(rids ! k, length (toks ! k)) \<in> set ?ups" using that len by (force simp: in_set_zip)
    then have "kv_len ?s4 (rids ! k) = kv_len s (rids ! k) + length (blocks ! k)"
      using grow_at [of ?ups "rids ! k" "length (toks ! k)"] f inv3(2) len Bk(1) [OF that] by simp
    moreover have "take (kv_len s (rids ! k)) (R' ! (idxs ! k)) = owned s (rids ! k)"
      using inv3(2,3) spec [OF inv3(5), of "rids ! k"] lk' [OF that]
      by (simp add: owned_def) (simp add: set_rows_def)
    ultimately show ?thesis using grown [OF that] lk' [OF that] f inv3(3) by (simp add: owned_def set_rows_def)
  qed
  have oth: "owned ?s4 r = owned s r" if "r \<notin> set rids" for r
  proof -
    have "kv_len ?s4 r = kv_len s r" using that f inv3(2) len grow_other [of r ?ups] by (simp add: set_zip_leftD image_iff) (metis in_set_zipE prod.collapse)
    then show ?thesis using f inv3 by (metis owned_frame)
  qed
  show ?thesis
    by (rule that [OF B(1,2) lens inv4 _ inv3(3)]) (use f inv3(2) own oth in simp_all)
qed

lemma extend_okay_frame:
  "kv_len s1 = kv_len s \<Longrightarrow> max_context_len (rt_pool s1) = max_context_len (rt_pool s) \<Longrightarrow>
   extend_ok s1 rids toks = extend_ok s rids toks"
  by (simp add: extend_ok_def)

text \<open>
  The outcomes of an extension. On an exception the counters and the slots of every request
  are as before; the slots allocated, if the exception came later than the allocation, are
  lost.
\<close>

lemma extend_cases:
  assumes inv: "lvm_inv all lost s" and ok: "extend_ok s rids toks"
    and run: "extend_prefix_batch env rids toks mms deltas s = (res, s')"
  shows "(\<exists>e. res = Inl e \<and> kv_len s' = kv_len s \<and> (\<forall>r. owned s' r = owned s r) \<and>
       (lvm_inv all lost s' \<or>
        (\<exists>xs. lvm_inv all (lost + mset xs) s' \<and> length xs = sum_list (map length toks))))
    \<or> (\<exists>blocks. res = Inr () \<and> lvm_inv all lost s' \<and> map length blocks = map length toks \<and>
       kv_len s' = grow (zip rids (map length toks)) (kv_len s) \<and>
       (\<forall>k < length rids. owned s' (rids ! k) = owned s (rids ! k) @ blocks ! k) \<and>
       (\<forall>r. r \<notin> set rids \<longrightarrow> owned s' r = owned s r))"
    (is "?failed \<or> ?done")
proof (cases "rids = []")
  case True
  then show ?thesis using run inv ok by (auto simp: extend_prefix_batch_def extend_ok_def)
next
  case rne: False
  obtain a s1 where get: "run_all get_or_alloc rids s = (a, s1)" by (cases "run_all get_or_alloc rids s")
  note g = get_or_alloc_all_keeps [OF inv get]
  have o1: "owned s1 r = owned s r" for r
  proof (cases "map_of (pool_indices s) r")
    case None
    then show ?thesis
      using kv_len_absent [of s r] inv g by (simp add: owned_def lvm_inv_def split: option.split)
  next
    case (Some i)
    then have "map_of (pool_indices s1) r = Some i" using g by (metis domI map_le_def)
    then show ?thesis using g Some by (simp add: owned_def)
  qed
  have ok1: "extend_ok s1 rids toks" using ok g extend_okay_frame by blast
  have len: "length toks = length rids" using ok by (simp add: extend_ok_def)
  show ?thesis
  proof (cases a)
    case (Inl e)
    then have ?failed using run rne get g o1 by (auto simp: extend_prefix_batch_def)
    then show ?thesis ..
  next
    case (Inr idxs)
    let ?ps = "map (kv_len s1) rids" and ?es = "map length toks"
    show ?thesis
    proof (cases "sum_list ?es = 0")
      case True
      then have z: "\<forall>ts \<in> set toks. ts = []" by simp
      have "s' = s1" "res = Inr ()" using run rne get Inr True len by (simp_all add: extend_prefix_batch_def Let_def)
      moreover have "grow (zip rids ?es) l = l" for l
      proof
        fix r
        show "grow (zip rids ?es) l r = l r"
        proof (cases "r \<in> fst ` set (zip rids ?es)")
          case True
          then obtain e where e: "(r, e) \<in> set (zip rids ?es)" by force
          then have "e = 0" using z by (auto dest!: set_zip_rightD)
          then show ?thesis using grow_at [OF _ e, of l] ok by (simp add: extend_ok_def)
        next
          case False
          then show ?thesis by (rule grow_other)
        qed
      qed
      ultimately have ?done using g o1 z len by (intro exI [of _ toks]) auto
      then show ?thesis by simp
    next
      case pos: False
      obtain b s2 where al: "kv_alloc_for (e_hw env) (extend_last_loc s1 (zip idxs ?ps)) ?ps (map2 (+) ?ps ?es) (sum_list ?es) s1 = (b, s2)"
        by (cases "kv_alloc_for (e_hw env) (extend_last_loc s1 (zip idxs ?ps)) ?ps (map2 (+) ?ps ?es) (sum_list ?es) s1")
      have inv1: "lvm_inv all lost s1" using g by blast
      note k = kv_alloc_for_keeps [OF inv1 al]
      have o2: "owned s2 = owned s1" using k by (intro owned_eqI)
      have lk: "map (map_of (pool_indices s2)) rids = map Some idxs" using g Inr k by simp
      have ok2: "extend_ok s2 rids toks" using ok1 k extend_okay_frame [of s2 s1] by simp
      from k(1) show ?thesis
      proof (elim disjE exE conjE)
        assume "b = Inr None" "lvm_inv all lost s2"
        then have "s' = s2" "res = Inl RuntimeError" using run rne get Inr len pos al
          by (simp_all add: extend_prefix_batch_def Let_def del: sum_list_eq_0_iff)
        then have ?failed using k g o1 o2 \<open>lvm_inv all lost s2\<close> by simp
        then show ?thesis ..
      next
        fix xs assume xs: "b = Inr (Some xs)" "length xs = sum_list ?es" "lvm_inv all (lost + mset xs) s2"
        have ps2: "map (kv_len s2) rids = ?ps" using k by simp
        obtain blocks s3 where c: "write_rows (zip idxs (zip ?ps ?es)) xs s2 = (Inr (), s3)"
          "concat blocks = xs" "map length blocks = ?es" "lvm_inv all lost (bump_kv_lens (zip rids ?es) s3)"
          "kv_len (bump_kv_lens (zip rids ?es) s3) = grow (zip rids ?es) (kv_len s2)"
          "\<forall>k < length rids. owned (bump_kv_lens (zip rids ?es) s3) (rids ! k) = owned s2 (rids ! k) @ blocks ! k"
          "\<forall>r. r \<notin> set rids \<longrightarrow> owned (bump_kv_lens (zip rids ?es) s3) r = owned s2 r"
          using extend_commit [OF xs(3) lk ok2 xs(2)] unfolding ps2 by blast
        have past: "rows_past s2 (zip idxs (zip ?ps ?es))"
          using rows_past_lookup [OF _ lk] xs(3) ps2 by (simp add: lvm_inv_def)
        note w = write_rows_keeps [OF xs(3) c(1) past] write_rows_owned [OF xs(3) c(1) past]
        have out: "(\<exists>e. res = Inl e) \<and> s' = s3 \<or> res = Inr () \<and> s' = bump_kv_lens (zip rids ?es) s3"
          using run rne get Inr len pos al xs c(1)
          by (auto simp: extend_prefix_batch_def Let_def simp del: sum_list_eq_0_iff split: sum.splits prod.splits)
        then show ?thesis
        proof
          assume "(\<exists>e. res = Inl e) \<and> s' = s3"
          then have ?failed using w xs k g o1 o2 by auto
          then show ?thesis ..
        next
          assume "res = Inr () \<and> s' = bump_kv_lens (zip rids ?es) s3"
          then have ?done using c k g o1 o2 by (intro exI [of _ blocks]) simp
          then show ?thesis ..
        qed
      qed
    qed
  qed
qed

end
