(* ===== verification/ProviderSafety.thy ===== *)
theory ProviderSafety
  imports GuidedSampler LvmKvSafety
begin

text \<open>
  The in-process provider on top of the runner's bookkeeping: bringing the caches of a batch
  to their prefixes is a run of the runner, so its safety results carry over, and leaves
  every cache exactly as long as its prefix.
\<close>


lemma kv_len_known: "tables_ok s \<Longrightarrow> 0 < kv_len s r \<Longrightarrow> \<exists>i. map_of (pool_indices s) r = Some i"
proof -
  assume t: "tables_ok s" and "0 < kv_len s r"
  then have "map_of (kv_lens s) r \<noteq> None" by (auto simp: kv_len_def split: option.splits)
  then have "r \<in> fst ` set (kv_lens s)" by (metis map_of_eq_None_iff)
  then have "r \<in> set (map fst (pool_indices s))" using tables_okD(2)[OF t] by (metis list.set_map)
  then show ?thesis by (metis list.set_map map_of_eq_None_iff not_None_eq)
qed

text \<open>The plan of an extension: retracted caches, and the missing suffix of each shorter one.\<close>

definition planned :: "lvm \<Rightarrow> (rid \<times> int list) list \<Rightarrow> (rid \<times> int list) list" where
  "planned s xs = map (\<lambda>(r, p). (r, drop (kv_len s r) p)) (filter (\<lambda>(r, p). kv_len s r < length p) xs)"

definition cut_lens :: "lvm \<Rightarrow> (rid \<times> int list) list \<Rightarrow> rid \<Rightarrow> nat" where
  "cut_lens s xs r = (case map_of xs r of Some p \<Rightarrow> min (kv_len s r) (length p) | None \<Rightarrow> kv_len s r)"

lemma planned_cong: "\<forall>r \<in> fst ` set xs. kv_len s r = kv_len s' r \<Longrightarrow> planned s xs = planned s' xs"
  unfolding planned_def by (intro map_cong filter_cong) (auto simp: image_iff)

lemma extend_plan_ok:
  assumes "lvm_inv all lost (ip_lvm ip)" "distinct (map fst xs)" "extend_plan xs ip = (res, ip')"
  shows "\<exists>plan. res = Inr plan \<and> map (\<lambda>(r, t, _). (r, t)) plan = planned (ip_lvm ip) (map (\<lambda>(r, p, _). (r, p)) xs) \<and>
    lvm_inv all lost (ip_lvm ip') \<and> lvm_run env (ip_lvm ip) (ip_lvm ip') \<and> rt_pool (ip_lvm ip') = rt_pool (ip_lvm ip) \<and>
    pool_indices (ip_lvm ip') = pool_indices (ip_lvm ip) \<and>
    kv_len (ip_lvm ip') = cut_lens (ip_lvm ip) (map (\<lambda>(r, p, _). (r, p)) xs)"
  using assms
proof (induction xs arbitrary: ip res ip')
  case Nil
  then show ?case by (auto simp: planned_def cut_lens_def lvm_run_def)
next
  case (Cons x xs)
  obtain r p req where x: "x = (r, p, req)" by (cases x)
  let ?s = "ip_lvm ip" and ?ys = "map (\<lambda>(r, p, _). (r, p)) xs"
  have t: "tables_ok ?s" using Cons.prems(1) by (simp add: lvm_inv_def)
  have r: "r \<notin> fst ` set ?ys" and dx: "distinct (map fst xs)" using Cons.prems(2) by (force simp: x)+
  have m: "map_of ?ys r = None" using r by (simp add: map_of_eq_None_iff)
  consider (shorter) "length p < kv_len ?s r" | (longer) "kv_len ?s r < length p" | (same) "length p = kv_len ?s r"
    by linarith
  then show ?case
  proof cases
    case shorter
    obtain i where "map_of (pool_indices ?s) r = Some i" using kv_len_known[OF t, of r] shorter by auto
    then obtain s1 where s1: "retract r (length p) ?s = (Inr (), s1)" "lvm_inv all lost s1" "rt_pool s1 = rt_pool ?s"
      "pool_indices s1 = pool_indices ?s" "kv_len s1 = (kv_len ?s)(r := min (length p) (kv_len ?s r))"
      using retract_keeps[OF Cons.prems(1)] by blast
    have e: "extend_plan xs (ip\<lparr>ip_lvm := s1\<rparr>) = (res, ip')"
      using Cons.prems(3) shorter s1(1) by (simp add: x)
    have st: "lvm_run env ?s s1"
      using step_retract[OF s1(1), of env] unfolding lvm_run_def by (intro r_into_rtranclp exI)
    have "planned s1 ?ys = planned ?s ?ys" using r s1(5) by (intro planned_cong) (metis fun_upd_other)
    moreover have "cut_lens s1 ?ys = cut_lens ?s ((r, p) # ?ys)"
      using m s1(5) by (auto simp: cut_lens_def fun_eq_iff split: option.splits)
    moreover have "planned ?s ((r, p) # ?ys) = planned ?s ?ys" using shorter by (simp add: planned_def)
    ultimately show ?thesis
      using Cons.IH[OF _ dx e] s1 st unfolding lvm_run_def by (auto simp: x intro: rtranclp_trans)
  next
    case longer
    define mm where "mm = (if ip_is_vlm ip \<and> kv_len ?s r = 0 then multimodal_inputs req else None)"
    define ip1 where "ip1 = (case mm of None \<Rightarrow> ip
        | Some m \<Rightarrow> (case mrope_position_delta m of None \<Rightarrow> ip
                    | Some d \<Rightarrow> ip\<lparr>ip_deltas := AList.update r d (ip_deltas ip)\<rparr>))"
    have l1: "ip_lvm ip1 = ?s" by (simp add: ip1_def split: option.splits)
    obtain res1 ip2 where e: "extend_plan xs ip1 = (res1, ip2)" by fastforce
    have inv1: "lvm_inv all lost (ip_lvm ip1)" using Cons.prems(1) l1 by simp
    obtain plan where plan: "res1 = Inr plan"
      "map (\<lambda>(r, t, _). (r, t)) plan = planned ?s ?ys" "lvm_inv all lost (ip_lvm ip2)"
      "lvm_run env ?s (ip_lvm ip2)" "rt_pool (ip_lvm ip2) = rt_pool ?s"
      "pool_indices (ip_lvm ip2) = pool_indices ?s" "kv_len (ip_lvm ip2) = cut_lens ?s ?ys"
      using Cons.IH[OF inv1 dx e] unfolding l1 by blast
    have "(res, ip') = (Inr ((r, drop (kv_len ?s r) p, mm) # plan), ip2)"
      using Cons.prems(3) longer e plan(1) by (simp add: x Let_def mm_def[symmetric] ip1_def[symmetric])
    moreover have "cut_lens ?s ((r, p) # ?ys) = cut_lens ?s ?ys"
      using m longer by (auto simp: cut_lens_def fun_eq_iff)
    ultimately show ?thesis using plan longer by (auto simp: x planned_def)
  next
    case same
    have e: "extend_plan xs ip = (res, ip')" using Cons.prems(3) same by (simp add: x)
    have "cut_lens ?s ((r, p) # ?ys) = cut_lens ?s ?ys"
      using m same by (auto simp: cut_lens_def fun_eq_iff)
    then show ?thesis using Cons.IH[OF Cons.prems(1) dx e] same by (simp add: x planned_def)
  qed
qed

lemma planned_nth:
  assumes "distinct (map fst xs)" "(r, p) \<in> set xs"
  shows "kv_len s r < length p \<Longrightarrow> (r, drop (kv_len s r) p) \<in> set (planned s xs)"
    "\<not> kv_len s r < length p \<Longrightarrow> r \<notin> fst ` set (planned s xs)"
proof -
  show "kv_len s r < length p \<Longrightarrow> (r, drop (kv_len s r) p) \<in> set (planned s xs)"
    using assms(2) by (force simp: planned_def)
  have "q = p" if "(r, q) \<in> set xs" for q using assms that by (metis eq_key_imp_eq_value)
  then show "\<not> kv_len s r < length p \<Longrightarrow> r \<notin> fst ` set (planned s xs)"
    by (auto simp: planned_def)
qed

lemma planned_fst: "fst ` set (planned s xs) \<subseteq> fst ` set xs" "distinct (map fst xs) \<Longrightarrow> distinct (map fst (planned s xs))"
proof -
  show "fst ` set (planned s xs) \<subseteq> fst ` set xs" by (force simp: planned_def)
  have "map fst (planned s xs) = map fst (filter (\<lambda>(r, p). kv_len s r < length p) xs)"
    by (simp add: planned_def case_prod_unfold)
  then show "distinct (map fst xs) \<Longrightarrow> distinct (map fst (planned s xs))" by (simp add: distinct_map_filter)
qed

lemma owned_cut:
  assumes "rt_pool s' = rt_pool s" "pool_indices s' = pool_indices s" "kv_len s' r \<le> kv_len s r"
  shows "owned s' r = take (kv_len s' r) (owned s r)"
  using assms by (auto simp: owned_def min_def split: option.splits)


definition demo_ip :: inproc where
  "demo_ip = \<lparr>ip_lvm = demo_s2, ip_is_vlm = False, ip_deltas = []\<rparr>"


end
