(* ===== verification/XFloat.thy ===== *)
theory XFloat
  imports GuidanceParams
begin

text \<open>
  Arithmetic of floating-point numbers without rounding: real numbers, the two infinities
  and not-a-number, with the rules of IEEE 754 for the latter. Signed zeros are not
  distinguished. Sums of finite numbers are the sums of the real numbers they hold.
\<close>

definition x_inf :: "bool \<Rightarrow> xfloat" where
  "x_inf positive = (if positive then PosInf else NegInf)"

fun x_mul :: "xfloat \<Rightarrow> xfloat \<Rightarrow> xfloat" where
  "x_mul NaN y = NaN"
| "x_mul x NaN = NaN"
| "x_mul (Fin a) (Fin b) = Fin (a * b)"
| "x_mul (Fin a) PosInf = (if a = 0 then NaN else x_inf (a > 0))"
| "x_mul (Fin a) NegInf = (if a = 0 then NaN else x_inf (a < 0))"
| "x_mul PosInf (Fin b) = (if b = 0 then NaN else x_inf (b > 0))"
| "x_mul NegInf (Fin b) = (if b = 0 then NaN else x_inf (b < 0))"
| "x_mul PosInf PosInf = PosInf"
| "x_mul PosInf NegInf = NegInf"
| "x_mul NegInf PosInf = NegInf"
| "x_mul NegInf NegInf = PosInf"

fun x_neg :: "xfloat \<Rightarrow> xfloat" where
  "x_neg (Fin a) = Fin (- a)"
| "x_neg PosInf = NegInf"
| "x_neg NegInf = PosInf"
| "x_neg NaN = NaN"

fun x_add :: "xfloat \<Rightarrow> xfloat \<Rightarrow> xfloat" where
  "x_add NaN y = NaN"
| "x_add x NaN = NaN"
| "x_add (Fin a) (Fin b) = Fin (a + b)"
| "x_add PosInf NegInf = NaN"
| "x_add NegInf PosInf = NaN"
| "x_add PosInf y = PosInf"
| "x_add NegInf y = NegInf"
| "x_add x PosInf = PosInf"
| "x_add x NegInf = NegInf"

definition x_sub :: "xfloat \<Rightarrow> xfloat \<Rightarrow> xfloat" where
  "x_sub x y = x_add x (x_neg y)"

fun x_abs :: "xfloat \<Rightarrow> xfloat" where
  "x_abs (Fin a) = Fin \<bar>a\<bar>"
| "x_abs NaN = NaN"
| "x_abs _ = PosInf"

text \<open>Division by a positive real number.\<close>

definition x_div :: "xfloat \<Rightarrow> real \<Rightarrow> xfloat" where
  "x_div x c = x_mul x (Fin (1 / c))"

definition x_sum :: "xfloat list \<Rightarrow> xfloat" where
  "x_sum xs = foldr x_add xs (Fin 0)"

lemma x_sum_simps [simp]: "x_sum [] = Fin 0" "x_sum (x # xs) = x_add x (x_sum xs)"
  by (simp_all add: x_sum_def)

lemma x_sum_Fin: "x_sum (map Fin rs) = Fin (sum_list rs)"
  by (induction rs) simp_all

lemma x_add_NaN [simp]: "x_add x NaN = NaN"
  by (cases x) simp_all

lemma x_mul_NaN [simp]: "x_mul x NaN = NaN"
  by (cases x) simp_all

lemma x_sum_NaN: "NaN \<in> set xs \<Longrightarrow> x_sum xs = NaN"
  by (induction xs) auto

lemma x_sub_Fin [simp]: "x_sub (Fin a) (Fin b) = Fin (a - b)"
  by (simp add: x_sub_def)

lemma x_div_Fin [simp]: "x_div (Fin a) c = Fin (a / c)" "x_div NaN c = NaN"
  by (simp_all add: x_div_def)

lemma x_add_assoc: "x_add (x_add x y) z = x_add x (x_add y z)"
  by (cases x; cases y; cases z) simp_all

lemma x_add_commute: "x_add x y = x_add y x"
  by (cases x; cases y) simp_all

lemma x_add_0 [simp]: "x_add (Fin 0) x = x" "x_add x (Fin 0) = x"
  by (cases x; simp)+

lemma x_sum_append: "x_sum (xs @ ys) = x_add (x_sum xs) (x_sum ys)"
  by (induction xs) (simp_all add: x_add_assoc)

lemma x_sum_concat: "x_sum (concat xss) = x_sum (map x_sum xss)"
  by (induction xss) (simp_all add: x_sum_append)

lemma x_div_add: "0 < c \<Longrightarrow> x_div (x_add x y) c = x_add (x_div x c) (x_div y c)"
  by (cases x; cases y) (simp_all add: x_div_def x_inf_def add_divide_distrib)

lemma x_div_sum: "0 < c \<Longrightarrow> x_div (x_sum xs) c = x_sum (map (\<lambda>x. x_div x c) xs)"
  by (induction xs) (simp_all add: x_div_add)

end
