(* ===== verification/Sampler.thy ===== *)
theory Sampler
  imports GuidedSampler XFloat "HOL-Library.Word"
begin

unbundle bit_operations_syntax

text \<open>
  The parts of \<open>srt/layers/sampler.py\<close> around guidance: the per-token temperature scaling
  of the logits, the choice between sampling directly and sampling with filters, the
  sorted top-k/top-p/min-p filter of the native sampler, and the seeded multinomial draw.
  Logits may be infinite or not a number (\<open>xfloat\<close>), probabilities are real numbers; seeds
  and positions are 64-bit words, whose products wrap as in \<open>torch.int64\<close>.
\<close>

section \<open>Token temperatures\<close>

text \<open>\<open>logits[i, ids_v] = logits[i, ids_v] * div_v\<close>: all entries are read before any is written.\<close>

definition scale_row :: "int list \<Rightarrow> xfloat list \<Rightarrow> xfloat list \<Rightarrow> xfloat list" where
  "scale_row ids divs row =
     foldl (\<lambda>r (t, d). r[nat t := x_mul (row ! nat t) d]) row
       (filter (\<lambda>(t, d). 0 \<le> t \<and> t < int (length row)) (zip ids divs))"

definition temp_scale_row :: "py_lib \<Rightarrow> xfloat list \<Rightarrow> (greq, xfloat list) run" where
  "temp_scale_row lib row req =
     (case extract_token_temperature_scale lib req of
        (Inl e, r) \<Rightarrow> (Inl e, r)
      | (Inr None, r) \<Rightarrow> (Inr row, r)
      | (Inr (Some m), r) \<Rightarrow>
          if m = [] then (Inr row, r)
          else (case temp_tensors r of
                  Some (ids, divs) \<Rightarrow> (Inr (scale_row ids divs row), r)
                | None \<Rightarrow> (Inr (scale_row (map fst m) (map snd m) row),
                           r\<lparr>temp_tensors := Some (map fst m, map snd m)\<rparr>)))"

text \<open>The batch: rows scaled so far stay scaled when a later request raises.\<close>

fun apply_token_temp_scale :: "py_lib \<Rightarrow> ((xfloat list \<times> greq) list, unit) run" where
  "apply_token_temp_scale lib [] = (Inr (), [])"
| "apply_token_temp_scale lib ((row, req) # rest) =
     (case temp_scale_row lib row req of
        (Inl e, r) \<Rightarrow> (Inl e, (row, r) # rest)
      | (Inr row', r) \<Rightarrow>
          (case apply_token_temp_scale lib rest of (res, rest') \<Rightarrow> (res, (row', r) # rest')))"

section \<open>The native filter\<close>

text \<open>
  \<open>top_k_top_p_min_p_sampling_from_probs_torch\<close> up to the draw: the sorted row with the
  filtered entries zeroed. The cumulative sums are taken before top-k is applied.
\<close>

definition sampler_filter :: "bool \<Rightarrow> real list \<Rightarrow> int \<Rightarrow> real \<Rightarrow> real \<Rightarrow> real list" where
  "sampler_filter need_min_p probs_sort top_k top_p min_p =
     (let probs_sum = cumsum_from 0 probs_sort;
          s1 = map (\<lambda>j. if int j \<ge> top_k then 0 else probs_sort ! j) [0 ..< length probs_sort];
          s2 = map2 (\<lambda>c v. if c - v > top_p then 0 else v) probs_sum s1
      in if need_min_p then map (\<lambda>v. if v < s2 ! 0 * min_p then 0 else v) s2 else s2)"

definition top_p_normalize_probs :: "torch_ops \<Rightarrow> real list \<Rightarrow> real \<Rightarrow> real list" where
  "top_p_normalize_probs tk probs top_p =
     (let s = sort_desc tk probs; kept = keep_top_p top_p (map fst s)
      in scatter (length probs) (zip (map snd s) (map (\<lambda>x. x / sum_list kept) kept)))"

section \<open>The seeded draw\<close>

definition seed_hash :: "64 word \<Rightarrow> 64 word \<Rightarrow> nat \<Rightarrow> 64 word" where
  "seed_hash seed position col =
     ((seed * 19349663 XOR position * 73856093) * 8589934591) XOR (of_nat col * 479001599)"

definition uniform_sample :: "64 word \<Rightarrow> real" where
  "uniform_sample h = min (max (real_of_int (sint h mod 2 ^ 24) / 2 ^ 24) (1 / 10 ^ 10)) (1 - 1 / 10 ^ 10)"

definition multinomial_row :: "real list \<Rightarrow> 64 word \<Rightarrow> 64 word \<Rightarrow> nat" where
  "multinomial_row weights seed position =
     argmax (map (\<lambda>j. ln (weights ! j + 1 / 10 ^ 10) - ln (- ln (uniform_sample (seed_hash seed position j))))
               [0 ..< length weights])"

definition multinomial_with_seed :: "real list list \<Rightarrow> 64 word list \<Rightarrow> 64 word list \<Rightarrow> nat list" where
  "multinomial_with_seed inputs seeds poss =
     map2 (\<lambda>row (s, p). multinomial_row row s p) inputs (zip seeds poss)"

section \<open>Choosing how to sample\<close>

record sampling_info =
  is_all_greedy :: bool
  need_top_p_sampling :: bool
  need_top_k_sampling :: bool
  need_min_p_sampling :: bool
  si_params :: "row_params list"

datatype route = Greedy | Direct "real list list" | Filtered "real list list"

text \<open>
  The decision of \<open>forward\<close> once the probabilities are there: guided probabilities replace
  them and are sampled directly.
\<close>

definition sampling_route :: "sampling_info \<Rightarrow> real list list \<Rightarrow> real list list option \<Rightarrow> route" where
  "sampling_route info probs guided_probs =
     (let direct = \<not> need_top_p_sampling info \<and> \<not> need_top_k_sampling info \<and> \<not> need_min_p_sampling info
      in if is_all_greedy info then Greedy
         else case guided_probs of
           Some g \<Rightarrow> Direct g
         | None \<Rightarrow> if direct then Direct probs else Filtered probs)"

text \<open>No configuration: the guided sampler is off, or the batch carries no requests.\<close>

definition guided_route ::
  "torch_ops \<Rightarrow> real list env \<Rightarrow> http \<Rightarrow> py_lib \<Rightarrow> lvm_guided_config option \<Rightarrow> sampling_info \<Rightarrow>
   real list list \<Rightarrow> (sampler, route) run"
where
  "guided_route tk env http lib cfg info probs st =
     (if is_all_greedy info then (Inr Greedy, st)
      else case cfg of
        None \<Rightarrow> (Inr (sampling_route info probs None), st)
      | Some c \<Rightarrow>
          (case apply_guided tk env http lib c probs (si_params info) st of
             (Inl e, st') \<Rightarrow> (Inl e, st')
           | (Inr g, st') \<Rightarrow> (Inr (sampling_route info probs g), st')))"

end
