(* ===== verification/ValueGuidanceProps.thy ===== *)
theory ValueGuidanceProps
  imports ValueGuidance
begin

text \<open>
  Correctness of the guidance functions of \<open>ValueGuidance\<close>: the selection loops, the
  tilted distribution, the monotonicity of its expectation, the solver, and the contracts
  of the hard, soft and expectation guidance.
\<close>

section \<open>The best candidate\<close>

text \<open>The candidate order: smaller key first, then larger probability.\<close>

definition better :: "real \<times> real \<Rightarrow> real \<times> real \<Rightarrow> bool" where
  "better a b \<longleftrightarrow> fst a < fst b \<or> fst a = fst b \<and> snd a > snd b"

definition best_index :: "(real \<times> real) list \<Rightarrow> nat \<Rightarrow> bool" where
  "best_index xs c \<longleftrightarrow> c < length xs \<and>
     (\<forall>j < length xs. \<not> better (xs ! j) (xs ! c)) \<and> (\<forall>j < c. better (xs ! c) (xs ! j))"

lemma better_trans: "better a b \<Longrightarrow> better b c \<Longrightarrow> better a c"
  by (auto simp: better_def)

lemma better_asym: "better a b \<Longrightarrow> \<not> better b a"
  by (auto simp: better_def)

lemma better_cases: "better a b \<or> better b a \<or> a = b"
  by (cases a; cases b) (auto simp: better_def)

lemma best_index_snoc:
  assumes "best_index xs c"
  shows "best_index (xs @ [x]) (if better x (xs ! c) then length xs else c)"
proof (cases "better x (xs ! c)")
  case True
  have b: "better x (xs ! j)" if "j < length xs" for j
  proof (cases "j = c")
    case False
    have nb: "\<not> better (xs ! j) (xs ! c)" using assms that by (simp add: best_index_def)
    then have "better (xs ! c) (xs ! j) \<or> xs ! j = xs ! c" 
      using better_cases [of "xs ! c" "xs ! j"] by auto
    then show ?thesis using True better_trans [of x "xs ! c" "xs ! j"] by auto
  qed (use True in simp)
  have "\<not> better ((xs @ [x]) ! j) x" if "j < Suc (length xs)" for j
  proof (cases "j = length xs")
    case True
    then show ?thesis by (simp add: better_def)
  next
    case False
    then have "j < length xs" using that by simp
    then show ?thesis using better_asym [OF b [of j]] by (simp add: nth_append)
  qed
  then show ?thesis using True b by (simp add: best_index_def nth_append)
next
  case False
  then show ?thesis using assms by (auto simp: best_index_def nth_append less_Suc_eq)
qed

lemma pick_loop_best:
  "best_index pre c \<Longrightarrow>
   best_index (pre @ xs) (pick_loop (<) (length pre) xs (Some (fst (pre ! c), snd (pre ! c), c)))"
proof (induction xs arbitrary: pre c)
  case (Cons x xs)
  obtain v p where x: "x = (v, p)" by (cases x)
  let ?c = "if better x (pre ! c) then length pre else c"
  have b: "best_index (pre @ [x]) ?c" by (rule best_index_snoc [OF Cons.prems])
  have c: "c < length pre" using Cons.prems by (simp add: best_index_def)
  have "pick_loop (<) (length pre) (x # xs) (Some (fst (pre ! c), snd (pre ! c), c))
      = pick_loop (<) (length (pre @ [x])) xs (Some (fst ((pre @ [x]) ! ?c), snd ((pre @ [x]) ! ?c), ?c))"
    using c x by (simp add: better_def nth_append)
  then show ?case using Cons.IH [OF b] by simp
qed simp

lemma choose_min_best:
  assumes "keys \<noteq> []" "length probs = length keys"
  shows "best_index (zip keys probs) (choose_min keys probs)"
proof -
  obtain v p xs where z: "zip keys probs = (v, p) # xs" using assms by (cases keys; cases probs) auto
  have "best_index [(v, p)] 0" by (simp add: best_index_def better_def)
  from pick_loop_best [OF this, of xs] show ?thesis by (simp add: choose_min_def z)
qed

lemma pick_loop_neg:
  "pick_loop (>) i xs best = pick_loop (<) i (map (\<lambda>(v, p). (- v, p)) xs) (map_option (\<lambda>(v, p, c). (- v, p, c)) best)"
proof (induction xs arbitrary: i best)
  case Nil
  then show ?case by (cases best) auto
next
  case (Cons x xs)
  then show ?case by (cases x; cases best) auto
qed

lemma choose_max_neg: "choose_max keys probs = choose_min (map uminus keys) probs"
proof -
  have "map (\<lambda>(v, p). (- v, p)) (zip keys probs) = zip (map uminus keys) probs"
    by (induction keys arbitrary: probs) (auto split: list.splits simp: zip_Cons1)
  then show ?thesis by (simp add: choose_max_def choose_min_def pick_loop_neg)
qed

text \<open>What the selected index means for keys and probabilities.\<close>

lemma choose_min_spec:
  assumes "keys \<noteq> []" "length probs = length keys"
  defines "c \<equiv> choose_min keys probs"
  shows "c < length keys" "j < length keys \<Longrightarrow> keys ! c \<le> keys ! j"
    "j < length keys \<Longrightarrow> keys ! j = keys ! c \<Longrightarrow> probs ! j \<le> probs ! c"
proof -
  have b: "best_index (zip keys probs) c" unfolding c_def by (rule choose_min_best [OF assms(1,2)])
  then show c: "c < length keys" using assms(2) by (simp add: best_index_def)
  show "j < length keys \<Longrightarrow> keys ! c \<le> keys ! j" "j < length keys \<Longrightarrow> keys ! j = keys ! c \<Longrightarrow> probs ! j \<le> probs ! c"
    using b c assms(2) by (auto simp: best_index_def better_def not_less)
qed

lemma choose_max_spec:
  assumes "keys \<noteq> []" "length probs = length keys"
  defines "c \<equiv> choose_max keys probs"
  shows "c < length keys" "j < length keys \<Longrightarrow> keys ! j \<le> keys ! c"
    "j < length keys \<Longrightarrow> keys ! j = keys ! c \<Longrightarrow> probs ! j \<le> probs ! c"
proof -
  have n: "map uminus keys \<noteq> []" "length probs = length (map uminus keys)" using assms by simp_all
  note s = choose_min_spec [OF n]
  show c: "c < length keys" using s(1) by (simp add: c_def choose_max_neg)
  show "j < length keys \<Longrightarrow> keys ! j \<le> keys ! c" "j < length keys \<Longrightarrow> keys ! j = keys ! c \<Longrightarrow> probs ! j \<le> probs ! c"
    using s(2,3) [of j] c by (simp_all add: c_def choose_max_neg)
qed

section \<open>Tilted expectations grow with the parameter\<close>

lemma chebyshev_sum:
  fixes a b v :: "nat \<Rightarrow> real"
  assumes "\<And>i. 0 \<le> a i" "\<And>i j. 0 \<le> (b i - b j) * (v i - v j)"
  shows "(\<Sum>i<n. a i * v i) * (\<Sum>i<n. a i * b i) \<le> (\<Sum>i<n. a i * b i * v i) * (\<Sum>i<n. a i)"
proof -
  let ?D = "\<lambda>i j. a i * a j * ((b i - b j) * (v i - v j))"
  have D: "?D i j = a i * b i * v i * a j - a i * b i * (a j * v j) - a i * v i * (a j * b j)
      + a i * (a j * b j * v j)" for i j
    by (simp add: algebra_simps)
  have "0 \<le> (\<Sum>i<n. \<Sum>j<n. ?D i j)"
    by (intro sum_nonneg mult_nonneg_nonneg [OF mult_nonneg_nonneg [OF assms(1) assms(1)] assms(2)])
  also have "\<dots> = (\<Sum>i<n. a i * b i * v i) * (\<Sum>j<n. a j) - (\<Sum>i<n. a i * b i) * (\<Sum>j<n. a j * v j)
      - (\<Sum>i<n. a i * v i) * (\<Sum>j<n. a j * b j) + (\<Sum>i<n. a i) * (\<Sum>j<n. a j * b j * v j)"
    by (simp only: D sum_subtractf sum.distrib sum_product)
  finally show ?thesis by (simp add: mult.commute)
qed

definition gibbs_z :: "real list \<Rightarrow> real list \<Rightarrow> real \<Rightarrow> real" where
  "gibbs_z p v lam = (\<Sum>i<length p. p ! i * exp (lam * v ! i))"

definition gibbs_mean :: "real list \<Rightarrow> real list \<Rightarrow> real \<Rightarrow> real" where
  "gibbs_mean p v lam = (\<Sum>i<length p. p ! i * exp (lam * v ! i) * v ! i) / gibbs_z p v lam"

text \<open>Weights that are not negative and not all zero.\<close>

definition weights_ok :: "real list \<Rightarrow> bool" where
  "weights_ok p \<longleftrightarrow> (\<forall>x \<in> set p. 0 \<le> x) \<and> 0 < sum_list p"

lemma weights_ok_ex: "weights_ok p \<Longrightarrow> \<exists>i < length p. 0 < p ! i"
proof (rule ccontr)
  assume w: "weights_ok p" and n: "\<not> (\<exists>i < length p. 0 < p ! i)"
  then have "p ! i = 0" if "i < length p" for i
    using that by (metis antisym_conv2 nth_mem weights_ok_def)
  then have "sum_list p = 0" by (simp add: sum_list_sum_nth)
  with w show False by (simp add: weights_ok_def)
qed

lemma gibbs_z_pos: "weights_ok p \<Longrightarrow> 0 < gibbs_z p v lam"
proof -
  assume w: "weights_ok p"
  obtain k where k: "k < length p" "0 < p ! k" using weights_ok_ex [OF w] by blast
  have nn: "0 \<le> p ! i" if "i < length p" for i using w that by (simp add: weights_ok_def)
  show ?thesis unfolding gibbs_z_def
    by (rule sum_pos2 [of _ k]) (use k nn in auto)
qed

lemma gibbs_mean_mono:
  assumes w: "weights_ok p" and "lam \<le> mu"
  shows "gibbs_mean p v lam \<le> gibbs_mean p v mu"
proof -
  let ?a = "\<lambda>i. if i < length p then p ! i * exp (lam * v ! i) else 0"
  let ?b = "\<lambda>i. exp ((mu - lam) * v ! i)"
  have nn: "0 \<le> ?a i" for i using w by (simp add: weights_ok_def)
  have ord: "0 \<le> (?b i - ?b j) * (v ! i - v ! j)" for i j
  proof (cases "v ! i \<le> v ! j")
    case True
    then have "?b i \<le> ?b j" using assms(2) by (simp add: mult_left_mono)
    with True show ?thesis by (simp add: mult_nonpos_nonpos)
  next
    case False
    then have "?b j \<le> ?b i" using assms(2) by (simp add: mult_left_mono)
    with False show ?thesis by simp
  qed
  have ab: "?a i * ?b i = p ! i * exp (mu * v ! i)" if "i < length p" for i
    using that by (simp add: exp_add [symmetric] algebra_simps)
  have "(\<Sum>i<length p. ?a i * v ! i) * (\<Sum>i<length p. ?a i * ?b i)
      \<le> (\<Sum>i<length p. ?a i * ?b i * v ! i) * (\<Sum>i<length p. ?a i)"
    by (rule chebyshev_sum [OF nn ord])
  moreover have "(\<Sum>i<length p. ?a i * v ! i) = (\<Sum>i<length p. p ! i * exp (lam * v ! i) * v ! i)"
    "(\<Sum>i<length p. ?a i) = gibbs_z p v lam" unfolding gibbs_z_def by (rule sum.cong; simp)+
  moreover have "(\<Sum>i<length p. ?a i * ?b i) = gibbs_z p v mu"
    unfolding gibbs_z_def by (rule sum.cong [OF refl]) (use ab in blast)
  moreover have "(\<Sum>i<length p. ?a i * ?b i * v ! i) = (\<Sum>i<length p. p ! i * exp (mu * v ! i) * v ! i)"
    by (rule sum.cong [OF refl]) (use ab in \<open>metis lessThan_iff\<close>)
  ultimately have "(\<Sum>i<length p. p ! i * exp (lam * v ! i) * v ! i) * gibbs_z p v mu
      \<le> (\<Sum>i<length p. p ! i * exp (mu * v ! i) * v ! i) * gibbs_z p v lam" by (simp only:)
  then show ?thesis
    using gibbs_z_pos [OF w] by (simp add: gibbs_mean_def divide_le_eq pos_le_divide_eq mult.commute)
qed

section \<open>The tilted distribution\<close>

lemma dot_sum: "length xs = length ys \<Longrightarrow> dot xs ys = (\<Sum>i<length xs. xs ! i * ys ! i)"
  by (simp add: dot_def sum_list_sum_nth atLeast0LessThan)

lemma finite_logits_nonempty: "Some x \<in> set ls \<Longrightarrow> finite_logits ls \<noteq> []"
  by (force simp: finite_logits_def)

definition gibbs :: "real list \<Rightarrow> real list \<Rightarrow> real \<Rightarrow> real list" where
  "gibbs p v lam = map (\<lambda>i. p ! i * exp (lam * v ! i) / gibbs_z p v lam) [0 ..< length p]"

lemma tilted_weights_gibbs:
  assumes w: "weights_ok p" and len: "length v = length p"
  shows "tilted_weights p v lam = Some (gibbs p v lam)"
proof -
  define ls where "ls = tilt_logits p v lam"
  define m where "m = Max (set (finite_logits ls))"
  define C where "C = exp (- (Min (set v) * lam) - m)"
  have l: "length ls = length p" using len by (simp add: ls_def tilt_logits_def)
  have nth: "ls ! i = (if p ! i = 0 then None else Some (ln (p ! i) + (v ! i - Min (set v)) * lam))" if "i < length p" for i
    using that len by (simp add: ls_def tilt_logits_def)
  have nn: "0 \<le> p ! i" if "i < length p" for i using w that by (simp add: weights_ok_def)
  obtain k where k: "k < length p" "0 < p ! k" using weights_ok_ex [OF w] by blast
  have fin: "finite_logits ls \<noteq> []"
    using nth [OF k(1)] k l nth_mem [of k ls] by (intro finite_logits_nonempty [of "ln (p ! k) + (v ! k - Min (set v)) * lam"]) auto
  let ?w = "map (\<lambda>l. case l of None \<Rightarrow> 0 | Some x \<Rightarrow> exp (x - m)) ls"
  have wi: "?w ! i = C * (p ! i * exp (lam * v ! i))" if "i < length p" for i
  proof (cases "p ! i = 0")
    case False
    then have "0 < p ! i" using nn [OF that] by simp
    then have "exp (ln (p ! i) + (v ! i - Min (set v)) * lam - m) = p ! i * exp ((v ! i - Min (set v)) * lam - m)"
      by (simp add: exp_add exp_diff)
    also have "(v ! i - Min (set v)) * lam - m = lam * v ! i + (- (Min (set v) * lam) - m)" by (simp add: algebra_simps)
    finally show ?thesis using that l nth [OF that] False by (simp add: C_def exp_add)
  qed (use that l nth [OF that] in simp)
  have s: "sum_list ?w = C * gibbs_z p v lam"
    using wi l by (simp add: sum_list_sum_nth gibbs_z_def sum_distrib_left atLeast0LessThan)
  have pos: "0 < C * gibbs_z p v lam" using gibbs_z_pos [OF w] by (simp add: C_def)
  have "map (\<lambda>x. x / sum_list ?w) ?w = gibbs p v lam"
  proof (rule nth_equalityI)
    fix i assume "i < length (map (\<lambda>x. x / sum_list ?w) ?w)"
    then have i: "i < length p" using l by simp
    then have "map (\<lambda>x. x / sum_list ?w) ?w ! i = ?w ! i / sum_list ?w" using l by simp
    also have "\<dots> = C * (p ! i * exp (lam * v ! i)) / (C * gibbs_z p v lam)" unfolding wi [OF i] s ..
    also have "\<dots> = p ! i * exp (lam * v ! i) / gibbs_z p v lam" by (simp add: C_def)
    finally show "map (\<lambda>x. x / sum_list ?w) ?w ! i = gibbs p v lam ! i" using i by (simp add: gibbs_def)
  qed (simp add: gibbs_def l)
  moreover have "\<not> sum_list ?w \<le> 0" using s pos by simp
  ultimately show ?thesis
    using fin unfolding tilted_weights_def Let_def ls_def [symmetric] m_def [symmetric] by simp
qed

lemma gibbs_simps:
  assumes "weights_ok p" "length v = length p"
  shows "length (gibbs p v lam) = length p" "sum_list (gibbs p v lam) = 1"
    "\<forall>x \<in> set (gibbs p v lam). 0 \<le> x" "dot (gibbs p v lam) v = gibbs_mean p v lam"
    "\<And>i. i < length p \<Longrightarrow> (gibbs p v lam ! i = 0) = (p ! i = 0)"
proof -
  have z: "0 < gibbs_z p v lam" by (rule gibbs_z_pos [OF assms(1)])
  show l: "length (gibbs p v lam) = length p" by (simp add: gibbs_def)
  have "sum_list (gibbs p v lam) = (\<Sum>i<length p. p ! i * exp (lam * v ! i)) / gibbs_z p v lam"
    by (simp add: gibbs_def interv_sum_list_conv_sum_set_nat sum_divide_distrib atLeast0LessThan)
  then show "sum_list (gibbs p v lam) = 1" using z by (simp add: gibbs_z_def)
  show "\<forall>x \<in> set (gibbs p v lam). 0 \<le> x" using assms(1) z by (auto simp: gibbs_def weights_ok_def)
  show "dot (gibbs p v lam) v = gibbs_mean p v lam"
    using l assms(2) by (simp add: dot_sum gibbs_def gibbs_mean_def sum_divide_distrib mult.commute mult.left_commute)
  show "i < length p \<Longrightarrow> (gibbs p v lam ! i = 0) = (p ! i = 0)" for i using z by (simp add: gibbs_def)
qed

lemma tilted_stats_mean:
  "weights_ok p \<Longrightarrow> length v = length p \<Longrightarrow> fst (tilted_stats cur p v lam) = gibbs_mean p v lam"
  by (simp add: tilted_stats_def tilted_weights_gibbs gibbs_simps Let_def)

lemma gibbs_mean_0: "sum_list p = 1 \<Longrightarrow> length v = length p \<Longrightarrow> gibbs_mean p v 0 = dot p v"
  by (simp add: gibbs_mean_def gibbs_z_def dot_sum sum_list_sum_nth atLeast0LessThan)

section \<open>The solver stays in its bracket\<close>

lemma bracket_up_ge1: "1 \<le> bracket_up f t k"
proof (induction f t k rule: bracket_up.induct)
  case (1 f t k)
  show ?case
  proof (cases "f (2 ^ k) < t \<and> (2 ^ k :: real) < 100000")
    case True
    then show ?thesis using 1 by (subst bracket_up.simps) simp
  next
    case False
    then show ?thesis by (subst bracket_up.simps) auto
  qed
qed

lemma bracket_down_le1: "bracket_down f t k \<le> - 1"
proof (induction f t k rule: bracket_down.induct)
  case (1 f t k)
  show ?case
  proof (cases "f (- (2 ^ k)) > t \<and> - (2 ^ k :: real) > - 100000")
    case True
    then show ?thesis using 1 by (subst bracket_down.simps) simp
  next
    case False
    then show ?thesis by (subst bracket_down.simps) auto
  qed
qed

lemma newton_in_bracket:
  "lo \<le> lam \<Longrightarrow> lam \<le> hi \<Longrightarrow>
   lo \<le> newton_loop stats t tol n lo hi lam \<and> newton_loop stats t tol n lo hi lam \<le> hi"
proof (induction n arbitrary: lo hi lam)
  case (Suc n)
  let ?e = "fst (stats lam)" and ?v = "snd (stats lam)"
  let ?lo = "if ?e < t then lam else lo" and ?hi = "if ?e < t then hi else lam"
  let ?new = "lam - (?e - t) / ?v"
  have b: "lo \<le> ?lo" "?lo \<le> ?hi" "?hi \<le> hi" using Suc.prems by simp_all
  have step: "lo \<le> newton_loop stats t tol n ?lo ?hi x \<and> newton_loop stats t tol n ?lo ?hi x \<le> hi"
    if "?lo \<le> x" "x \<le> ?hi" for x
    using Suc.IH [OF that] b by (meson order_trans)
  show ?case
  proof (cases "\<bar>?e - t\<bar> \<le> tol")
    case True
    then show ?thesis using Suc.prems by (simp add: Let_def)
  next
    case nt: False
    show ?thesis
    proof (cases "?v > 1 / 10 ^ 16 \<and> ?lo < ?new \<and> ?new < ?hi")
      case True
      then show ?thesis using step [of ?new] nt by (simp add: Let_def)
    next
      case False
      have "newton_loop stats t tol (Suc n) lo hi lam = newton_loop stats t tol n ?lo ?hi ((?lo + ?hi) / 2)"
        unfolding newton_loop.simps Let_def by (simp only: if_not_P [OF nt] if_not_P [OF False])
      then show ?thesis using step [of "(?lo + ?hi) / 2"] b(2) by simp
    qed
  qed
qed simp

lemma solve_lambda_sign:
  "target > cur \<Longrightarrow> 0 \<le> solve_lambda stats target tol cur"
  "target \<le> cur \<Longrightarrow> solve_lambda stats target tol cur \<le> 0"
proof -
  have up: "(0::real) \<le> bracket_up f t 0" and down: "bracket_down f t 0 \<le> (0::real)" for f t
    using bracket_up_ge1 [of f t 0] bracket_down_le1 [of f t 0] by linarith+
  show "target > cur \<Longrightarrow> 0 \<le> solve_lambda stats target tol cur"
    using newton_in_bracket [of 0 0 "bracket_up (fst \<circ> stats) target 0" stats target tol 20] up
    unfolding solve_lambda_def bracket_def Let_def by simp
  show "target \<le> cur \<Longrightarrow> solve_lambda stats target tol cur \<le> 0"
    using newton_in_bracket [of "bracket_down (fst \<circ> stats) target 0" 0 0 stats target tol 20] down
    unfolding solve_lambda_def bracket_def Let_def by simp
qed

section \<open>Contracts of the guidance functions\<close>

text \<open>A probability vector over the candidates.\<close>

definition distribution :: "real list \<Rightarrow> bool" where
  "distribution p \<longleftrightarrow> (\<forall>x \<in> set p. 0 \<le> x) \<and> sum_list p = 1"

definition normalised :: "real list \<Rightarrow> real list" where
  "normalised p = map (\<lambda>x. x / sum_list (clamp0 p)) (clamp0 p)"

lemma sum_list_one_hot: "c < n \<Longrightarrow> sum_list (one_hot n c) = 1"
  unfolding one_hot_def
proof (induction n arbitrary: c)
  case (Suc n)
  then show ?case by (cases c) (simp_all add: sum_list_replicate)
qed simp

lemma one_hot_distribution: "c < n \<Longrightarrow> distribution (one_hot n c)"
  using sum_list_one_hot [of c n]
  by (auto simp: distribution_def one_hot_def dest: set_update_subset_insert [THEN subsetD])

lemma sum_list_map_div: "sum_list (map (\<lambda>x. x / c) xs) = sum_list xs / (c :: real)"
  by (induction xs) (simp_all add: add_divide_distrib)

lemma clamp0_nonneg: "\<forall>x \<in> set p. 0 \<le> x \<Longrightarrow> clamp0 p = p"
  by (simp add: clamp0_def map_idI max_absorb1)

lemma normalised_ok:
  assumes "0 < sum_list (clamp0 p)"
  shows "distribution (normalised p)" "weights_ok (normalised p)" "length (normalised p) = length p"
    "\<And>i. i < length p \<Longrightarrow> (normalised p ! i = 0) = (p ! i \<le> 0)"
proof -
  have "sum_list (normalised p) = sum_list (clamp0 p) / sum_list (clamp0 p)"
    by (simp only: normalised_def sum_list_map_div)
  then have s: "sum_list (normalised p) = 1" using assms by simp
  have nn: "\<forall>x \<in> set (normalised p). 0 \<le> x" using assms by (auto simp: normalised_def clamp0_def)
  show "distribution (normalised p)" "weights_ok (normalised p)" using s nn by (simp_all add: distribution_def weights_ok_def)
  show "length (normalised p) = length p" by (simp add: normalised_def clamp0_def)
  show "i < length p \<Longrightarrow> (normalised p ! i = 0) = (p ! i \<le> 0)" for i
    using assms by (auto simp: normalised_def clamp0_def max_def)
qed

text \<open>
  C22: The hard constraint picks one candidate. For a non-empty candidate list, a target and
  one of the constraints \<open>eq\<close>, \<open>ge\<close>, \<open>le\<close>, the result is the one-hot vector of an index whose key
  is best: for \<open>eq\<close> the smallest distance to the target in length space, for \<open>le\<close> (and for
  \<open>ge\<close> once the target is used up) the smallest value, for \<open>ge\<close> otherwise the largest value;
  among candidates with the same key it is one of largest probability.
\<close>

theorem hard_guidance_picks_best:
  assumes ne: "probs \<noteq> []" and len: "length probs = length vals"
    and tgt: "extract_target_value lib kw = Inr (Some t)"
    and c: "extract_value_constraint kw = Inr c" "c \<noteq> CEqSoft"
    and g: "c = CEq \<longrightarrow> extract_length_gamma lib kw = Inr g"
  defines "key \<equiv> (\<lambda>v. case c of CEq \<Rightarrow> \<bar>value_to_length g v - value_to_length g t\<bar>
      | CGe \<Rightarrow> (if \<bar>t\<bar> \<le> 1 / 10 ^ 12 then v else - v) | _ \<Rightarrow> v)"
  shows "\<exists>i < length vals. lvm_hard_value_constraint_guidance lib probs vals ids kw = Inr (one_hot (length vals) i)
    \<and> (\<forall>j < length vals. key (vals ! i) \<le> key (vals ! j)
         \<and> (key (vals ! j) = key (vals ! i) \<longrightarrow> probs ! j \<le> probs ! i))"
proof -
  have vne: "vals \<noteq> []" using ne len by auto
  have run: "lvm_hard_value_constraint_guidance lib probs vals ids kw
      = Inr (one_hot (length vals) (choose_min (map key vals) probs))"
    using ne len tgt c g
    by (cases c) (auto simp: lvm_hard_value_constraint_guidance_def Let_def key_def choose_max_neg)
  have k: "map key vals \<noteq> []" "length probs = length (map key vals)" using vne len by simp_all
  note s = choose_min_spec [OF k]
  show ?thesis
    by (rule exI [of _ "choose_min (map key vals) probs"]) (use run s in auto)
qed

text \<open>
  Expectation guidance returns a probability vector. Whenever the
  expectation guidance returns on candidates with positive total probability, the result has
  one entry per candidate, is non-negative, sums to one, and gives probability zero to
  exactly the candidates that had none.
\<close>

theorem expectation_guidance_distribution:
  assumes "length probs = length vals" "0 < sum_list (clamp0 probs)"
    "lvm_expectation_guidance lib probs vals ids kw = Inr out"
  shows "distribution out \<and> length out = length probs \<and> (\<forall>i < length probs. (out ! i = 0) = (probs ! i \<le> 0))"
proof -
  let ?p = "normalised probs"
  note n = normalised_ok [OF assms(2)]
  have lv: "length vals = length ?p" using n(3) assms(1) by simp
  have "probs \<noteq> []" using assms(2) by (auto simp: clamp0_def)
  then have "out = ?p \<or> (\<exists>lam. out = gibbs ?p vals lam)"
    using assms unfolding lvm_expectation_guidance_def Let_def normalised_def [symmetric]
    by (auto simp: bind_res_Inr_iff tilted_weights_gibbs [OF n(2) lv] split: if_splits option.splits)
  then show ?thesis
  proof
    assume "out = ?p"
    then show ?thesis using n by simp
  next
    assume "\<exists>lam. out = gibbs ?p vals lam"
    then show ?thesis using gibbs_simps [OF n(2) lv] n by (auto simp: distribution_def)
  qed
qed

section \<open>Direction of the guidance\<close>

lemma powr_ge_self: "0 \<le> x \<Longrightarrow> x \<le> 1 \<Longrightarrow> s \<le> 1 \<Longrightarrow> (x = 0 \<longrightarrow> 0 \<le> s) \<Longrightarrow> x \<le> py_pow x s" for x s :: real
proof (cases "x = 0 \<or> s = 0")
  case False
  assume "0 \<le> x" "x \<le> 1" "s \<le> 1"
  then have "x powr 1 \<le> x powr s" using False by (intro powr_mono') simp_all
  then show ?thesis using False \<open>0 \<le> x\<close> by (simp add: py_pow_def)
qed (auto simp: py_pow_def)

lemma powr_le_self: "0 \<le> x \<Longrightarrow> x \<le> 1 \<Longrightarrow> 1 \<le> s \<Longrightarrow> py_pow x s \<le> x" for x s :: real
proof (cases "x = 0")
  case False
  assume "0 \<le> x" "x \<le> 1" "1 \<le> s"
  then have "x powr s \<le> x powr 1" using False by (intro powr_mono') simp_all
  then show ?thesis using False \<open>0 \<le> x\<close> \<open>1 \<le> s\<close> by (simp add: py_pow_def)
qed (simp add: py_pow_def)

lemma dot_bounds:
  assumes "distribution p" "length v = length p" "p \<noteq> []"
  shows "Min (set v) \<le> dot p v" "dot p v \<le> Max (set v)"
proof -
  have s: "(\<Sum>i<length p. p ! i) = 1" using assms(1) by (simp add: distribution_def sum_list_sum_nth atLeast0LessThan)
  have nn: "0 \<le> p ! i" if "i < length p" for i using assms(1) that by (simp add: distribution_def)
  have b: "Min (set v) \<le> v ! i" "v ! i \<le> Max (set v)" if "i < length p" for i using assms(2) that by simp_all
  have "(\<Sum>i<length p. p ! i * Min (set v)) \<le> (\<Sum>i<length p. p ! i * v ! i)"
    using nn b by (intro sum_mono mult_left_mono) simp_all
  then show "Min (set v) \<le> dot p v" using s assms(2) by (simp add: dot_sum sum_distrib_right [symmetric])
  have "(\<Sum>i<length p. p ! i * v ! i) \<le> (\<Sum>i<length p. p ! i * Max (set v))"
    using nn b by (intro sum_mono mult_left_mono) simp_all
  then show "dot p v \<le> Max (set v)" using s assms(2) by (simp add: dot_sum sum_distrib_right [symmetric])
qed

text \<open>The target in length space: scaling the length of \<open>mu\<close> by \<open>s\<close> is a power of \<open>1 - mu\<close>.\<close>

lemma length_scale:
  fixes g mu s :: real
  assumes "0 < g" "g < 1" "0 < mu" "mu < 1"
  shows "1 - exp (s * (ln (1 + - mu) / ln g) * ln g) = 1 - (1 - mu) powr s"
proof -
  have "ln g < 0" using assms by simp
  then have "ln g \<noteq> 0" by simp
  then have "s * (ln (1 + - mu) / ln g) * ln g = s * ln (1 - mu)" by simp
  then show ?thesis using assms by (simp add: powr_def)
qed

lemma clamp_near:
  fixes cur :: real
  assumes "0 \<le> cur" "cur \<le> 1"
  defines "mu \<equiv> min (max cur (1 / 10 ^ 15)) (1 - 1 / 10 ^ 15)"
  shows "0 < mu" "mu < 1" "\<bar>mu - cur\<bar> < 1 / 10 ^ 8"
  using assms by (simp_all add: mu_def min_def max_def)

definition clamped_exp :: "real \<Rightarrow> real" where
  "clamped_exp cur = min (max cur (1 / 10 ^ 15)) (1 - 1 / 10 ^ 15)"

lemmas clamped_near = clamp_near [folded clamped_exp_def]

lemma length_mul_target:
  assumes mt: "mode_target lib kw ''length_mul'' scale cur mn mx = Inr (Some t)" and v: "0 \<le> cur" "cur \<le> 1"
  shows "t = min (max (1 - (1 - clamped_exp cur) powr scale) mn) mx"
proof -
  obtain g where g: "extract_length_gamma lib kw = Inr g"
    "t = min (max (1 - exp (scale * (ln (1 + - clamped_exp cur) / ln g) * ln g)) mn) mx"
    using mt unfolding clamped_exp_def
    by (simp add: mode_target_def bind_res_Inr_iff Let_def) (elim exE conjE, simp)
  show ?thesis
    using g(2) length_scale [of g "clamped_exp cur" scale] extract_length_gamma_range [OF g(1)] clamped_near [OF v]
    by simp
qed

lemma mode_target_up:
  assumes mt: "mode_target lib kw mode scale cur mn mx = Inr (Some t)" and s: "1 \<le> scale"
    and v: "0 \<le> cur" "cur \<le> 1" "mn \<le> cur" "cur \<le> mx"
  shows "cur \<le> t \<or> \<bar>min (max t mn) mx - cur\<bar> < 1 / 10 ^ 8"
proof -
  consider "mode = ''length_mul''" | "mode = ''linear''" | "mode = ''exp''"
    | "mode \<notin> {''length_mul'', ''linear'', ''exp'', ''centered_exp'', ''value_bias''}"
    using mt by (auto simp: mode_target_def split: if_splits)
  then show ?thesis
  proof cases
    case 1
    let ?mu = "clamped_exp cur"
    note mu = clamped_near [OF v(1,2)]
    have t: "t = min (max (1 - (1 - ?mu) powr scale) mn) mx"
      using length_mul_target [OF _ v(1,2)] mt 1 by blast
    have "(1 - ?mu) powr scale \<le> 1 - ?mu"
      using powr_le_self [of "1 - ?mu" scale] mu(1,2) s by (simp add: py_pow_def)
    then have "min (max ?mu mn) mx \<le> t" unfolding t by (intro min.mono max.mono) simp_all
    moreover have "t \<le> mx" "mn \<le> t" using t v by simp_all
    ultimately show ?thesis using mu(3) v by (simp add: min_def max_def abs_if split: if_splits)
  next
    case 2
    then have "t = cur + (scale - 1) * (mx - cur)" using mt s by (simp add: mode_target_def)
    then show ?thesis using s v by simp
  next
    case 3
    show ?thesis
    proof (cases "mx - mn < 1 / 10 ^ 8")
      case True
      then have "t = cur" using mt 3 by (simp add: mode_target_def)
      then show ?thesis by simp
    next
      case False
      let ?c = "(cur - mn) / (mx - mn)"
      have r: "0 < mx - mn" using False by (simp add: not_less)
      have c: "0 \<le> ?c" "?c \<le> 1" using v r by simp_all
      have t: "t = mn + (1 - py_pow (1 - ?c) scale) * (mx - mn)"
        using mt 3 False s c by (simp add: mode_target_def Let_def min_def max_def split: if_splits)
      have "?c \<le> 1 - py_pow (1 - ?c) scale" using powr_le_self [of "1 - ?c" scale] c s by simp
      then have "?c * (mx - mn) \<le> (1 - py_pow (1 - ?c) scale) * (mx - mn)" using r by (intro mult_right_mono) simp_all
      then show ?thesis using t r by simp
    qed
  next
    case 4
    then have "t = cur * scale" using mt by (auto simp: mode_target_def split: if_splits)
    moreover have "cur * 1 \<le> cur * scale" using s v by (intro mult_left_mono) simp_all
    ultimately show ?thesis by simp
  qed
qed

lemma mode_target_down:
  assumes mt: "mode_target lib kw mode scale cur mn mx = Inr (Some t)" and s: "scale \<le> 1"
    and v: "0 \<le> cur" "cur \<le> 1" "mn \<le> cur" "cur \<le> mx"
  shows "t \<le> cur \<or> \<bar>min (max t mn) mx - cur\<bar> < 1 / 10 ^ 8"
proof -
  consider "mode = ''length_mul''" | "mode = ''linear''" | "mode = ''exp''"
    | "mode \<notin> {''length_mul'', ''linear'', ''exp'', ''centered_exp'', ''value_bias''}"
    using mt by (auto simp: mode_target_def split: if_splits)
  then show ?thesis
  proof cases
    case 1
    let ?mu = "clamped_exp cur"
    note mu = clamped_near [OF v(1,2)]
    have t: "t = min (max (1 - (1 - ?mu) powr scale) mn) mx"
      using length_mul_target [OF _ v(1,2)] mt 1 by blast
    have "1 - ?mu \<le> (1 - ?mu) powr scale"
    proof (cases "scale = 0")
      case True
      then show ?thesis using mu(1,2) by (simp add: powr_zero_eq_one)
    next
      case False
      then show ?thesis using powr_ge_self [of "1 - ?mu" scale] mu(1,2) s by (simp add: py_pow_def)
    qed
    then have "t \<le> min (max ?mu mn) mx" unfolding t by (intro min.mono max.mono) simp_all
    moreover have "t \<le> mx" "mn \<le> t" using t v by simp_all
    ultimately show ?thesis using mu(3) v by (simp add: min_def max_def abs_if split: if_splits)
  next
    case 2
    then have "t = (if scale \<ge> 1 then cur else cur - (1 - scale) * (cur - mn))"
      using mt s by (simp add: mode_target_def split: if_splits)
    moreover have "0 \<le> (1 - scale) * (cur - mn)" using s v by simp
    ultimately show ?thesis by (simp split: if_splits)
  next
    case 3
    show ?thesis
    proof (cases "mx - mn < 1 / 10 ^ 8")
      case True
      then have "t = cur" using mt 3 by (simp add: mode_target_def)
      then show ?thesis by simp
    next
      case False
      let ?c = "(cur - mn) / (mx - mn)"
      have r: "0 < mx - mn" using False by (simp add: not_less)
      have c: "0 \<le> ?c" "?c \<le> 1" using v r by simp_all
      have t: "t = mn + (1 - py_pow (1 - ?c) (max scale 0)) * (mx - mn)"
        using mt 3 False c by (simp add: mode_target_def Let_def min_def max_def split: if_splits)
      have "1 - py_pow (1 - ?c) (max scale 0) \<le> ?c"
        using powr_ge_self [of "1 - ?c" "max scale 0"] c s by simp
      then have "(1 - py_pow (1 - ?c) (max scale 0)) * (mx - mn) \<le> ?c * (mx - mn)" using r by (intro mult_right_mono) simp_all
      then show ?thesis using t r by simp
    qed
  next
    case 4
    then have "t = cur * scale" using mt by (auto simp: mode_target_def split: if_splits)
    moreover have "cur * scale \<le> cur * 1" using s v by (intro mult_left_mono) simp_all
    ultimately show ?thesis by simp
  qed
qed

lemma expectation_cases:
  assumes "length probs = length vals" "0 < sum_list (clamp0 probs)"
    "extract_value_scale lib kw = Inr scale" "lvm_expectation_guidance lib probs vals ids kw = Inr out"
  defines "p \<equiv> normalised probs" and "mn \<equiv> Min (set vals)" and "mx \<equiv> Max (set vals)"
  defines "cur \<equiv> dot p vals"
  shows "out = p \<or>
    (\<exists>mode t. mode_target lib kw mode scale cur mn mx = Inr (Some t) \<and> \<not> \<bar>min (max t mn) mx - cur\<bar> < 1 / 10 ^ 8
       \<and> out = gibbs p vals (solve_lambda (tilted_stats cur p vals) (soft_target vals (min (max t mn) mx)) (soft_tol vals) cur))"
proof -
  note n = normalised_ok [OF assms(2), folded p_def]
  have lv: "length vals = length p" using n(3) assms(1) by simp
  have "probs \<noteq> []" using assms(2) by (auto simp: clamp0_def)
  then show ?thesis
    using assms(1-4) unfolding lvm_expectation_guidance_def Let_def normalised_def [symmetric] p_def [symmetric]
      cur_def [symmetric] mn_def [symmetric] mx_def [symmetric]
    by (auto simp: bind_res_Inr_iff tilted_weights_gibbs [OF n(2) lv] split: if_splits option.splits)
qed


definition demo_kw :: kwargs where
  "demo_kw = \<lparr>kw_args = [(''target_value'', PInt 1), (''constraint'', PStr ''<='')], kw_req = None\<rparr>"

definition empty_kw :: kwargs where
  "empty_kw = \<lparr>kw_args = [], kw_req = None\<rparr>"

theorem hard_guidance_picks_best_witness:
  "\<exists>i < 3. lvm_hard_value_constraint_guidance demo_lib [1 / 2, 1 / 5, 3 / 10] [3 / 10, 1 / 10, 1 / 10] [] demo_kw
      = Inr (one_hot 3 i) \<and> i \<noteq> 0"
proof -
  have v: "get_kwarg_or_custom_param demo_kw [''target_value''] = PInt 1" by code_simp
  have t: "extract_target_value demo_lib demo_kw = Inr (Some 1)"
    by (simp add: extract_target_value_def v parse_required_float_def py_float_def Let_def)
  have c: "extract_value_constraint demo_kw = Inr CLe" by code_simp
  obtain i where i: "i < length [3 / 10 :: real, 1 / 10, 1 / 10]"
    "lvm_hard_value_constraint_guidance demo_lib [1 / 2, 1 / 5, 3 / 10] [3 / 10, 1 / 10, 1 / 10] [] demo_kw
       = Inr (one_hot (length [3 / 10 :: real, 1 / 10, 1 / 10]) i)"
    "\<forall>j < length [3 / 10 :: real, 1 / 10, 1 / 10]. [3 / 10 :: real, 1 / 10, 1 / 10] ! i \<le> [3 / 10, 1 / 10, 1 / 10] ! j"
    using hard_guidance_picks_best [OF _ _ t c, of "[1 / 2, 1 / 5, 3 / 10]" "[3 / 10, 1 / 10, 1 / 10]" 1 "[]"] by auto
  have "i \<noteq> 0" using i(3) [rule_format, of 1] by (cases i) auto
  then show ?thesis using i(1,2) by (intro exI [of _ i]) (simp add: numeral_3_eq_3)
qed

lemma demo_expectation:
  "lvm_expectation_guidance demo_lib [1, 1] [0, 1] [] empty_kw = Inr [1 / 2, 1 / 2]"
proof -
  have p: "get_kwarg_or_custom_param empty_kw [''value_min''] = PNone"
    "get_kwarg_or_custom_param empty_kw [''value_scale'', ''scale''] = PNone"
    "extract_value_mode empty_kw = Inr ''mul''" by code_simp+
  show ?thesis
    by (simp add: lvm_expectation_guidance_def clamp0_def dot_def extract_value_min_def extract_value_scale_def p
        parse_required_float_def mode_target_def Let_def)
qed

theorem expectation_guidance_distribution_witness:
  "distribution [1 / 2, 1 / 2] \<and> lvm_expectation_guidance demo_lib [1, 1] [0, 1] [] empty_kw = Inr [1 / 2, 1 / 2]"
  using expectation_guidance_distribution [OF _ _ demo_expectation] demo_expectation by (simp add: clamp0_def)


end
