(* ===== verification/GuidedSamplerProps.thy ===== *)
theory GuidedSamplerProps
  imports Sampler ValueGuidanceProps
begin

text \<open>
  Properties of the guided sampling step: the candidate filter of the batched path against
  the native sampler's filter, the alignment of the device tensors with the candidate
  lists, the rows guidance leaves alone, what the guided rows are, and which inputs make
  the step raise.
\<close>


section \<open>What is relied on of torch\<close>

text \<open>
  The documented behaviour of \<open>torch.topk\<close>: \<open>k\<close> pairs of an entry and its index, the
  indices different, in descending order, and nothing larger left out.
\<close>

definition topk_contract :: "torch_ops \<Rightarrow> bool" where
  "topk_contract tk \<longleftrightarrow>
     (\<forall>row k. k \<le> length row \<longrightarrow>
        length (topk tk row k) = k \<and> distinct (map snd (topk tk row k)) \<and>
        (\<forall>(v, i) \<in> set (topk tk row k). i < length row \<and> v = row ! i) \<and>
        sorted (rev (map fst (topk tk row k))) \<and>
        (\<forall>i < length row. i \<notin> snd ` set (topk tk row k) \<longrightarrow> (\<forall>v \<in> fst ` set (topk tk row k). row ! i \<le> v)))"

text \<open>An implementation that keeps the order of equal entries.\<close>

definition stable_sort_desc :: "real list \<Rightarrow> (real \<times> nat) list" where
  "stable_sort_desc xs = map (\<lambda>i. (xs ! i, i)) (sort_key (\<lambda>i. - (xs ! i)) [0 ..< length xs])"

definition stable_ops :: torch_ops where
  "stable_ops = \<lparr>topk = (\<lambda>xs k. take k (stable_sort_desc xs)), sort_desc = stable_sort_desc\<rparr>"

definition descending :: "real list \<Rightarrow> real list" where
  "descending xs = rev (sort xs)"

lemma descending_props [simp]:
  "length (descending xs) = length xs" "set (descending xs) = set xs" "mset (descending xs) = mset xs"
  by (simp_all add: descending_def)

lemma descending_unique: "sorted (rev ys) \<Longrightarrow> mset ys = mset xs \<Longrightarrow> ys = descending xs"
  by (simp add: descending_def) (metis mset_rev properties_for_sort rev_rev_ident)

lemma topk_nth:
  assumes "topk_contract tk" "k \<le> length row" "j < k"
  shows "snd (topk tk row k ! j) < length row" "fst (topk tk row k ! j) = row ! snd (topk tk row k ! j)"
proof -
  have "length (topk tk row k) = k" and "\<forall>(v, i) \<in> set (topk tk row k). i < length row \<and> v = row ! i"
    using assms(1,2) unfolding topk_contract_def by blast+
  then have "case topk tk row k ! j of (v, i) \<Rightarrow> i < length row \<and> v = row ! i"
    using assms(3) by (metis nth_mem)
  then show "snd (topk tk row k ! j) < length row" "fst (topk tk row k ! j) = row ! snd (topk tk row k ! j)"
    by (auto split: prod.splits)
qed

lemma topk_values:
  assumes "topk_contract tk" "k \<le> length row"
  shows "map fst (topk tk row k) = take k (descending row)"
proof -
  define ids where "ids = map snd (topk tk row k)"
  define others where "others = filter (\<lambda>i. i \<notin> set ids) [0 ..< length row]"
  have len: "length (topk tk row k) = k" and dist: "distinct ids"
    and ent: "\<forall>(v, i) \<in> set (topk tk row k). i < length row \<and> v = row ! i"
    and sor: "sorted (rev (map fst (topk tk row k)))"
    and top: "\<forall>i < length row. i \<notin> snd ` set (topk tk row k) \<longrightarrow>
                (\<forall>v \<in> fst ` set (topk tk row k). row ! i \<le> v)"
    using assms unfolding topk_contract_def ids_def by blast+
  have vals: "map fst (topk tk row k) = map ((!) row) ids"
    using ent by (auto simp: ids_def)
  have ids_lt: "set ids \<subseteq> {0 ..< length row}" using ent by (auto simp: ids_def)
  have "distinct (ids @ others)" "set (ids @ others) = set [0 ..< length row]"
    using dist ids_lt by (auto simp: others_def)
  then have perm: "mset (ids @ others) = mset [0 ..< length row]"
    by (metis distinct_upt set_eq_iff_mset_eq_distinct)
  have "mset (map ((!) row) (ids @ others)) = image_mset ((!) row) (mset [0 ..< length row])"
    using perm by (metis mset_map)
  also have "\<dots> = mset row" by (metis map_nth mset_map)
  finally have m: "mset (map ((!) row) ids @ descending (map ((!) row) others)) = mset row" by simp
  have "sorted (rev (map ((!) row) ids @ descending (map ((!) row) others)))"
    using sor top unfolding vals[symmetric]
    by (auto simp: sorted_append descending_def others_def ids_def)
  from descending_unique[OF this m] have "take k (descending row) = take k (map ((!) row) ids @ descending (map ((!) row) others))"
    by simp
  also have "\<dots> = map ((!) row) ids" using len by (simp add: ids_def)
  finally show ?thesis by (simp add: vals)
qed

section \<open>The filtered top-k row\<close>

lemma length_cumsum [simp]: "length (cumsum_from a xs) = length xs"
  by (induction xs arbitrary: a) simp_all

lemma nth_cumsum: "j < length xs \<Longrightarrow> cumsum_from a xs ! j = a + sum_list (take (Suc j) xs)"
  by (induction xs arbitrary: a j) (auto simp: nth_Cons' take_Cons')

lemma length_keep_top_p [simp]: "length (keep_top_p p xs) = length xs"
  by (simp add: keep_top_p_def)

lemma nth_keep_top_p:
  "j < length xs \<Longrightarrow> keep_top_p p xs ! j = (if sum_list (take j xs) \<le> p then xs ! j else 0)"
  by (simp add: keep_top_p_def nth_cumsum take_Suc_conv_app_nth)

lemma length_keep_min_p [simp]: "length (keep_min_p p xs) = length xs"
  by (simp add: keep_min_p_def)

lemma sum_list_take_mono:
  assumes "\<forall>x \<in> set xs. 0 \<le> (x :: real)" "i \<le> j"
  shows "sum_list (take i xs) \<le> sum_list (take j xs)"
proof -
  have "take j xs = take i xs @ take (j - i) (drop i xs)"
    using assms(2) by (metis le_add_diff_inverse take_add)
  moreover have "0 \<le> sum_list (take (j - i) (drop i xs))"
    using assms(1) by (intro sum_list_nonneg) (meson in_set_dropD in_set_takeD)
  ultimately show ?thesis by simp
qed

lemma sum_list_take_le: "\<forall>x \<in> set xs. 0 \<le> (x :: real) \<Longrightarrow> sum_list (take i xs) \<le> sum_list xs"
  using sum_list_take_mono[of xs i "max i (length xs)"] by simp

text \<open>Every positive entry is at most each entry before it.\<close>

definition front_loaded :: "real list \<Rightarrow> bool" where
  "front_loaded xs \<longleftrightarrow> (\<forall>j < length xs. 0 < xs ! j \<longrightarrow> (\<forall>i < j. xs ! j \<le> xs ! i))"

definition top_masked :: "nat \<Rightarrow> real list \<Rightarrow> real list" where
  "top_masked k tv = map (\<lambda>j. if j < k then tv ! j else 0) [0 ..< length tv]"

lemma length_top_masked [simp]: "length (top_masked k tv) = length tv"
  by (simp add: top_masked_def)

lemma front_loaded_masked: "sorted (rev tv) \<Longrightarrow> front_loaded (top_masked k tv)"
  by (auto simp: front_loaded_def top_masked_def sorted_rev_iff_nth_mono)

lemma front_loaded_top_p:
  assumes "front_loaded xs" "\<forall>x \<in> set xs. 0 \<le> x"
  shows "front_loaded (keep_top_p p xs)"
  unfolding front_loaded_def
proof (intro allI impI)
  fix i j assume j: "j < length (keep_top_p p xs)" "0 < keep_top_p p xs ! j" "i < j"
  then have "sum_list (take j xs) \<le> p" "0 < xs ! j" "keep_top_p p xs ! j = xs ! j"
    by (auto simp: nth_keep_top_p split: if_splits)
  moreover have "sum_list (take i xs) \<le> sum_list (take j xs)"
    using assms(2) j(3) by (intro sum_list_take_mono) simp_all
  ultimately show "keep_top_p p xs ! j \<le> keep_top_p p xs ! i"
    using assms(1) j by (auto simp: nth_keep_top_p front_loaded_def)
qed

lemma front_loaded_min_p: "front_loaded xs \<Longrightarrow> front_loaded (keep_min_p p xs)"
  unfolding front_loaded_def keep_min_p_def
  by (auto split: if_splits) (metis order.trans less_trans)

lemma front_loaded_first:
  "\<forall>x \<in> set xs. \<not> 0 < x \<Longrightarrow> front_loaded (xs[0 := y])"
  by (auto simp: front_loaded_def nth_list_update)

lemma topk_row_vals_front:
  assumes "sorted (rev (map fst (topk tk row k_max)))" "\<forall>v \<in> set (map fst (topk tk row k_max)). 0 \<le> v"
  shows "front_loaded (topk_row_vals tk k_max any_p any_m row top_k top_p min_p)"
proof -
  define tv where "tv = map fst (topk tk row k_max)"
  define v1 where "v1 = (if any_p then keep_top_p top_p (top_masked top_k tv) else top_masked top_k tv)"
  define v2 where "v2 = (if any_m then keep_min_p min_p v1 else v1)"
  have nn: "\<forall>x \<in> set (top_masked top_k tv). 0 \<le> x"
    using assms(2) by (auto simp: top_masked_def tv_def)
  have "front_loaded v1"
    using assms(1) nn by (simp add: v1_def front_loaded_masked front_loaded_top_p tv_def del: rev_map)
  then have "front_loaded v2" by (simp add: v2_def front_loaded_min_p)
  moreover have "topk_row_vals tk k_max any_p any_m row top_k top_p min_p =
      (if length (filter (\<lambda>v. v > 0) v2) = 0 then v2[0 := tv ! 0] else v2)"
    by (simp add: topk_row_vals_def Let_def v2_def v1_def tv_def top_masked_def)
  ultimately show ?thesis
    by (auto simp: filter_empty_conv intro: front_loaded_first)
qed

lemma front_filter:
  assumes "front_loaded vals" "length ids = length vals"
  shows "filter (\<lambda>(i, v). v > 0) (zip ids vals) =
         take (length (filter (\<lambda>(i, v). v > 0) (zip ids vals))) (zip ids vals)"
proof -
  define P where "P = (\<lambda>(i :: 'a, v :: real). v > 0)"
  define n where "n = length (takeWhile P (zip ids vals))"
  have stop: "\<not> P (zip ids vals ! j)" if "n \<le> j" "j < length (zip ids vals)" for j
  proof (cases "j = n")
    case True
    then show ?thesis using nth_length_takeWhile that(2) by (metis n_def)
  next
    case False
    then have "n < j" using that by simp
    moreover have "\<not> P (zip ids vals ! n)"
      using nth_length_takeWhile[of P "zip ids vals"] \<open>n < j\<close> that(2) by (simp add: n_def)
    ultimately show ?thesis
      using assms that(2) unfolding front_loaded_def P_def by auto force
  qed
  have "filter P (drop n (zip ids vals)) = []"
    unfolding filter_empty_conv
  proof
    fix x assume "x \<in> set (drop n (zip ids vals))"
    then obtain j where "j < length (zip ids vals) - n" "x = zip ids vals ! (n + j)"
      by (metis in_set_conv_nth length_drop nth_drop le_add1 less_diff_conv add.commute nat_less_le less_or_eq_imp_le drop_all list.size(3) not_less_zero not_le_imp_less)
    moreover from this have "n + j < length (zip ids vals)" by linarith
    ultimately show "\<not> P x" using stop[of "n + j"] by simp
  qed
  moreover have "filter P (takeWhile P (zip ids vals)) = takeWhile P (zip ids vals)"
    by (simp add: filter_id_conv) (meson set_takeWhileD)
  ultimately have "filter P (zip ids vals) = takeWhile P (zip ids vals)"
    by (metis append_Nil2 filter_append n_def takeWhile_dropWhile_id dropWhile_eq_drop)
  then show ?thesis unfolding P_def[symmetric] by (metis takeWhile_eq_take n_def)
qed


lemma topk_row_send:
  assumes "topk_row tk k_max any_p any_m row top_k top_p min_p thr = Send ids ps fi fv"
  shows "fi = map snd (topk tk row k_max)"
    "fv = topk_row_vals tk k_max any_p any_m row top_k top_p min_p"
    "zip ids ps = filter (\<lambda>(i, v). v > 0) (zip fi fv)" "length ids = length ps" "1 < length ids"
    "ids = map fst (filter (\<lambda>(i, v). v > 0) (zip fi fv))"
  using assms by (auto simp: topk_row_def Let_def zip_map_fst_snd split: if_splits intro: Suc_lessI)

lemma length_topk_row_vals [simp]:
  "length (topk_row_vals tk k_max any_p any_m row top_k top_p min_p) = length (topk tk row k_max)"
  by (simp add: topk_row_vals_def Let_def)

lemma send_row_prefix:
  assumes contract: "topk_contract tk" "k_max \<le> length row"
    and nn: "\<forall>x \<in> set row. 0 \<le> x"
    and send: "topk_row tk k_max any_p any_m row top_k top_p min_p thr = Send ids ps fi fv"
  shows "ids = take (length ids) fi" "ps = take (length ids) fv" "length ids \<le> length fv"
    "\<forall>j < length fv. 0 < fv ! j \<longleftrightarrow> j < length ids"
proof -
  note d = topk_row_send[OF send]
  define c where "c = filter (\<lambda>(i, v). v > 0) (zip fi fv)"
  have len: "length (topk tk row k_max) = k_max" and sor: "sorted (rev (map fst (topk tk row k_max)))"
    using contract unfolding topk_contract_def by blast+
  have "v \<in> set row" if "v \<in> set (map fst (topk tk row k_max))" for v
    using that topk_nth[OF contract] len by (auto simp: in_set_conv_nth) (metis fst_conv)
  with nn have nn': "\<forall>v \<in> set (map fst (topk tk row k_max)). 0 \<le> v" by blast
  have lens: "length fi = length fv" using d(1,2) by simp
  have c: "c = take (length c) (zip fi fv)"
    using front_filter[OF _ lens] topk_row_vals_front[OF sor nn'] unfolding c_def d(2) by blast
  have lc: "length c = length ids" using d(6) by (simp add: c_def)
  show ids: "ids = take (length ids) fi"
    using c lc d(6) lens unfolding c_def[symmetric] by (metis map_fst_zip take_map)
  have "ps = map snd c" using d(3,4) unfolding c_def by (metis map_snd_zip)
  then show "ps = take (length ids) fv" using c lc lens by (metis map_snd_zip take_map)
  show le: "length ids \<le> length fv" using ids lens by (metis length_take min.cobounded1)
  show "\<forall>j < length fv. 0 < fv ! j \<longleftrightarrow> j < length ids"
  proof (intro allI impI iffI)
    fix j assume j: "j < length fv" "j < length ids"
    then have "c ! j = zip fi fv ! j" using c lc by (metis nth_take)
    moreover have "c ! j \<in> set c" using j lc by simp
    ultimately show "0 < fv ! j" using j lens by (auto simp: c_def)
  next
    fix j assume j: "j < length fv" "0 < fv ! j"
    have "zip fi fv = c @ drop (length c) (zip fi fv)" using c by (metis append_take_drop_id)
    then have "c = c @ filter (\<lambda>(i, v). v > 0) (drop (length c) (zip fi fv))"
      unfolding c_def by (metis (no_types, lifting) filter_append filter_filter filter_cong)
    then have none: "filter (\<lambda>(i, v). v > 0) (drop (length c) (zip fi fv)) = []" by simp
    show "j < length ids"
    proof (rule ccontr)
      assume "\<not> j < length ids"
      then have "drop (length c) (zip fi fv) ! (j - length c) = zip fi fv ! j"
          "j - length c < length (drop (length c) (zip fi fv))"
        using j lens lc by simp_all
      then have "(fi ! j, fv ! j) \<in> set (drop (length c) (zip fi fv))"
        using j lens by (metis nth_mem nth_zip)
      then show False using none j(2) by (auto simp: filter_empty_conv)
    qed
  qed
qed

text \<open>
  The device tensors of a row sent to the value model are aligned with its candidate
  list: the positive entries of the padded probability row are exactly its first
  \<open>length ids\<close> positions, and the candidate ids and probabilities are the leading entries
  of the padded id and probability rows. The j-th embedding of the row therefore belongs to
  the j-th padded id, which the code of the device path assumes.
\<close>

theorem gpu_candidates_aligned:
  assumes "topk_contract tk" "k_max \<le> length row" "\<forall>x \<in> set row. 0 \<le> x"
    and "topk_row tk k_max any_p any_m row top_k top_p min_p thr = Send ids ps fi fv"
  shows "ids = take (length ids) fi \<and> ps = take (length ids) fv \<and>
         (\<forall>j < length fv. 0 < fv ! j \<longleftrightarrow> j < length ids) \<and>
         candidate_input [] (Some ([map int fi], [map (\<lambda>x. x > 0) fv])) = map int ids \<and> distinct ids"
proof -
  note p = send_row_prefix[OF assms]
  note d = topk_row_send[OF assms(4)]
  have lens: "length fi = length fv" using d(1,2) by simp
  have dist: "distinct fi" using assms(1,2) d(1) unfolding topk_contract_def by blast
  have "map fst (filter snd (zip (map int fi) (map (\<lambda>x. x > 0) fv))) = map int ids"
    unfolding d(6) by (simp add: zip_map_map filter_map comp_def case_prod_unfold)
  moreover have "distinct ids" using dist p(1) by (metis distinct_take)
  ultimately show ?thesis using p by (simp add: candidate_input_def)
qed


lemma descending_nonneg_head:
  assumes "distribution row"
  shows "0 < descending row ! 0" "\<forall>j < length row. descending row ! j \<le> descending row ! 0" "row \<noteq> []"
proof -
  show ne: "row \<noteq> []" using assms by (auto simp: distribution_def)
  have s: "sorted (rev (descending row))" by (simp add: descending_def)
  show le: "\<forall>j < length row. descending row ! j \<le> descending row ! 0"
    using s by (auto simp: sorted_rev_iff_nth_mono)
  show "0 < descending row ! 0"
  proof (rule ccontr)
    assume "\<not> 0 < descending row ! 0"
    then have "\<forall>x \<in> set row. x \<le> 0"
      using le by (metis descending_props(1,2) in_set_conv_nth linorder_not_less order.trans)
    then have "\<forall>x \<in> set row. x = 0" using assms by (meson distribution_def order.antisym)
    then have "sum_list row = 0" by (induction row) auto
    then show False using assms by (simp add: distribution_def)
  qed
qed

text \<open>The entry the native filter leaves at position \<open>j\<close> of the sorted row.\<close>

definition kept_entry :: "real list \<Rightarrow> int \<Rightarrow> real \<Rightarrow> real \<Rightarrow> nat \<Rightarrow> real" where
  "kept_entry d top_k top_p min_p j =
     (if int j < top_k \<and> sum_list (take j d) \<le> top_p \<and> d ! 0 * min_p \<le> d ! j then d ! j else 0)"

lemma sampler_filter_entries:
  assumes d: "d \<noteq> []" "\<forall>x \<in> set d. 0 \<le> x" "0 < d ! 0" and p: "1 \<le> top_k" "0 \<le> top_p" "0 \<le> min_p"
    and need: "need \<or> min_p = 0"
  shows "sampler_filter need d top_k top_p min_p = map (kept_entry d top_k top_p min_p) [0 ..< length d]"
proof -
  define s2 where "s2 = map2 (\<lambda>c v. if c - v > top_p then 0 else v) (cumsum_from 0 d)
      (map (\<lambda>j. if int j \<ge> top_k then 0 else d ! j) [0 ..< length d])"
  have s2: "s2 ! j = (if int j < top_k \<and> sum_list (take j d) \<le> top_p then d ! j else 0)" if "j < length d" for j
    using that by (auto simp: s2_def nth_cumsum take_Suc_conv_app_nth)
  have len: "length s2 = length d" by (simp add: s2_def)
  have h: "s2 ! 0 = d ! 0" using s2[of 0] d(1) p by simp
  have nn: "0 \<le> d ! j" if "j < length d" for j using d(2) that by simp
  have "sampler_filter need d top_k top_p min_p =
        (if need then map (\<lambda>v. if v < s2 ! 0 * min_p then 0 else v) s2 else s2)"
    by (simp add: sampler_filter_def Let_def s2_def)
  also have "\<dots> = map (kept_entry d top_k top_p min_p) [0 ..< length d]"
  proof (rule nth_equalityI)
    fix j assume "j < length (if need then map (\<lambda>v. if v < s2 ! 0 * min_p then 0 else v) s2 else s2)"
    then have j: "j < length d" by (simp add: len split: if_splits)
    then show "(if need then map (\<lambda>v. if v < s2 ! 0 * min_p then 0 else v) s2 else s2) ! j =
               map (kept_entry d top_k top_p min_p) [0 ..< length d] ! j"
      using need nn[OF j] by (auto simp: len s2 h kept_entry_def)
  qed (simp add: len)
  finally show ?thesis .
qed

lemma topk_row_vals_entries:
  assumes contract: "topk_contract tk" "k_max \<le> length row" and dist: "distribution row"
    and p: "1 \<le> top_k" "0 \<le> top_p" "0 \<le> min_p" "min_p \<le> 1"
    and flags: "any_p \<or> 1 \<le> top_p" "any_m \<or> min_p = 0"
    and k: "clamp_k (length row) top_k \<le> k_max"
  shows "topk_row_vals tk k_max any_p any_m row (clamp_k (length row) top_k) top_p min_p =
         map (kept_entry (descending row) top_k top_p min_p) [0 ..< k_max]"
proof -
  define d where "d = descending row"
  define tv where "tv = take k_max d"
  define k1 where "k1 = clamp_k (length row) top_k"
  define v1 where "v1 = (if any_p then keep_top_p top_p (top_masked k1 tv) else top_masked k1 tv)"
  define v2 where "v2 = (if any_m then keep_min_p min_p v1 else v1)"
  note hd = descending_nonneg_head[OF dist, folded d_def]
  have lens: "length d = length row" "length tv = k_max" using contract by (simp_all add: d_def tv_def)
  have k1: "j < k1 \<longleftrightarrow> int j < top_k" if "j < k_max" for j
    using that contract(2) p(1) by (auto simp: k1_def clamp_k_def)
  have kpos: "0 < k_max" using k hd(3) p(1) by (cases row) (auto simp: clamp_k_def)
  have nn: "\<forall>x \<in> set d. 0 \<le> x" using dist by (simp add: d_def distribution_def)
  have sum_d: "sum_list (take j d) \<le> 1" for j
    using sum_list_take_le[OF nn, of j] dist
    by (metis d_def descending_props(3) distribution_def sum_mset_sum_list)
  have m0: "top_masked k1 tv ! j = (if int j < top_k then d ! j else 0)" if "j < k_max" for j
    using that k1 lens by (simp add: top_masked_def tv_def)
  have take_m: "take j (top_masked k1 tv) = take j d" if "int j \<le> top_k" "j \<le> k_max" for j
    by (rule nth_equalityI) (use that lens m0 contract(2) in auto)
  have v1: "v1 ! j = (if int j < top_k \<and> sum_list (take j d) \<le> top_p then d ! j else 0)" if "j < k_max" for j
    using that m0 flags(1) order.trans[OF sum_d] take_m lens by (auto simp: v1_def nth_keep_top_p)
  have len1: "length v1 = k_max" by (simp add: v1_def lens)
  have "Max (set v1) = d ! 0"
  proof (rule Max_eqI)
    show "d ! 0 \<in> set v1" using v1[of 0] kpos len1 p by (auto simp: in_set_conv_nth intro!: exI[of _ 0])
    show "y \<le> d ! 0" if "y \<in> set v1" for y
      using that v1 len1 hd lens contract(2) by (auto simp: in_set_conv_nth split: if_splits)
  qed simp
  then have v2: "v2 ! j = kept_entry d top_k top_p min_p j" if "j < k_max" for j
    using that v1 len1 flags(2) nn lens contract(2) hd(1)
    by (auto simp: v2_def keep_min_p_def kept_entry_def mult_le_0_iff)
  have len2: "length v2 = k_max" by (simp add: v2_def len1)
  have "0 < v2 ! 0" using v2[OF kpos] p hd(1) by (auto simp: kept_entry_def mult_le_cancel_left1)
  then have "length (filter (\<lambda>v. v > 0) v2) \<noteq> 0"
    using kpos len2 by (auto simp: filter_empty_conv intro!: bexI[of _ "v2 ! 0"])
  moreover have "topk_row_vals tk k_max any_p any_m row k1 top_p min_p =
      (if length (filter (\<lambda>v. v > 0) v2) = 0 then v2[0 := tv ! 0] else v2)"
    using topk_values[OF contract, folded d_def, folded tv_def]
    by (simp add: topk_row_vals_def Let_def v2_def v1_def top_masked_def)
  ultimately have "topk_row_vals tk k_max any_p any_m row k1 top_p min_p = v2" by simp
  also have "\<dots> = map (kept_entry d top_k top_p min_p) [0 ..< k_max]"
    by (rule nth_equalityI) (simp_all add: len2 v2)
  finally show ?thesis by (simp add: k1_def d_def)
qed

text \<open>
  C21: Guidance considers the tokens the sampler itself would draw from: on a probability
  row with the usual parameters, the filtered values of the batched top-k path are the
  leading entries of the native sampler's filtered sorted row, whatever the other rows of
  the batch ask for, and the native filter leaves nothing behind them.
\<close>

theorem guided_filter_is_sampler_filter:
  assumes "topk_contract tk" "k_max \<le> length row" "distribution row"
    and "1 \<le> top_k" "0 \<le> top_p" "0 \<le> min_p" "min_p \<le> 1"
    and "any_p \<or> 1 \<le> top_p" "any_m \<or> min_p = 0" "need \<or> min_p = 0"
    and "clamp_k (length row) top_k \<le> k_max"
  shows "topk_row_vals tk k_max any_p any_m row (clamp_k (length row) top_k) top_p min_p =
           take k_max (sampler_filter need (descending row) top_k top_p min_p) \<and>
         (\<forall>x \<in> set (drop k_max (sampler_filter need (descending row) top_k top_p min_p)). x = 0)"
proof -
  note h = descending_nonneg_head[OF assms(3)]
  have f: "sampler_filter need (descending row) top_k top_p min_p =
           map (kept_entry (descending row) top_k top_p min_p) [0 ..< length row]"
    using sampler_filter_entries[of "descending row" top_k top_p min_p need] h assms(3-6,10)
    unfolding distribution_def by (metis descending_props(1,2) length_0_conv)
  have "kept_entry (descending row) top_k top_p min_p j = 0" if "k_max \<le> j" "j < length row" for j
    using that assms(4,11) by (auto simp: kept_entry_def clamp_k_def)
  moreover have "topk_row_vals tk k_max any_p any_m row (clamp_k (length row) top_k) top_p min_p =
      map (kept_entry (descending row) top_k top_p min_p) [0 ..< k_max]"
    using assms by (intro topk_row_vals_entries) simp_all
  ultimately show ?thesis
    using assms(2) unfolding f by (auto simp: take_map drop_map)
qed

lemma stable_topk_contract: "topk_contract stable_ops"
  unfolding topk_contract_def
proof (intro allI impI)
  fix row :: "real list" and k assume k: "k \<le> length row"
  define o1 where "o1 = sort_key (\<lambda>i. - (row ! i)) [0 ..< length row]"
  have o1: "set o1 = {0 ..< length row}" "distinct o1" "length o1 = length row"
    by (simp_all add: o1_def)
  have tk: "topk stable_ops row k = map (\<lambda>i. (row ! i, i)) (take k o1)"
    by (simp add: stable_ops_def stable_sort_desc_def o1_def take_map)
  have so: "sorted (map (\<lambda>i. - (row ! i)) o1)" by (simp add: o1_def)
  then have mono: "row ! (o1 ! j) \<le> row ! (o1 ! i)" if "i \<le> j" "j < length o1" for i j
    using sorted_nth_mono[OF so that(1)] that by simp
  have fs: "map fst (topk stable_ops row k) = map ((!) row) (take k o1)" by (simp add: tk comp_def)
  have a: "length (topk stable_ops row k) = k" using k by (simp add: tk o1)
  have b: "distinct (map snd (topk stable_ops row k))" by (simp add: tk comp_def o1(2))
  have c: "\<forall>(v, i) \<in> set (topk stable_ops row k). i < length row \<and> v = row ! i"
    using o1(1) by (auto simp: tk dest!: in_set_takeD)
  have d: "sorted (rev (map fst (topk stable_ops row k)))"
    unfolding fs using mono k o1(3) by (auto simp: sorted_rev_iff_nth_mono)
  have e: "row ! i \<le> v" if "i < length row" "i \<notin> snd ` set (topk stable_ops row k)"
    "v \<in> fst ` set (topk stable_ops row k)" for i v
  proof -
    note i = that
    have "i \<in> set o1" using that(1) o1(1) by simp
    then obtain j where j: "j < length o1" "o1 ! j = i" by (auto simp: in_set_conv_nth)
    obtain m where m: "m < k" "v = row ! (o1 ! m)" using i(3) k o1(3) by (auto simp: tk in_set_conv_nth)
    have "k \<le> j"
    proof (rule ccontr)
      assume "\<not> k \<le> j"
      then have "i \<in> set (take k o1)" using j by (auto simp: in_set_conv_nth)
      then show False using i(2) by (force simp: tk)
    qed
    then show ?thesis using mono[of m j] m j by simp
  qed
  show "length (topk stable_ops row k) = k \<and> distinct (map snd (topk stable_ops row k)) \<and>
      (\<forall>(v, i) \<in> set (topk stable_ops row k). i < length row \<and> v = row ! i) \<and>
      sorted (rev (map fst (topk stable_ops row k))) \<and>
      (\<forall>i < length row. i \<notin> snd ` set (topk stable_ops row k) \<longrightarrow>
         (\<forall>v \<in> fst ` set (topk stable_ops row k). row ! i \<le> v))"
    using a b c d e by blast
qed

definition demo_row :: "real list" where
  "demo_row = [1 / 8, 1 / 2, 1 / 16, 1 / 4, 1 / 16]"

lemma demo_topk: "topk stable_ops demo_row 3 = [(1 / 2, 1), (1 / 4, 3), (1 / 8, 0)]"
  by code_simp

lemma demo_vals: "topk_row_vals stable_ops 3 True True demo_row 2 (9 / 10) (1 / 10) = [1 / 2, 1 / 4, 0]"
  by code_simp

lemma demo_send:
  "topk_row stable_ops 3 True True demo_row 2 (9 / 10) (1 / 10) None = Send [1, 3] [1 / 2, 1 / 4] [1, 3, 0] [1 / 2, 1 / 4, 0]"
  by (simp add: topk_row_def Let_def demo_topk demo_vals entropy_skips_def)

theorem gpu_candidates_aligned_witness:
  "topk_row stable_ops 3 True True demo_row 2 (9 / 10) (1 / 10) None = Send [1, 3] [1 / 2, 1 / 4] [1, 3, 0] [1 / 2, 1 / 4, 0]
   \<and> [1, 3] = take (length [1, 3 :: nat]) [1, 3, 0 :: nat] \<and> distinct [1, 3 :: nat]"
  using gpu_candidates_aligned[OF stable_topk_contract _ _ demo_send] demo_send
  by (simp add: demo_row_def)

theorem guided_filter_is_sampler_filter_witness:
  "topk_row_vals stable_ops 3 True True demo_row (clamp_k (length demo_row) 2) (9 / 10) (1 / 10) =
     take 3 (sampler_filter True (descending demo_row) 2 (9 / 10) (1 / 10))"
  using guided_filter_is_sampler_filter[OF stable_topk_contract, of 3 demo_row 2 "9 / 10" "1 / 10" True True True]
  by (simp add: demo_row_def distribution_def clamp_k_def)

section \<open>What the pending result consists of\<close>

lemma topk_part_rows:
  assumes "topk_part tk lib probs params rows reqs = (pt, reqs')"
  shows "set (pt_send pt) \<subseteq> set rows" "fst ` set (pt_det pt) \<subseteq> set rows"
    "length (pt_full pt) = length (pt_send pt)"
  using assms unfolding topk_part_def Let_def
  by (auto split: prod.splits row_out.splits dest!: set_zip_leftD)

lemma all_part_Cons:
  assumes "all_part tk lib probs params (i # rows) reqs = (pt, reqs')"
  obtains pt1 reqs1 reqs2 x where "all_part tk lib probs params rows reqs1 = (pt1, reqs2)"
    "pt = pt1\<lparr>pt_det := (i, x) # pt_det pt1\<rparr> \<or> pt = pt1 \<or>
     (\<exists>p ids ps. pt = pt1\<lparr>pt_send := i # pt_send pt1, pt_prefix := p # pt_prefix pt1,
                      pt_ids := ids # pt_ids pt1, pt_probs := ps # pt_probs pt1\<rparr>)"
proof -
  define cand where "cand = all_cands tk (probs ! i) (rp_top_p (params ! i)) (rp_min_p (params ! i))"
  show thesis
  proof (cases "length cand = 1")
    case True
    obtain pt1 r1 where "all_part tk lib probs params rows reqs = (pt1, r1)" by fastforce
    then show thesis using that assms True by (auto simp: Let_def cand_def)
  next
    case False
    obtain thr q where e: "extract_entropy_threshold lib (reqs ! i) = (thr, q)" by fastforce
    show thesis
    proof (cases "all_entropy_skips thr (map snd cand)")
      case True
      then show thesis using that assms False e by (auto simp: Let_def cand_def)
    next
      case go: False
      obtain p q2 where p: "get_prefix_ids_incremental q = (p, q2)" by fastforce
      obtain pt1 r1 where r: "all_part tk lib probs params rows (reqs[i := q2]) = (pt1, r1)" by fastforce
      then have "pt = pt1\<lparr>pt_send := i # pt_send pt1, pt_prefix := p # pt_prefix pt1,
                      pt_ids := map fst cand # pt_ids pt1, pt_probs := map snd cand # pt_probs pt1\<rparr>"
        using assms False go e p by (simp add: Let_def cand_def)
      then show thesis using that[OF r] by blast
    qed
  qed
qed

lemma all_part_rows:
  "all_part tk lib probs params rows reqs = (pt, reqs') \<Longrightarrow>
     set (pt_send pt) \<subseteq> set rows \<and> fst ` set (pt_det pt) \<subseteq> set rows"
proof (induction rows arbitrary: reqs reqs' pt)
  case (Cons i rows)
  from Cons.prems show ?case
    by (rule all_part_Cons) (use Cons.IH in fastforce)
qed (simp add: empty_part_def)

definition guided_rows :: "greq list \<Rightarrow> nat set" where
  "guided_rows reqs = {i. i < length reqs \<and> req_wants_value_guidance (reqs ! i)}"

lemma build_pending_Some:
  assumes "build_pending tk lib fn probs params reqs = (Inr (Some pd), reqs')"
  obtains det where "pd_guided pd = fill_deterministic det probs" "fst ` set det \<subseteq> guided_rows reqs"
    "set (pd_send pd) \<subseteq> guided_rows reqs"
    "pd_gpu pd \<noteq> None \<longrightarrow> pd_cand_probs pd = [] \<and> pd_send pd \<noteq> []"
proof -
  define gr where "gr = filter (\<lambda>i. req_wants_value_guidance (reqs ! i)) [0 ..< length reqs]"
  define ra where "ra = filter (\<lambda>i. rp_top_k (params ! i) = TOP_K_ALL) gr"
  define rt where "rt = filter (\<lambda>i. rp_top_k (params ! i) \<noteq> TOP_K_ALL) gr"
  have gr: "set gr = guided_rows reqs" "set ra \<subseteq> set gr" "set rt \<subseteq> set gr"
    by (auto simp: gr_def ra_def rt_def guided_rows_def)
  obtain a reqs1 where a: "(if rt = [] then (empty_part, reqs) else topk_part tk lib probs params rt reqs) = (a, reqs1)"
    by fastforce
  obtain b reqs2 where b: "all_part tk lib probs params ra reqs1 = (b, reqs2)" by fastforce
  obtain hard where h: "any_target lib reqs = Inr hard"
    using assms by (cases "any_target lib reqs") (auto simp: build_pending_def Let_def split: if_splits)
  define gpu where "gpu = (expectation_like fn \<and> ra = [] \<and> \<not> hard)"
  have ar: "set (pt_send a) \<subseteq> set gr" "fst ` set (pt_det a) \<subseteq> set gr" "length (pt_full a) = length (pt_send a)"
    using topk_part_rows[of tk lib probs params rt reqs a reqs1] a gr(3)
    by (auto simp: empty_part_def split: if_splits)
  have br: "set (pt_send b) \<subseteq> set gr" "fst ` set (pt_det b) \<subseteq> set gr" "ra = [] \<Longrightarrow> pt_probs b = []"
    using all_part_rows[OF b] gr(2) b by (auto simp: empty_part_def)
  have pd: "pd_guided pd = fill_deterministic (pt_det a @ pt_det b) probs" "pd_send pd = pt_send a @ pt_send b"
    "pd_cand_probs pd = (if gpu then [] else pt_probs a) @ pt_probs b"
    "pd_gpu pd = (if gpu \<and> pt_full a \<noteq> [] then Some (map snd (pt_full a), map fst (pt_full a)) else None)"
    using assms a b h unfolding build_pending_def Let_def gr_def[symmetric] ra_def[symmetric] rt_def[symmetric]
    by (auto simp: gpu_def split: if_splits)
  show thesis
  proof (rule that[of "pt_det a @ pt_det b"])
    show "pd_gpu pd \<noteq> None \<longrightarrow> pd_cand_probs pd = [] \<and> pd_send pd \<noteq> []"
      using pd ar(3) br(3) by (auto simp: gpu_def split: if_splits)
  qed (use pd ar br gr(1) in auto)
qed

lemma length_fill_deterministic [simp]: "length (fill_deterministic det probs) = length probs"
  unfolding fill_deterministic_def by (induction det arbitrary: probs) auto

lemma fill_deterministic_other: "i \<notin> fst ` set det \<Longrightarrow> fill_deterministic det probs ! i = probs ! i"
  unfolding fill_deterministic_def by (induction det arbitrary: probs) auto

section \<open>Over HTTP a device-path batch cannot be guided\<close>

lemma apply_guidance_no_probs:
  assumes "pd_cand_probs pd = []" "pd_send pd \<noteq> []"
  shows "\<exists>e. apply_guidance lib fn pd reqs vals = Inl e"
proof -
  obtain i rows where i: "pd_send pd = i # rows" using assms(2) by (cases "pd_send pd") auto
  have "\<exists>e. guide_row lib fn pd (reqs ! i) vals 0 = Inl e"
    using assms(1) by (cases "bind_res (py_item vals 0) to_tensor") (simp_all add: guide_row_def py_item_def)
  then show ?thesis by (auto simp: apply_guidance_def i)
qed


definition scale_req :: greq where
  "scale_req = demo_req\<lparr>g_custom := PDict [(''value_scale'', PInt 2)]\<rparr>"

definition scale_params :: "row_params list" where
  "scale_params = [\<lparr>rp_top_k = 2, rp_top_p = 1, rp_min_p = 0\<rparr>]"

lemma demo_row2: "topk stable_ops demo_row 2 = [(1 / 2, 1), (1 / 4, 3)]"
  "topk_row_vals stable_ops 2 False False demo_row 2 1 0 = [1 / 2, 1 / 4]"
  by code_simp+

lemma scale_req_reads:
  "req_wants_value_guidance scale_req" "extract_target_value demo_lib \<lparr>kw_args = [], kw_req = Some scale_req\<rparr> = Inr None"
  "extract_entropy_threshold demo_lib scale_req = (None, scale_req)"
  "get_prefix_ids_incremental scale_req = ([7, 8], scale_req\<lparr>prefix_cache := Some (2, 0, [7, 8])\<rparr>)"
  by (simp_all add: scale_req_def demo_req_def req_wants_value_guidance_def guidance_keys_def extract_target_value_def
      get_kwarg_or_custom_param_def get_req_custom_params_def dict_get_def extract_entropy_threshold_def
      get_prefix_ids_incremental_def Let_def)

lemma demo_pending:
  "build_pending stable_ops demo_lib FExpectation [demo_row] scale_params [scale_req] =
     (Inr (Some \<lparr>pd_guided = [demo_row], pd_send = [0], pd_prefix = [[7, 8]], pd_cand_ids = [[1, 3]],
                  pd_cand_probs = [], pd_gpu = Some ([[1 / 2, 1 / 4]], [[1, 3]])\<rparr>),
      [scale_req\<lparr>prefix_cache := Some (2, 0, [7, 8])\<rparr>])"
proof -
  have v: "vocab_size [demo_row] = 5" "k_max_of 5 scale_params [0] = 2" "clamp_k 5 2 = 2" "(2 :: int) \<noteq> TOP_K_ALL"
    by (simp_all add: vocab_size_def demo_row_def k_max_of_def scale_params_def clamp_k_def TOP_K_ALL_def)
  have r: "topk_row stable_ops 2 False False demo_row 2 1 0 None = Send [1, 3] [1 / 2, 1 / 4] [1, 3] [1 / 2, 1 / 4]"
    by (simp add: topk_row_def Let_def demo_row2 entropy_skips_def)
  have t: "topk_part stable_ops demo_lib [demo_row] scale_params [0] [scale_req] =
     (\<lparr>pt_det = [], pt_send = [0], pt_prefix = [[7, 8]], pt_ids = [[1, 3]], pt_probs = [[1 / 2, 1 / 4]],
       pt_full = [([1, 3], [1 / 2, 1 / 4])]\<rparr>, [scale_req\<lparr>prefix_cache := Some (2, 0, [7, 8])\<rparr>])"
    unfolding topk_part_def Let_def v(1,2)
    by (simp add: scale_params_def scale_req_reads v r)
  show ?thesis
    unfolding build_pending_def Let_def
    by (simp add: scale_req_reads scale_params_def[symmetric] v t empty_part_def fill_deterministic_def)
       (simp add: scale_params_def v)
qed

definition demo_cfg :: lvm_guided_config where
  "demo_cfg = \<lparr>c_url = Some ''http://lvm'', c_timeout = 5, c_bypass_cache = False, c_fn = FExpectation\<rparr>"


section \<open>Rows without guidance\<close>

lemma apply_guidance_from_other:
  "apply_guidance_from lib fn pd reqs vals k rows g = Inr g' \<Longrightarrow>
     length g' = length g \<and> (\<forall>i. i \<notin> set rows \<longrightarrow> g' ! i = g ! i)"
  by (induction rows arbitrary: k g) (fastforce simp: bind_res_Inr_iff)+

lemma scatter_rows_other:
  "length (foldl (\<lambda>g (i, j). g[i := f g i j]) g xs) = length g"
  "i \<notin> fst ` set xs \<Longrightarrow> foldl (\<lambda>g (i, j). g[i := f g i j]) g xs ! i = g ! i"
  by (induction xs arbitrary: g) auto

lemma apply_guidance_gpu_other:
  assumes "apply_guidance_gpu lib pd reqs gpu embs = Inr g"
  shows "length g = length (pd_guided pd)" "i \<notin> set (pd_send pd) \<Longrightarrow> g ! i = pd_guided pd ! i"
proof -
  obtain f where g: "g = foldl (\<lambda>g (i, j). g[i := f g i j]) (pd_guided pd)
      (zip (pd_send pd) [0 ..< length (fst gpu)])"
    using assms unfolding apply_guidance_gpu_def Let_def by (auto simp: bind_res_Inr_iff)
  show "length g = length (pd_guided pd)" unfolding g by (rule scatter_rows_other(1))
  show "g ! i = pd_guided pd ! i" if "i \<notin> set (pd_send pd)"
    unfolding g by (rule scatter_rows_other(2)) (use that in \<open>auto dest: set_zip_leftD\<close>)
qed

lemma gpu_step_result:
  assumes "gpu_step env lib pd gpu reqs ip = (Inr g, ip')"
  obtains embs where "apply_guidance_gpu lib pd reqs gpu embs = Inr g"
  using assms unfolding gpu_step_def andthen_def Let_def by (auto split: prod.splits sum.splits)

lemma cpu_step_result:
  assumes "cpu_step env http lib cfg pd st = (Inr (Some g), st')"
  obtains vals where "apply_guidance lib (c_fn cfg) pd (sp_reqs st) vals = Inr g"
  using assms unfolding cpu_step_def Let_def by (auto split: prod.splits sum.splits simp: bind_res_Inr_iff)

lemma apply_pending_other:
  assumes "apply_pending env http lib cfg pd st = (Inr (Some g), st')"
  shows "length g = length (pd_guided pd)" "i \<notin> set (pd_send pd) \<Longrightarrow> g ! i = pd_guided pd ! i"
proof -
  consider "g = pd_guided pd" | embs gpu where "apply_guidance_gpu lib pd (sp_reqs st) gpu embs = Inr g"
    | vals where "apply_guidance lib (c_fn cfg) pd (sp_reqs st) vals = Inr g"
    using assms unfolding apply_pending_def wrap_error_def
    by (auto split: if_splits option.splits prod.splits sum.splits elim: gpu_step_result cpu_step_result)
  then have "length g = length (pd_guided pd) \<and> (\<forall>i. i \<notin> set (pd_send pd) \<longrightarrow> g ! i = pd_guided pd ! i)"
    by cases (use apply_guidance_gpu_other apply_guidance_from_other in \<open>auto simp: apply_guidance_def\<close>)
  then show "length g = length (pd_guided pd)" "i \<notin> set (pd_send pd) \<Longrightarrow> g ! i = pd_guided pd ! i"
    by blast+
qed

lemma apply_guided_cases:
  assumes "apply_guided tk env http lib cfg probs params st = (Inr (Some g), st')"
  obtains pd reqs st1 where "build_pending tk lib (c_fn cfg) probs params (sp_reqs st) = (Inr (Some pd), reqs)"
    "apply_pending env http lib cfg pd st1 = (Inr (Some g), st')" "sp_reqs st1 = reqs"
  using assms unfolding apply_guided_def
  by (auto split: option.splits prod.splits sum.splits)

lemma apply_guided_other:
  assumes "apply_guided tk env http lib cfg probs params st = (Inr (Some g), st')"
  shows "length g = length probs" "i \<notin> guided_rows (sp_reqs st) \<Longrightarrow> g ! i = probs ! i"
proof -
  obtain pd reqs st1 where b: "build_pending tk lib (c_fn cfg) probs params (sp_reqs st) = (Inr (Some pd), reqs)"
    and p: "apply_pending env http lib cfg pd st1 = (Inr (Some g), st')"
    using assms by (rule apply_guided_cases)
  obtain det where d: "pd_guided pd = fill_deterministic det probs" "fst ` set det \<subseteq> guided_rows (sp_reqs st)"
    "set (pd_send pd) \<subseteq> guided_rows (sp_reqs st)"
    using b by (rule build_pending_Some)
  show "length g = length probs" using apply_pending_other(1)[OF p] d(1) by simp
  show "g ! i = probs ! i" if "i \<notin> guided_rows (sp_reqs st)"
  proof -
    have "i \<notin> set (pd_send pd)" "i \<notin> fst ` set det" using that d by auto
    then show ?thesis using apply_pending_other(2)[OF p] d(1) by (simp add: fill_deterministic_other)
  qed
qed

end
