(* ===== verification/SamplerProps.thy ===== *)
theory SamplerProps
  imports GuidedSamplerProps
begin

text \<open>
  Properties of \<open>srt/layers/sampler.py\<close>: the seeded draw stays on the support of its weights,
  token temperatures scale exactly the listed logits at every decoding step, and which
  probabilities a batch with guidance is sampled from.
\<close>

lemma argmax_less: "xs \<noteq> [] \<Longrightarrow> argmax xs < length xs"
proof -
  assume "xs \<noteq> []"
  then have "Max (set xs) \<in> set xs" by simp
  then have "takeWhile (\<lambda>x. x < Max (set xs)) xs \<noteq> xs"
    by (metis (mono_tags, lifting) less_irrefl takeWhile_eq_all_conv)
  then show ?thesis
    unfolding argmax_def by (metis (no_types, lifting) length_takeWhile_le le_neq_implies_less takeWhile_eq_take take_all_iff order_refl)
qed

lemma argmax_ge: "j < length xs \<Longrightarrow> xs ! j \<le> xs ! argmax xs"
proof -
  assume j: "j < length xs"
  then have ne: "xs \<noteq> []" by auto
  have "\<not> xs ! argmax xs < Max (set xs)"
    using nth_length_takeWhile[of "\<lambda>x. x < Max (set xs)" xs] argmax_less[OF ne] by (simp add: argmax_def)
  moreover have "xs ! j \<le> Max (set xs)" using j by simp
  ultimately show ?thesis by linarith
qed

section \<open>The seeded draw stays on the support\<close>

lemma uniform_sample_bounds: "1 / 10 ^ 10 \<le> uniform_sample h" "uniform_sample h \<le> 1 - 1 / 2 ^ 24"
proof -
  have "sint h mod 2 ^ 24 < (2 :: int) ^ 24" by (intro pos_mod_bound) simp
  then have "sint h mod 2 ^ 24 \<le> 2 ^ 24 - 1" by simp
  then have "real_of_int (sint h mod 2 ^ 24) \<le> real_of_int (2 ^ 24 - 1)" by (rule of_int_le_iff[THEN iffD2])
  then have "real_of_int (sint h mod 2 ^ 24) / 2 ^ 24 \<le> 1 - 1 / 2 ^ 24" by (simp add: field_simps)
  then show "1 / 10 ^ 10 \<le> uniform_sample h" "uniform_sample h \<le> 1 - 1 / 2 ^ 24"
    by (auto simp: uniform_sample_def)
qed

lemma neg_ln_sample: "1 / 2 ^ 24 \<le> - ln (uniform_sample h)" "- ln (uniform_sample h) \<le> 25"
proof -
  note b = uniform_sample_bounds[of h]
  have pos: "0 < uniform_sample h" using b(1) by (rule less_le_trans[rotated]) simp
  have "ln (uniform_sample h) \<le> uniform_sample h - 1" using pos by (rule ln_le_minus_one)
  then show "1 / 2 ^ 24 \<le> - ln (uniform_sample h)" using b(2) by linarith
  have "exp (25 :: real) = exp (5 / 2) ^ 10" by (simp flip: exp_of_nat_mult)
  moreover have "(10 :: real) \<le> exp (5 / 2)"
  proof -
    have "(1 + (5 / 2) / 16) \<le> exp ((5 / 2) / 16 :: real)" using exp_ge_add_one_self by blast
    then have "(1 + (5 / 2) / 16) ^ 16 \<le> exp ((5 / 2) / 16 :: real) ^ 16" by (intro power_mono) simp_all
    then show ?thesis by (simp flip: exp_of_nat_mult add: power_divide)
  qed
  ultimately have "(10 :: real) ^ 10 \<le> exp 25" by (metis power_mono zero_le_numeral)
  then have "exp (- 25) \<le> (1 :: real) / 10 ^ 10" by (simp add: exp_minus field_simps)
  then have "exp (- 25) \<le> uniform_sample h" using b(1) by linarith
  then have "- 25 \<le> ln (uniform_sample h)" using pos by (metis exp_gt_zero ln_exp ln_mono)
  then show "- ln (uniform_sample h) \<le> 25" by simp
qed

text \<open>
  The seeded draw returns a token of positive weight: although the weights are raised
  by a constant before the logarithm, as soon as some weight of the row is at least 1/20 no
  token of weight zero can win, whatever the seed and the position; so a filtered-out
  token is never sampled from such a row.
\<close>

theorem seeded_draw_on_support:
  assumes "j < length weights" "1 / 20 \<le> weights ! j" "\<forall>w \<in> set weights. 0 \<le> w"
  shows "multinomial_row weights seed position < length weights \<and>
         0 < weights ! multinomial_row weights seed position"
proof -
  define u where "u i = - ln (uniform_sample (seed_hash seed position i))" for i
  define score where "score = map (\<lambda>i. ln (weights ! i + 1 / 10 ^ 10) - ln (u i)) [0 ..< length weights]"
  define w where "w = multinomial_row weights seed position"
  have w: "w = argmax score" by (simp add: w_def multinomial_row_def score_def u_def)
  have "score \<noteq> []" using assms(1) by (auto simp: score_def)
  then have lt: "w < length weights" using argmax_less[of score] by (simp add: w score_def)
  have u: "1 / 2 ^ 24 \<le> u i" "u i \<le> 25" "0 < u i" for i
    using neg_ln_sample[of "seed_hash seed position i"] by (simp_all add: u_def less_le_trans[of 0 "1 / 2 ^ 24"])
  have "0 < weights ! w"
  proof (rule ccontr)
    assume "\<not> 0 < weights ! w"
    then have z: "weights ! w = 0" using assms(3) lt by (meson nth_mem order.antisym not_less)
    have "score ! j \<le> score ! w" using argmax_ge[of j score] assms(1) by (simp add: w score_def)
    then have "ln (weights ! j + 1 / 10 ^ 10) - ln (u j) \<le> ln (1 / 10 ^ 10) - ln (u w)"
      using assms(1) lt z by (simp add: score_def)
    moreover have "ln ((weights ! j + 1 / 10 ^ 10) / u j) = ln (weights ! j + 1 / 10 ^ 10) - ln (u j)"
      using assms(2) less_imp_neq[OF u(3)[of j]] unfolding ln_div by simp
    moreover have "ln ((1 / 10 ^ 10) / u w) = ln (1 / 10 ^ 10) - ln (u w)"
      using less_imp_neq[OF u(3)[of w]] unfolding ln_div by simp
    ultimately have "ln ((weights ! j + 1 / 10 ^ 10) / u j) \<le> ln ((1 / 10 ^ 10) / u w)" by linarith
    then have "(weights ! j + 1 / 10 ^ 10) / u j \<le> (1 / 10 ^ 10) / u w"
      using assms(2) u by (subst (asm) ln_le_cancel_iff) (simp_all add: add_pos_pos)
    moreover have "(1 / 10 ^ 10) / u w \<le> (1 / 10 ^ 10) / (1 / 2 ^ 24)"
      using u by (intro divide_left_mono) simp_all
    moreover have "(1 / 20) / 25 \<le> (weights ! j + 1 / 10 ^ 10) / u j"
      using u assms(2) by (intro frac_le) simp_all
    ultimately have "(1 / 20) / 25 \<le> (1 / 10 ^ 10) / (1 / 2 ^ 24 :: real)" by (meson order.trans)
    then show False by simp
  qed
  then show ?thesis using lt by (simp add: w_def)
qed

theorem seeded_draw_on_support_witness:
  "0 < [0, 1 / 2, 0, 1 / 2 :: real] ! multinomial_row [0, 1 / 2, 0, 1 / 2] 42 7"
  using seeded_draw_on_support[of 1 "[0, 1 / 2, 0, 1 / 2]" 42 7] by simp

section \<open>Token temperatures over a request's life\<close>

lemma parse_scale_items_distinct:
  "parse_scale_items lib items acc = Inr m \<Longrightarrow> distinct (map fst acc) \<Longrightarrow> distinct (map fst m)"
  by (induction lib items acc rule: parse_scale_items.induct)
     (auto simp: distinct_update split: sum.splits)

lemma parse_boosted_distinct:
  "parse_boosted lib ts d acc = Inr m \<Longrightarrow> distinct (map fst acc) \<Longrightarrow> distinct (map fst m)"
  by (induction lib ts d acc rule: parse_boosted.induct) (auto simp: distinct_update split: sum.splits)

lemma parse_temp_scale_distinct: "parse_temp_scale lib cp = Inr m \<Longrightarrow> distinct (map fst m)"
  unfolding parse_temp_scale_def Let_def
  by (auto simp: bind_res_Inr_iff split: if_splits pyval.splits
      intro: parse_scale_items_distinct parse_boosted_distinct)

lemma length_scale_row [simp]: "length (scale_row ids divs row) = length row"
proof -
  have "length (foldl (\<lambda>r (t, d). r[nat t := x_mul (row ! nat t) d]) r xs) = length r"
    for xs :: "(int \<times> xfloat) list" and r
    by (induction xs arbitrary: r) auto
  then show ?thesis by (simp add: scale_row_def)
qed

lemma foldl_scale_nth:
  assumes "distinct (map fst xs)" "\<forall>(t, d) \<in> set xs. 0 \<le> t \<and> t < int (length row)"
    and "length r = length row" "j < length row"
  shows "foldl (\<lambda>r (t, d). r[nat t := x_mul (row ! nat t) d]) r xs ! j =
         (case map_of xs (int j) of Some d \<Rightarrow> x_mul (row ! j) d | None \<Rightarrow> r ! j)"
  using assms
proof (induction xs arbitrary: r)
  case (Cons x xs)
  obtain t d where x: "x = (t, d)" by (cases x)
  then have t: "0 \<le> t" "t < int (length row)" using Cons.prems(2) by auto
  have "map_of xs t = None" using Cons.prems(1) x by (simp add: map_of_eq_None_iff)
  then show ?case
    using Cons t by (auto simp: x nth_list_update split: option.splits)
qed simp

lemma nth_scale_row:
  assumes "distinct (map fst m)" "j < length row"
  shows "scale_row (map fst m) (map snd m) row ! j =
         (case map_of m (int j) of Some d \<Rightarrow> x_mul (row ! j) d | None \<Rightarrow> row ! j)"
proof -
  define v where "v = filter (\<lambda>(t, d). 0 \<le> t \<and> t < int (length row)) m"
  have d: "distinct (map fst v)" using assms(1) by (simp add: v_def distinct_map_filter)
  have "map_of v (int j) = map_of m (int j)"
  proof (cases "map_of m (int j)")
    case None
    then have "int j \<notin> fst ` set v" by (auto simp: v_def map_of_eq_None_iff)
    then show ?thesis using None by (metis map_of_eq_None_iff)
  next
    case (Some y)
    then have "(int j, y) \<in> set v" using assms by (auto simp: v_def dest: map_of_SomeD)
    then show ?thesis using d Some by simp
  qed
  then show ?thesis
    using foldl_scale_nth[OF d, of row row j] assms(2)
    by (auto simp: scale_row_def zip_map_fst_snd v_def)
qed

lemma temp_scale_row_value:
  assumes "distinct (map fst m)" "m \<noteq> []"
    and "extract_token_temperature_scale lib req = (Inr (Some m), r)" "temp_tensors r \<in> {None, Some (map fst m, map snd m)}"
  shows "temp_scale_row lib row req =
     (Inr (map (\<lambda>j. case map_of m (int j) of Some d \<Rightarrow> x_mul (row ! j) d | None \<Rightarrow> row ! j) [0 ..< length row]),
      r\<lparr>temp_tensors := Some (map fst m, map snd m)\<rparr>)"
proof -
  have "scale_row (map fst m) (map snd m) row =
        map (\<lambda>j. case map_of m (int j) of Some d \<Rightarrow> x_mul (row ! j) d | None \<Rightarrow> row ! j) [0 ..< length row]"
    by (rule nth_equalityI) (simp_all add: nth_scale_row[OF assms(1)] split: option.split)
  then show ?thesis using assms(2-4) by (cases r) (auto simp: temp_scale_row_def)
qed

lemma temp_scale_cached:
  assumes "distinct (map fst m)" "m \<noteq> []" "temp_scale_cache req = TMap m"
    "temp_tensors req = Some (map fst m, map snd m)"
  shows "run_all (temp_scale_row lib) rows req =
     (Inr (map (\<lambda>row. map (\<lambda>j. case map_of m (int j) of Some d \<Rightarrow> x_mul (row ! j) d | None \<Rightarrow> row ! j)
                       [0 ..< length row]) rows), req)"
proof (induction rows)
  case (Cons row rows)
  have "extract_token_temperature_scale lib req = (Inr (Some m), req)"
    using assms(3) by (simp add: extract_token_temperature_scale_def)
  from temp_scale_row_value[OF assms(1,2) this] assms(4) Cons show ?case by (cases req) simp
qed simp

lemma temp_scale_nothing:
  "temp_scale_cache req = TNothing \<Longrightarrow> run_all (temp_scale_row lib) rows req = (Inr rows, req)"
  by (induction rows) (simp_all add: temp_scale_row_def extract_token_temperature_scale_def)

text \<open>
  Token temperatures take effect at every decoding step. For a request whose map \<open>m\<close>
  parses, the logits of each of its decoding steps come out with exactly the listed entries
  multiplied by their factor and all others unchanged, although the map is parsed and its
  tensors are built only at the first step; ids outside the vocabulary are ignored.
\<close>

theorem token_temperatures_every_step:
  assumes "temp_scale_cache req = TUnset" "temp_tensors req = None"
    and "get_req_custom_params (Some req) \<noteq> []"
    and "parse_temp_scale lib (get_req_custom_params (Some req)) = Inr m"
  shows "fst (run_all (temp_scale_row lib) rows req) =
     Inr (map (\<lambda>row. map (\<lambda>j. case map_of m (int j) of Some d \<Rightarrow> x_mul (row ! j) d | None \<Rightarrow> row ! j)
                      [0 ..< length row]) rows)"
proof (cases rows)
  case (Cons row rest)
  have d: "distinct (map fst m)" using assms(4) by (rule parse_temp_scale_distinct)
  show ?thesis
  proof (cases "m = []")
    case True
    then have "temp_scale_row lib row req = (Inr row, req\<lparr>temp_scale_cache := TNothing\<rparr>)"
      using assms by (simp add: temp_scale_row_def extract_token_temperature_scale_def Let_def)
    then show ?thesis using True Cons by (simp add: temp_scale_nothing map_nth)
  next
    case False
    define r where "r = req\<lparr>temp_scale_cache := TMap m, temp_tensors := Some (map fst m, map snd m)\<rparr>"
    have "extract_token_temperature_scale lib req = (Inr (Some m), req\<lparr>temp_scale_cache := TMap m\<rparr>)"
      using assms False by (auto simp: extract_token_temperature_scale_def Let_def split: list.splits)
    from temp_scale_row_value[OF d False this, of row] assms(2)
    have "temp_scale_row lib row req =
        (Inr (map (\<lambda>j. case map_of m (int j) of Some d \<Rightarrow> x_mul (row ! j) d | None \<Rightarrow> row ! j) [0 ..< length row]), r)"
      by (simp add: r_def)
    then show ?thesis using temp_scale_cached[OF d False, of r lib rest] Cons by (simp add: r_def)
  qed
qed simp

definition temp_req :: greq where
  "temp_req = demo_req\<lparr>g_custom := PDict [(''boosted_token_ids'', PList [PInt 2, PInt 9]), (''token_temp_divisor'', PInt 3)]\<rparr>"

theorem token_temperatures_every_step_witness:
  "fst (run_all (temp_scale_row demo_lib) [[Fin 1, Fin 2, Fin 4], [Fin 5, Fin 6, Fin (- 7)]] temp_req) =
   Inr [[Fin 1, Fin 2, Fin 12], [Fin 5, Fin 6, Fin (- 21)]]"
proof -
  have "parse_temp_scale demo_lib (get_req_custom_params (Some temp_req)) = Inr [(2, Fin 3), (9, Fin 3)]"
    by (simp add: parse_temp_scale_def temp_req_def demo_req_def get_req_custom_params_def dict_get_def
        parse_required_float_def py_float_def py_int_def py_iter_def)
  then show ?thesis
    using token_temperatures_every_step[of temp_req demo_lib "[(2, Fin 3), (9, Fin 3)]"
        "[[Fin 1, Fin 2, Fin 4], [Fin 5, Fin 6, Fin (- 7)]]"]
    by (simp add: temp_req_def demo_req_def get_req_custom_params_def upt_rec)
qed

section \<open>What a batch with guidance is sampled from\<close>

text \<open>
  C39: Guidance changes the rows of the requests that ask for it and no others, and a batch
  in which some row was guided is sampled directly. A request without guidance in such a
  batch is therefore drawn from its full, unfiltered probabilities, also when the batch
  needs top-k, top-p or min-p sampling.
\<close>

theorem guided_batch_skips_filters:
  assumes "apply_guided tk env http lib cfg probs (si_params info) st = (Inr (Some g), st')" "\<not> is_all_greedy info"
  shows "guided_route tk env http lib (Some cfg) info probs st = (Inr (Direct g), st') \<and>
         length g = length probs \<and>
         (\<forall>i < length probs. \<not> req_wants_value_guidance (sp_reqs st ! i) \<longrightarrow> g ! i = probs ! i)"
  using apply_guided_other[OF assms(1)] assms
  by (auto simp: guided_route_def sampling_route_def guided_rows_def)

definition plain_req :: greq where
  "plain_req = demo_req\<lparr>g_custom := PNone\<rparr>"

definition mixed_info :: sampling_info where
  "mixed_info = \<lparr>is_all_greedy = False, need_top_p_sampling = False, need_top_k_sampling = True,
     need_min_p_sampling = False,
     si_params = [\<lparr>rp_top_k = 1, rp_top_p = 1, rp_min_p = 0\<rparr>, \<lparr>rp_top_k = 2, rp_top_p = 1, rp_min_p = 0\<rparr>]\<rparr>"

definition mixed_batch :: sampler where
  "mixed_batch = \<lparr>sp_inproc = None, sp_reqs = [scale_req, plain_req]\<rparr>"

lemma demo_row1: "topk stable_ops demo_row 1 = [(1 / 2, 1)]"
  "topk_row_vals stable_ops 1 False False demo_row 1 1 0 = [1 / 2]"
  by code_simp+

lemma mixed_apply:
  "apply_guided stable_ops env http demo_lib demo_cfg [demo_row, demo_row] (si_params mixed_info) mixed_batch =
     (Inr (Some [[0, 1, 0, 0, 0], demo_row]), mixed_batch)"
proof -
  have v: "vocab_size [demo_row, demo_row] = 5" "k_max_of 5 (si_params mixed_info) [0] = 1" "clamp_k 5 1 = 1"
    "(1 :: int) \<noteq> TOP_K_ALL"
    by (simp_all add: vocab_size_def demo_row_def k_max_of_def mixed_info_def clamp_k_def TOP_K_ALL_def)
  have r: "topk_row stable_ops 1 False False demo_row 1 1 0 None = Deterministic 1"
    by (simp add: topk_row_def Let_def demo_row1 del: One_nat_def)
  have t: "topk_part stable_ops demo_lib [demo_row, demo_row] (si_params mixed_info) [0] [scale_req, plain_req] =
     (\<lparr>pt_det = [(0, 1)], pt_send = [], pt_prefix = [], pt_ids = [], pt_probs = [], pt_full = []\<rparr>,
      [scale_req, plain_req])"
    unfolding topk_part_def Let_def v(1,2)
    by (simp add: mixed_info_def scale_req_reads v r del: One_nat_def)
  have g: "\<not> req_wants_value_guidance plain_req"
    "extract_target_value demo_lib \<lparr>kw_args = [], kw_req = Some plain_req\<rparr> = Inr None"
    by (simp_all add: plain_req_def demo_req_def req_wants_value_guidance_def extract_target_value_def
        get_kwarg_or_custom_param_def get_req_custom_params_def dict_get_def Let_def)
  have k: "rp_top_k (si_params mixed_info ! 0) = 1" by (simp add: mixed_info_def)
  have "build_pending stable_ops demo_lib FExpectation [demo_row, demo_row] (si_params mixed_info) [scale_req, plain_req] =
     (Inr (Some \<lparr>pd_guided = [[0, 1, 0, 0, 0], demo_row], pd_send = [], pd_prefix = [], pd_cand_ids = [],
                  pd_cand_probs = [], pd_gpu = None\<rparr>), [scale_req, plain_req])"
    unfolding build_pending_def Let_def
    by (simp add: scale_req_reads g k v t empty_part_def)
       (simp add: fill_deterministic_def one_hot_row_def demo_row_def numeral_eq_Suc)
  then show ?thesis by (simp add: apply_guided_def apply_pending_def mixed_batch_def demo_cfg_def)
qed

theorem guided_batch_skips_filters_witness:
  "\<forall>env http. guided_route stable_ops env http demo_lib (Some demo_cfg) mixed_info [demo_row, demo_row] mixed_batch =
     (Inr (Direct [[0, 1, 0, 0, 0], demo_row]), mixed_batch) \<and> need_top_k_sampling mixed_info"
  using guided_batch_skips_filters[OF mixed_apply] by (simp add: mixed_info_def)

end
