(* ===== verification/DeviceGuidance.thy ===== *)
theory DeviceGuidance
  imports GuidedSamplerProps
begin

text \<open>
  The device path of guidance: every mode writes the exponential tilting of the filtered
  probabilities.
\<close>

section \<open>Device guidance is exponential tilting\<close>

lemma length_fill_invalid [simp]: "length (fill_invalid vm x xs) = min (length vm) (length xs)"
  by (simp add: fill_invalid_def)

lemma nth_fill_invalid:
  "j < length vm \<Longrightarrow> j < length xs \<Longrightarrow> fill_invalid vm x xs ! j = (if vm ! j then xs ! j else x)"
  by (simp add: fill_invalid_def)

lemma scaled_gibbs:
  assumes "weights_ok p" "length w = length p" "0 < C"
    and w: "\<And>i. i < length p \<Longrightarrow> w ! i = C * (p ! i * exp (lam * v ! i))"
    and s: "1 / 10 ^ 20 \<le> sum_list w"
  shows "map (\<lambda>x. x / max (sum_list w) (1 / 10 ^ 20)) w = gibbs p v lam"
proof -
  have sw: "sum_list w = C * gibbs_z p v lam"
    using w assms(2) by (simp add: sum_list_sum_nth gibbs_z_def sum_distrib_left atLeast0LessThan)
  have "max (sum_list w) (1 / 10 ^ 20) = C * gibbs_z p v lam" using s sw by simp
  then show ?thesis
    using assms(2,3) w by (intro nth_equalityI) (simp_all add: gibbs_def)
qed

lemma normalised_probs_ok:
  assumes "\<forall>x \<in> set p. 0 \<le> x" "1 / 10 ^ 20 \<le> sum_list p"
  shows "length (normalised_probs p) = length p" "weights_ok (normalised_probs p)"
    "sum_list (normalised_probs p) = 1"
    "\<And>j. j < length p \<Longrightarrow> normalised_probs p ! j = p ! j / sum_list p"
proof -
  have s: "0 < sum_list p" using assms(2) by (rule less_le_trans[rotated]) simp
  have e: "normalised_probs p = map (\<lambda>x. x / sum_list p) p"
    using assms(2) by (simp add: normalised_probs_def Let_def)
  show "length (normalised_probs p) = length p" by (simp add: e)
  have sl: "sum_list (map (\<lambda>x. x / sum_list p) p) = sum_list p / sum_list p" by (rule sum_list_map_div)
  show "sum_list (normalised_probs p) = 1" unfolding e sl using s by simp
  then show "weights_ok (normalised_probs p)" using assms(1) s by (auto simp: weights_ok_def e)
  show "\<And>j. j < length p \<Longrightarrow> normalised_probs p ! j = p ! j / sum_list p" by (simp add: e)
qed

text \<open>A padded row: the valid positions are those of positive probability, none of them negligible.\<close>

definition padded_row :: "real list \<Rightarrow> bool" where
  "padded_row p \<longleftrightarrow> 1 / 10 ^ 20 \<le> sum_list p \<and> (\<forall>x \<in> set p. x = 0 \<or> sum_list p / 10 ^ 20 \<le> x)"

lemma padded_rowD:
  assumes "padded_row p"
  shows "1 / 10 ^ 20 \<le> sum_list p" "0 < sum_list p" "\<forall>x \<in> set p. 0 \<le> x"
    "\<And>j. j < length p \<Longrightarrow> 0 < p ! j \<Longrightarrow> 1 / 10 ^ 20 \<le> normalised_probs p ! j"
    "\<And>j. j < length p \<Longrightarrow> \<not> 0 < p ! j \<Longrightarrow> normalised_probs p ! j = 0"
    "\<exists>j < length p. 0 < p ! j"
proof -
  show s: "1 / 10 ^ 20 \<le> sum_list p" using assms by (simp add: padded_row_def)
  then show s0: "0 < sum_list p" by (rule less_le_trans[rotated]) simp
  have nn: "0 \<le> x" if "x \<in> set p" for x
  proof -
    have "x = 0 \<or> sum_list p / 10 ^ 20 \<le> x" using assms that by (simp add: padded_row_def)
    moreover have "0 \<le> sum_list p / 10 ^ 20" using s0 by simp
    ultimately show ?thesis by linarith
  qed
  then show n: "\<forall>x \<in> set p. 0 \<le> x" by blast
  note e = normalised_probs_ok[OF n s]
  show "1 / 10 ^ 20 \<le> normalised_probs p ! j" if "j < length p" "0 < p ! j" for j
  proof -
    have "p ! j = 0 \<or> sum_list p / 10 ^ 20 \<le> p ! j" using assms that(1) by (simp add: padded_row_def)
    then have "sum_list p / 10 ^ 20 \<le> p ! j" using that(2) by simp
    then show ?thesis using s0 that(1) by (simp add: e(4) field_simps)
  qed
  show "normalised_probs p ! j = 0" if "j < length p" "\<not> 0 < p ! j" for j
    using that nn[of "p ! j"] e(4) by simp
  show "\<exists>j < length p. 0 < p ! j"
    using weights_ok_ex[OF e(2)] e(1,4) s0 by (auto simp: zero_less_divide_iff)
qed

lemma exp_minus_40: "1 / 10 ^ 20 \<le> exp (- 40 :: real)"
proof -
  have "exp (40 :: real) = (exp 1) ^ 40" by (simp flip: exp_of_nat_mult)
  also have "\<dots> \<le> 3 ^ 40" using exp_le by (intro power_mono) simp_all
  also have "\<dots> \<le> (10 ^ 20 :: real)" by simp
  finally show ?thesis by (simp add: exp_minus field_simps)
qed

lemma max_at_valid:
  assumes "length xs = length vm" "\<exists>j < length vm. vm ! j"
    and "\<And>j. j < length vm \<Longrightarrow> vm ! j \<Longrightarrow> c < xs ! j" "\<And>j. j < length vm \<Longrightarrow> \<not> vm ! j \<Longrightarrow> xs ! j \<le> c"
  shows "\<exists>k < length vm. vm ! k \<and> Max (set xs) = xs ! k"
proof -
  have ne: "xs \<noteq> []" using assms(1,2) by auto
  then obtain k where k: "k < length xs" "xs ! k = Max (set xs)"
    by (metis Max_in finite_set in_set_conv_nth set_empty)
  have le: "\<forall>j < length vm. xs ! j \<le> xs ! k" using k assms(1) by simp
  obtain j where j: "j < length vm" "vm ! j" using assms(2) by blast
  have "c < xs ! k" using assms(3)[OF j] le j(1) by fastforce
  then have "vm ! k" using assms(4)[of k] k(1) assms(1) by force
  then show ?thesis using k assms(1) by auto
qed

lemma softmax_weights_gibbs:
  assumes p: "padded_row probs" and vm: "vm = map (\<lambda>x. x > 0) probs" and len: "length v = length probs"
    and b: "\<forall>i < length probs. \<forall>j < length probs. v ! i * scale - v ! j * scale \<le> 40"
    and lo: "\<forall>j < length probs. - (10 ^ 9) < v ! j * scale"
  shows "softmax_weights vm (normalised_probs probs) (map (\<lambda>x. x * scale) v) = gibbs (normalised_probs probs) v scale"
proof -
  note d = padded_rowD[OF p]
  define pn where "pn = normalised_probs probs"
  note e = normalised_probs_ok[OF d(3,1), folded pn_def]
  define l1 where "l1 = fill_invalid vm (- (10 ^ 9)) (map (\<lambda>x. x * scale) v)"
  define M where "M = Max (set l1)"
  define w where "w = fill_invalid vm 0 (map2 (\<lambda>p l. p * exp l) pn (map (\<lambda>l. l - M) l1))"
  have lens: "length vm = length probs" "length l1 = length probs" "length w = length probs"
    using len e(1) by (simp_all add: vm l1_def w_def)
  have l1: "l1 ! j = (if vm ! j then v ! j * scale else - (10 ^ 9))" if "j < length probs" for j
    using that len lens by (simp add: l1_def nth_fill_invalid)
  have "\<exists>j < length vm. vm ! j" using d(6) by (auto simp: vm)
  then have "\<exists>k < length vm. vm ! k \<and> M = l1 ! k"
    unfolding M_def by (intro max_at_valid[where c = "- (10 ^ 9)"]) (use lo l1 lens in simp_all)
  then obtain k where k: "k < length vm" "vm ! k" "M = l1 ! k" by blast
  have M: "M = v ! k * scale" using k l1 lens by simp
  have wj: "w ! j = exp (- M) * (pn ! j * exp (scale * v ! j))" if "j < length probs" for j
  proof (cases "0 < probs ! j")
    case True
    then show ?thesis using that lens e(1) l1
      by (simp add: w_def nth_fill_invalid vm exp_diff exp_minus field_simps)
  next
    case False
    then show ?thesis using that lens e(1) d(5)[OF that] by (simp add: w_def nth_fill_invalid vm pn_def)
  qed
  have ge: "exp (- 40) * pn ! j \<le> w ! j" if "j < length probs" for j
  proof -
    have "exp (- 40) \<le> exp (scale * v ! j - M)"
      using b[rule_format, of k j] k lens that by (simp add: M mult.commute)
    moreover have "0 \<le> pn ! j" using e(2) that e(1) by (simp add: weights_ok_def)
    ultimately have "exp (- 40) * pn ! j \<le> exp (scale * v ! j - M) * pn ! j" by (rule mult_right_mono)
    moreover have "w ! j = exp (scale * v ! j - M) * pn ! j"
      using wj[OF that] by (simp add: exp_diff exp_minus field_simps)
    ultimately show ?thesis by simp
  qed
  have "exp (- 40) * sum_list pn \<le> sum_list w"
    using ge lens e(1) by (auto simp: sum_list_sum_nth sum_distrib_left atLeast0LessThan intro!: sum_mono)
  then have "1 / 10 ^ 20 \<le> sum_list w" using e(3) exp_minus_40 by simp
  then have "map (\<lambda>x. x / max (sum_list w) (1 / 10 ^ 20)) w = gibbs pn v scale"
    using wj lens e by (intro scaled_gibbs[where C = "exp (- M)"]) simp_all
  then show ?thesis by (simp add: softmax_weights_def Let_def w_def l1_def M_def pn_def)
qed

lemma clamp100: "\<bar>min (max x (- 100)) 100\<bar> \<le> (100 :: real)"
  by (auto simp: abs_le_iff)

lemma gpu_newton_keeps: "\<bar>lam\<bar> \<le> 100 \<Longrightarrow> \<bar>gpu_newton vm log_p dv vals target n lam\<bar> \<le> 100"
proof (induction n arbitrary: lam)
  case (Suc n)
  show ?case unfolding gpu_newton.simps Let_def by (rule Suc.IH) (rule clamp100)
qed simp

lemma ln_floor: "1 / 10 ^ 20 \<le> x \<Longrightarrow> - 180 \<le> ln (x :: real)"
proof -
  assume x: "1 / 10 ^ 20 \<le> x"
  have "(10 :: real) \<le> exp 9" using exp_ge_add_one_self[of 9] by simp
  then have "(10 :: real) ^ 20 \<le> exp 9 ^ 20" by (intro power_mono) simp_all
  then have "(10 :: real) ^ 20 \<le> exp 180" by (simp flip: exp_of_nat_mult)
  then have "exp (- 180) \<le> 1 / (10 :: real) ^ 20" by (simp add: exp_minus field_simps)
  then have "exp (- 180) \<le> x" using x by (rule order.trans)
  then show ?thesis by (metis exp_gt_zero ln_exp ln_mono)
qed

lemma nth_le_sum_list: "\<forall>x \<in> set w. 0 \<le> x \<Longrightarrow> k < length w \<Longrightarrow> w ! k \<le> sum_list (w :: real list)"
  unfolding sum_list_sum_nth by (rule member_le_sum) simp_all

lemma gpu_tilted_gibbs:
  assumes p: "padded_row probs" and vm: "vm = map (\<lambda>x. x > 0) probs" and len: "length vals = length probs"
    and r: "\<forall>v \<in> set vals. 0 \<le> v \<and> v \<le> 1" and lam: "\<bar>lam\<bar> \<le> 100"
    and mv: "0 \<le> mn" "mn \<le> 1"
  shows "gpu_tilted vm (fill_invalid vm (- (10 ^ 9)) (map (\<lambda>p. ln (max p (1 / 10 ^ 20))) (normalised_probs probs)))
           (fill_invalid vm 0 (map (\<lambda>v. v - mn) vals)) lam = gibbs (normalised_probs probs) vals lam"
proof -
  note d = padded_rowD[OF p]
  define pn where "pn = normalised_probs probs"
  note e = normalised_probs_ok[OF d(3,1), folded pn_def]
  define log_p where "log_p = fill_invalid vm (- (10 ^ 9)) (map (\<lambda>p. ln (max p (1 / 10 ^ 20))) pn)"
  define dv where "dv = fill_invalid vm 0 (map (\<lambda>v. v - mn) vals)"
  define ls where "ls = map2 (\<lambda>l d. l + d * lam) log_p dv"
  define M where "M = Max (set ls)"
  define w where "w = fill_invalid vm 0 (map (\<lambda>l. exp (l - M)) ls)"
  have lens: "length vm = length probs" "length ls = length probs" "length w = length probs"
    using len e(1) by (simp_all add: vm log_p_def dv_def ls_def w_def)
  have ls: "ls ! j = (if vm ! j then ln (pn ! j) + (vals ! j - mn) * lam else - (10 ^ 9))" if "j < length probs" for j
    using that len lens e(1) d(4)[OF that, folded pn_def]
    by (auto simp: ls_def log_p_def dv_def nth_fill_invalid vm)
  have lo: "- 300 \<le> ls ! j" if "j < length probs" "vm ! j" for j
  proof -
    have "\<bar>vals ! j - mn\<bar> \<le> 1" using r mv that len by (auto simp: abs_le_iff) (smt (verit) nth_mem)+
    then have "\<bar>(vals ! j - mn) * lam\<bar> \<le> 1 * 100" unfolding abs_mult using lam by (intro mult_mono) simp_all
    then show ?thesis using ls that ln_floor[of "pn ! j"] d(4)[of j] by (simp add: vm pn_def)
  qed
  have "\<exists>j < length vm. vm ! j" using d(6) by (auto simp: vm)
  then have "\<exists>k < length vm. vm ! k \<and> M = ls ! k" unfolding M_def
  proof (intro max_at_valid[where c = "- (10 ^ 9)"])
    show "- (10 ^ 9) < ls ! j" if "j < length vm" "vm ! j" for j using lo[of j] that lens by simp
    show "ls ! j \<le> - (10 ^ 9)" if "j < length vm" "\<not> vm ! j" for j using ls[of j] that lens by simp
  qed (use lens in simp)
  then obtain k where k: "k < length vm" "vm ! k" "M = ls ! k" by blast
  have wj: "w ! j = exp (- mn * lam - M) * (pn ! j * exp (lam * vals ! j))" if "j < length probs" for j
  proof (cases "0 < probs ! j")
    case True
    have pos: "0 < pn ! j" using d(4)[OF that True] unfolding pn_def by (rule less_le_trans[rotated]) simp
    have "w ! j = exp (ln (pn ! j) + (vals ! j - mn) * lam - M)"
      using that lens ls True by (simp add: w_def nth_fill_invalid vm)
    also have "\<dots> = exp (ln (pn ! j)) * exp ((- mn * lam - M) + lam * vals ! j)"
      by (simp flip: exp_add add: algebra_simps)
    also have "\<dots> = pn ! j * (exp (- mn * lam - M) * exp (lam * vals ! j))" using pos by (simp add: exp_add)
    finally show ?thesis by simp
  next
    case False
    then show ?thesis using that lens d(5)[OF that False] by (simp add: w_def nth_fill_invalid vm pn_def)
  qed
  have "w ! k = 1" using k lens by (simp add: w_def nth_fill_invalid)
  moreover have "\<forall>x \<in> set w. 0 \<le> x" by (auto simp: w_def fill_invalid_def in_set_zip)
  ultimately have "1 \<le> sum_list w" using nth_le_sum_list[of w k] k(1) lens by simp
  then have "1 / 10 ^ 20 \<le> sum_list w" by (rule order.trans[rotated]) simp
  then have "map (\<lambda>x. x / max (sum_list w) (1 / 10 ^ 20)) w = gibbs pn vals lam"
    using wj lens e by (intro scaled_gibbs[where C = "exp (- mn * lam - M)"]) simp_all
  then show ?thesis
    by (simp add: gpu_tilted_def Let_def w_def ls_def M_def log_p_def dv_def pn_def)
qed

lemma fill_min_range:
  assumes "length vals = length vm" "\<exists>j < length vm. vm ! j" "\<forall>v \<in> set vals. 0 \<le> v \<and> v \<le> 1"
  shows "0 \<le> Min (set (fill_invalid vm (10 ^ 9) vals))" "Min (set (fill_invalid vm (10 ^ 9) vals)) \<le> 1"
proof -
  obtain j where j: "j < length vm" "vm ! j" using assms(2) by blast
  then have m: "vals ! j \<in> set (fill_invalid vm (10 ^ 9) vals)"
    using assms(1) by (auto simp: in_set_conv_nth nth_fill_invalid intro!: exI[of _ j])
  then show "Min (set (fill_invalid vm (10 ^ 9) vals)) \<le> 1"
    using assms(1,3) j by (intro order.trans[OF Min_le]) auto
  show "0 \<le> Min (set (fill_invalid vm (10 ^ 9) vals))"
    using m assms(1,3) by (intro Min.boundedI) (auto simp: fill_invalid_def dest!: set_zip_rightD)
qed

text \<open>
  C34: Device guidance is exponential tilting. For a padded row whose valid positions are
  those of positive probability, values in \<open>[0, 1]\<close> and any mode the parameters allow, the
  row that is written is \<open>p(i) exp(lam v(i))\<close> normalised, for some \<open>lam\<close> (the scale itself in the
  two bias modes, where \<open>v\<close> is the value or the raw embedding; at most 100 in size after the
  Newton rounds otherwise). It is a probability vector that is positive exactly on the
  valid positions. Scales of the bias modes are taken in the range where the
  normaliser's floor is not reached.
\<close>

theorem device_row_is_tilting:
  assumes "padded_row probs" "vm = map (\<lambda>x. x > 0) probs" "length vals = length probs" "length emb = length probs"
    and "\<forall>v \<in> set vals. 0 \<le> v \<and> v \<le> 1" "mode \<in> set valid_modes"
    and "mode = ''centered_exp'' \<longrightarrow> \<bar>scale\<bar> \<le> 40"
    and "mode = ''value_bias'' \<longrightarrow> (\<forall>e \<in> set emb. \<bar>e * scale\<bar> \<le> 20)"
  shows "\<exists>w lam. gpu_row mode scale vm probs vals emb = Inr w \<and>
     w = gibbs (normalised_probs probs) (if mode = ''value_bias'' then emb else vals) lam \<and>
     (if mode \<in> {''centered_exp'', ''value_bias''} then lam = scale else \<bar>lam\<bar> \<le> 100) \<and>
     distribution w \<and> length w = length probs \<and> (\<forall>j < length probs. 0 < w ! j \<longleftrightarrow> 0 < probs ! j)"
proof -
  note d = padded_rowD[OF assms(1)]
  define pn where "pn = normalised_probs probs"
  note e = normalised_probs_ok[OF d(3,1), folded pn_def]
  define u where "u = (if mode = ''value_bias'' then emb else vals)"
  have lu: "length u = length pn" using assms(3,4) e(1) by (simp add: u_def)
  have ex: "\<exists>lam. gpu_row mode scale vm probs vals emb = Inr (gibbs pn u lam) \<and>
      (if mode \<in> {''centered_exp'', ''value_bias''} then lam = scale else \<bar>lam\<bar> \<le> 100)"
  proof (cases "mode \<in> {''centered_exp'', ''value_bias''}")
    case True
    have b: "\<bar>u ! i * scale - u ! j * scale\<bar> \<le> 40" "- (10 ^ 9) < u ! j * scale"
      if "i < length probs" "j < length probs" for i j
    proof -
      have "\<bar>u ! i * scale\<bar> \<le> 20 \<and> \<bar>u ! j * scale\<bar> \<le> 20 \<or> (mode = ''centered_exp'' \<and> \<bar>scale\<bar> \<le> 40 \<and>
          0 \<le> u ! i \<and> u ! i \<le> 1 \<and> 0 \<le> u ! j \<and> u ! j \<le> 1)"
        using True assms(3-5,7,8) that by (auto simp: u_def)
      then show "\<bar>u ! i * scale - u ! j * scale\<bar> \<le> 40" "- (10 ^ 9) < u ! j * scale"
      proof (atomize (full), elim disjE conjE)
        assume a: "\<bar>scale\<bar> \<le> 40" "0 \<le> u ! i" "u ! i \<le> 1" "0 \<le> u ! j" "u ! j \<le> 1"
        have "\<bar>u ! i - u ! j\<bar> * \<bar>scale\<bar> \<le> 1 * 40" using a by (intro mult_mono) auto
        moreover have "\<bar>u ! j\<bar> * \<bar>scale\<bar> \<le> 1 * 40" using a by (intro mult_mono) auto
        ultimately show "\<bar>u ! i * scale - u ! j * scale\<bar> \<le> 40 \<and> - (10 ^ 9) < u ! j * scale"
          by (simp add: left_diff_distrib[symmetric] abs_mult[symmetric] abs_le_iff)
      qed (simp add: abs_le_iff)
    qed
    have "softmax_weights vm pn (map (\<lambda>x. x * scale) u) = gibbs pn u scale"
      unfolding pn_def
      by (rule softmax_weights_gibbs[OF assms(1,2)])
         (use lu e(1) b in \<open>auto simp: abs_le_iff pn_def\<close>)
    then have "gpu_row mode scale vm probs vals emb = Inr (gibbs pn u scale)"
      using True by (elim insertE emptyE) (simp_all add: gpu_row_def Let_def pn_def u_def)
    then show ?thesis using True by auto
  next
    case False
    then have m: "mode \<in> {''exp'', ''linear'', ''length_mul'', ''mul''}" "u = vals"
      using assms(6) by (auto simp: valid_modes_def u_def)
    have r: "gpu_row mode scale vm probs vals emb = Inr (gpu_tilt_row mode scale vm pn vals)"
      using m False by (auto simp: gpu_row_def Let_def pn_def)
    have vx: "\<exists>j < length vm. vm ! j" using d(6) by (auto simp: assms(2))
    note mn = fill_min_range[OF _ vx assms(5)]
    have "gibbs pn vals 0 = pn"
      using e by (intro nth_equalityI) (simp_all add: gibbs_def gibbs_z_def sum_list_sum_nth atLeast0LessThan)
    moreover define mv where "mv = Min (set (fill_invalid vm (10 ^ 9) vals))"
    moreover define lam where "lam = gpu_newton vm
        (fill_invalid vm (- (10 ^ 9)) (map (\<lambda>p. ln (max p (1 / 10 ^ 20))) pn))
        (fill_invalid vm 0 (map (\<lambda>v. v - mv) vals)) vals
        (gpu_clamp_target (gpu_target mode scale (dot pn vals) mv (Max (set (fill_invalid vm (- (10 ^ 9)) vals))))
           mv (Max (set (fill_invalid vm (- (10 ^ 9)) vals)))) 20 0"
    ultimately have "gpu_tilt_row mode scale vm pn vals \<in> {pn, gpu_tilted vm
        (fill_invalid vm (- (10 ^ 9)) (map (\<lambda>p. ln (max p (1 / 10 ^ 20))) pn))
        (fill_invalid vm 0 (map (\<lambda>v. v - mv) vals)) lam}"
      unfolding gpu_tilt_row_def Let_def by simp
    moreover have l: "\<bar>lam\<bar> \<le> 100" unfolding lam_def by (rule gpu_newton_keeps) simp
    moreover have "gpu_tilted vm (fill_invalid vm (- (10 ^ 9)) (map (\<lambda>p. ln (max p (1 / 10 ^ 20))) pn))
        (fill_invalid vm 0 (map (\<lambda>v. v - mv) vals)) lam = gibbs pn vals lam"
      unfolding pn_def by (rule gpu_tilted_gibbs[OF assms(1-3,5) l]) (use mn assms(2,3) in \<open>simp_all add: mv_def\<close>)
    ultimately have "gpu_tilt_row mode scale vm pn vals \<in> {gibbs pn vals 0, gibbs pn vals lam}"
      using \<open>gibbs pn vals 0 = pn\<close> by simp
    then show ?thesis using False l unfolding r m(2) by (auto intro: exI[of _ 0])
  qed
  then obtain lam where lam: "gpu_row mode scale vm probs vals emb = Inr (gibbs pn u lam)"
    "if mode \<in> {''centered_exp'', ''value_bias''} then lam = scale else \<bar>lam\<bar> \<le> 100" by blast
  note g = gibbs_simps[OF e(2) lu, where lam = lam]
  have "0 < gibbs pn u lam ! j \<longleftrightarrow> 0 < probs ! j" if "j < length probs" for j
  proof -
    have "0 \<le> gibbs pn u lam ! j" using g(1,3) that e(1) by simp
    moreover have "gibbs pn u lam ! j = 0 \<longleftrightarrow> pn ! j = 0" using g(5) that e(1) by simp
    moreover have "pn ! j = 0 \<longleftrightarrow> \<not> 0 < probs ! j"
      using d(4)[OF that] d(5)[OF that] unfolding pn_def by fastforce
    ultimately show ?thesis by linarith
  qed
  moreover have "distribution (gibbs pn u lam)" "length (gibbs pn u lam) = length probs"
    using g e(1) by (simp_all add: distribution_def)
  ultimately show ?thesis
    using lam unfolding pn_def[symmetric] u_def[symmetric] by blast
qed

theorem device_row_is_tilting_witness:
  "\<exists>w. gpu_row ''centered_exp'' 2 [True, True, False] [1 / 2, 1 / 4, 0] [3 / 4, 1 / 4, 0] [1, - 1, 0] = Inr w \<and>
       distribution w \<and> 0 < w ! 1 \<and> \<not> 0 < w ! 2"
proof -
  have "padded_row [1 / 2, 1 / 4, 0]" by (simp add: padded_row_def)
  from device_row_is_tilting[OF this, of "[True, True, False]" "[3 / 4, 1 / 4, 0]" "[1, - 1, 0]" "''centered_exp''" 2]
  show ?thesis by (fastforce simp: valid_modes_def numeral_eq_Suc)
qed

end
