(* ===== verification/LengthValue.thy ===== *)
theory LengthValue
  imports XFloat ValueGuidance
begin

text \<open>
  The length value trainer of \<open>train/lenvm/trainer.py\<close>: the maps between raw predictions,
  values and lengths, the regression targets (lambda-returns by backward recursion), the
  loss and its aggregation, and the diagnostics that are accumulated over batches and
  logged. Tensors of shape batch by time are lists of rows; gradients have no model.
  Predictions are real numbers; losses are \<open>xfloat\<close>, because labels may be infinite and
  \<open>log1p\<close> of a label may be minus infinity.
\<close>

section \<open>Configuration\<close>

record ft_args =
  lenvm_gamma :: real
  lenvm_lam :: real
  lenvm_target_type :: string
  lenvm_length_activation :: string
  lenvm_length_normalizer :: real
  lenvm_huber_loss_delta :: real
  lenvm_agg_method :: string
  lenvm_loss_type :: string
  lenvm_relative_loss :: bool

record train_args =
  average_tokens_across_devices :: bool
  world_size :: nat
  n_gpu :: nat
  num_processes :: nat
  non_data_parallel_size :: "nat option"
  gradient_accumulation_steps :: nat
  logging_steps :: nat

text \<open>
  The arguments as \<open>FinetuningArguments.__post_init__\<close> checks them, for the fields above and
  the fractions of the per-position metrics.
\<close>

definition check_lenvm_args :: "ft_args \<Rightarrow> real list \<Rightarrow> unit res" where
  "check_lenvm_args a pos_metrics =
     (if \<not> (0 < lenvm_gamma a \<and> lenvm_gamma a \<le> 1) then Inl AssertionError
      else if \<not> (0 \<le> lenvm_lam a \<and> lenvm_lam a \<le> 1) then Inl AssertionError
      else if lenvm_target_type a \<notin> {''discounted_return'', ''length'', ''log_length''} then Inl AssertionError
      else if \<not> lenvm_length_normalizer a > 0 then Inl AssertionError
      else if lenvm_length_activation a \<notin> {''softplus'', ''sigmoid''} then Inl AssertionError
      else if lenvm_loss_type a \<notin> {''huber'', ''bce''} then Inl AssertionError
      else if lenvm_loss_type a = ''bce'' \<and> lenvm_target_type a \<noteq> ''discounted_return'' then Inl AssertionError
      else if \<not> 0 \<le> lenvm_huber_loss_delta a then Inl AssertionError
      else if \<not> list_all (\<lambda>pos. 0 \<le> pos \<and> pos \<le> 1) pos_metrics then Inl AssertionError
      else Inr ())"

section \<open>Labels\<close>

text \<open>A value label: a finite number of remaining tokens, or infinity for a response that is too long.\<close>

datatype label = Len real | Endless

definition lab_le :: "label \<Rightarrow> real \<Rightarrow> bool" where
  "lab_le l c = (case l of Len x \<Rightarrow> x \<le> c | Endless \<Rightarrow> False)"

definition lab_dec :: "label \<Rightarrow> label" where
  "lab_dec l = (case l of Len x \<Rightarrow> Len (max (x - 1) 0) | Endless \<Rightarrow> Endless)"

definition lab_clamp0 :: "label \<Rightarrow> label" where
  "lab_clamp0 l = (case l of Len x \<Rightarrow> Len (max x 0) | Endless \<Rightarrow> Endless)"

definition lab_x :: "label \<Rightarrow> xfloat" where
  "lab_x l = (case l of Len x \<Rightarrow> Fin x | Endless \<Rightarrow> PosInf)"

text \<open>
  \<open>torch.pow(gamma, n)\<close> for a discount in the interval the arguments are checked against,
  above zero and at most one: the power at infinity is zero, and one for the discount one.
\<close>

definition gamma_pow :: "real \<Rightarrow> label \<Rightarrow> real" where
  "gamma_pow gamma l =
     (case l of Len x \<Rightarrow> py_pow gamma x | Endless \<Rightarrow> if gamma = 1 then 1 else 0)"

section \<open>The model's output\<close>

text \<open>
  A dictionary with its entries \<open>value\<close> and \<open>values\<close>, a tuple, or something else; a missing
  entry is \<open>None\<close>, which has no \<open>dim\<close>. A trailing dimension of size one is not kept.
\<close>

datatype model_output =
    OutDict "real list list option" "real list list option"
  | OutTuple "real list list list"
  | OutOther

fun forward_value :: "model_output \<Rightarrow> real list list res" where
  "forward_value (OutDict (Some v) vs) = Inr v"
| "forward_value (OutDict None (Some v)) = Inr v"
| "forward_value (OutDict None None) = Inl AttributeError"
| "forward_value (OutTuple xs) = (if length xs \<ge> 3 then Inr (xs ! 2) else Inl ValueError)"
| "forward_value OutOther = Inl ValueError"

section \<open>Values and lengths\<close>

definition EPS :: real where
  "EPS = 1 / 10 ^ 12"

definition trainer_value_to_length :: "real \<Rightarrow> real \<Rightarrow> real" where
  "trainer_value_to_length gamma v =
     ln (1 + min (max v (- 1 + EPS)) (0 - EPS)) / min (ln gamma) (- EPS)"

definition length_to_value :: "real \<Rightarrow> real \<Rightarrow> real" where
  "length_to_value gamma len = (if gamma = 1 then 0 else - (1 - py_pow gamma (max len 0)))"

text \<open>\<open>F.softplus\<close> with its default threshold; \<open>torch.sigmoid\<close>.\<close>

definition softplus :: "real \<Rightarrow> real" where
  "softplus x = (if x > 20 then x else ln (1 + exp x))"

definition logistic :: "real \<Rightarrow> real" where
  "logistic x = 1 / (1 + exp (- x))"

definition raw_to_length_prediction :: "ft_args \<Rightarrow> real \<Rightarrow> real res" where
  "raw_to_length_prediction a raw =
     (if lenvm_length_activation a = ''softplus'' then Inr (softplus raw)
      else if lenvm_length_activation a = ''sigmoid'' then Inr (logistic raw)
      else Inl ValueError)"

definition raw_to_target_prediction :: "ft_args \<Rightarrow> real \<Rightarrow> real res" where
  "raw_to_target_prediction a raw =
     (if lenvm_target_type a = ''discounted_return'' then Inr (- logistic raw)
      else if lenvm_target_type a = ''length'' then raw_to_length_prediction a raw
      else if lenvm_target_type a = ''log_length'' then Inr (softplus raw)
      else Inl ValueError)"

definition prediction_to_length :: "ft_args \<Rightarrow> real \<Rightarrow> real res" where
  "prediction_to_length a p =
     (if lenvm_target_type a = ''discounted_return'' then Inr (trainer_value_to_length (lenvm_gamma a) p)
      else if lenvm_target_type a = ''length'' then Inr (p * lenvm_length_normalizer a)
      else if lenvm_target_type a = ''log_length'' then Inr (exp p - 1)
      else Inl ValueError)"

definition prediction_to_discounted_value :: "ft_args \<Rightarrow> real \<Rightarrow> real res" where
  "prediction_to_discounted_value a p =
     (if lenvm_target_type a = ''discounted_return'' then Inr p
      else bind_res (prediction_to_length a p) (\<lambda>len. Inr (length_to_value (lenvm_gamma a) len)))"

definition fixed_step_reward :: "real \<Rightarrow> real" where
  "fixed_step_reward gamma = - (1 - gamma)"

section \<open>Lambda-returns\<close>

definition mc_value :: "real \<Rightarrow> label \<Rightarrow> real" where
  "mc_value gamma n = (if gamma = 1 then 0 else - (1 - gamma_pow gamma n))"

text \<open>One position of the backward loop: the stored advantage and the carried one.\<close>

definition gae_step ::
  "real \<Rightarrow> real \<Rightarrow> real list \<Rightarrow> real list \<Rightarrow> label list \<Rightarrow> nat \<Rightarrow> real \<Rightarrow> real \<times> real"
where
  "gae_step gamma lam v m rem t lastgaelam =
     (let n = rem ! t;
          is_eos = lab_le n 0;
          v_next = (if lab_le n 1 then 0
                    else if t < length v - 1
                    then (if m ! (t + 1) = 0 then mc_value gamma (lab_dec n) else v ! (t + 1))
                    else mc_value gamma (lab_dec n));
          delta = fixed_step_reward gamma + gamma * v_next - v ! t;
          gae_t = delta + gamma * lam * lastgaelam;
          eos_adv = - (v ! t);
          adv_to_use = (if is_eos then eos_adv else gae_t);
          carried = adv_to_use * m ! t + lastgaelam * (1 - m ! t);
          new_last = (if is_eos \<and> m ! t > 0 then 0 else carried)
      in (if is_eos then eos_adv * m ! t else new_last, new_last))"

definition gae_loop ::
  "real \<Rightarrow> real \<Rightarrow> real list \<Rightarrow> real list \<Rightarrow> label list \<Rightarrow> nat list \<Rightarrow> real list \<times> real"
where
  "gae_loop gamma lam v m rem ts =
     foldr (\<lambda>t (adv, lastgaelam). case gae_step gamma lam v m rem t lastgaelam of (x, l) \<Rightarrow> (x # adv, l)) ts ([], 0)"

definition compute_gae_advantage_return ::
  "real \<Rightarrow> real \<Rightarrow> real list \<Rightarrow> real list \<Rightarrow> label list \<Rightarrow> real list \<times> real list"
where
  "compute_gae_advantage_return gamma lam v m rem =
     (let advantages = fst (gae_loop gamma lam v m rem [0 ..< length v])
      in (advantages, map2 (+) v advantages))"

text \<open>\<open>torch.log1p\<close> of a label.\<close>

definition log1p_label :: "label \<Rightarrow> xfloat" where
  "log1p_label l =
     (case l of Endless \<Rightarrow> PosInf
      | Len x \<Rightarrow> if x > - 1 then Fin (ln (1 + x)) else if x = - 1 then NegInf else NaN)"

definition build_regression_target :: "ft_args \<Rightarrow> real list \<Rightarrow> real list \<Rightarrow> label list \<Rightarrow> xfloat list res" where
  "build_regression_target a pred m labels =
     (if lenvm_target_type a = ''discounted_return''
      then Inr (map Fin (snd (compute_gae_advantage_return (lenvm_gamma a) (lenvm_lam a) pred m labels)))
      else if lenvm_target_type a = ''length'' then Inr (map (\<lambda>l. x_div (lab_x l) (lenvm_length_normalizer a)) labels)
      else if lenvm_target_type a = ''log_length'' then Inr (map log1p_label labels)
      else Inl ValueError)"

section \<open>Aggregation\<close>

definition masked :: "xfloat list \<Rightarrow> real list \<Rightarrow> xfloat list" where
  "masked loss m = map2 (\<lambda>l c. x_mul l (Fin c)) loss m"

definition valid_seqs :: "real list list \<Rightarrow> real list" where
  "valid_seqs ms = map (\<lambda>m. if sum_list m > 0 then 1 else 0) ms"

definition seq_mean :: "xfloat list \<Rightarrow> real list list \<Rightarrow> xfloat" where
  "seq_mean per_seq ms =
     x_div (x_sum (masked per_seq (valid_seqs ms))) (max (sum_list (valid_seqs ms)) 1)"

definition aggregate_loss :: "string \<Rightarrow> xfloat list list \<Rightarrow> real list list \<Rightarrow> xfloat res" where
  "aggregate_loss method loss ms =
     (let per_seq_sum = map2 (\<lambda>l m. x_sum (masked l m)) loss ms
      in if method = ''token-mean''
         then Inr (x_div (x_sum (concat (map2 masked loss ms))) (max (sum_list (concat ms)) 1))
         else if method = ''seq-mean-token-sum'' then Inr (seq_mean per_seq_sum ms)
         else if method = ''seq-mean-token-mean''
         then Inr (seq_mean (map2 (\<lambda>s m. x_div s (max (sum_list m) 1)) per_seq_sum ms) ms)
         else if method = ''seq-sum-token-sum'' then Inr (x_sum (concat (map2 masked loss ms)))
         else if method = ''seq-mean-token-mean-max''
         then Inr (seq_mean (map (\<lambda>s. x_div s 5000) per_seq_sum) ms)
         else Inl ValueError)"

section \<open>The loss\<close>

text \<open>\<open>F.huber_loss\<close> of a difference, for a positive delta; it raises on a delta that is not.\<close>

definition huber :: "real \<Rightarrow> xfloat \<Rightarrow> xfloat" where
  "huber delta d =
     (case x_abs d of
        Fin z \<Rightarrow> Fin (if z < delta then 1 / 2 * z * z else delta * (z - 1 / 2 * delta))
      | x \<Rightarrow> x)"

definition bce_with_logits :: "real \<Rightarrow> real \<Rightarrow> real" where
  "bce_with_logits x t = max x 0 - x * t + ln (1 + exp (- \<bar>x\<bar>))"

definition bce_target :: "real \<Rightarrow> label \<Rightarrow> real" where
  "bce_target gamma l =
     (if lab_le l 0 then 0 else 1 - gamma_pow gamma (lab_clamp0 l))"

fun x_max_real :: "xfloat \<Rightarrow> real \<Rightarrow> xfloat" where
  "x_max_real (Fin a) c = Fin (max a c)"
| "x_max_real NegInf c = Fin c"
| "x_max_real x c = x"

text \<open>Division by a positive number or by infinity.\<close>

definition x_quot :: "xfloat \<Rightarrow> xfloat \<Rightarrow> xfloat" where
  "x_quot x d =
     (case d of Fin c \<Rightarrow> x_div x c
      | NaN \<Rightarrow> NaN
      | _ \<Rightarrow> (case x of Fin _ \<Rightarrow> Fin 0 | _ \<Rightarrow> NaN))"

definition relative_denom :: "ft_args \<Rightarrow> xfloat \<Rightarrow> label \<Rightarrow> xfloat" where
  "relative_denom a target l =
     (if lab_le l 0 then Fin 1
      else x_max_real (x_abs target)
             (if lenvm_target_type a = ''discounted_return'' then 1 - lenvm_gamma a else 1))"

definition regression_loss :: "ft_args \<Rightarrow> real \<Rightarrow> xfloat \<Rightarrow> label \<Rightarrow> xfloat" where
  "regression_loss a pred target l =
     (let diff = x_sub (Fin pred) target
      in huber (lenvm_huber_loss_delta a)
           (if lenvm_relative_loss a then x_quot diff (relative_denom a target l) else diff))"

definition per_token_row :: "ft_args \<Rightarrow> real list \<Rightarrow> real list \<Rightarrow> label list \<Rightarrow> (xfloat list \<times> real list) res" where
  "per_token_row a raw m labels =
     (if lenvm_loss_type a = ''bce''
      then Inr (map2 (\<lambda>x l. Fin (bce_with_logits x (bce_target (lenvm_gamma a) l))) raw labels,
                map (\<lambda>x. - logistic x) raw)
      else bind_res (gather_all (raw_to_target_prediction a) raw) (\<lambda>pred.
           bind_res (build_regression_target a pred m labels) (\<lambda>target.
             if lenvm_huber_loss_delta a \<le> 0 then Inl RuntimeError
             else Inr (map (\<lambda>(p, t, l). regression_loss a p t l) (zip pred (zip target labels)), pred))))"

text \<open>
  The number of tokens of an optimizer step: the masked positions of all its micro-batches,
  summed over the processes when tokens are averaged across devices. \<open>gather\<close> is the sum over
  processes, \<open>super_items\<close> what the base trainer counts.
\<close>

definition get_num_items_in_batch ::
  "train_args \<Rightarrow> (nat \<Rightarrow> nat) \<Rightarrow> nat option \<Rightarrow> bool list list list \<Rightarrow> nat option"
where
  "get_num_items_in_batch t gather super_items batches =
     (if batches = [] then super_items
      else
        (let n = sum_list (map (\<lambda>b. length (filter id (concat b))) batches);
             n' = (if average_tokens_across_devices t
                   then (if world_size t > 1 then gather n else n)
                   else if n_gpu t > 1 then n div n_gpu t else n)
         in Some (case non_data_parallel_size t of None \<Rightarrow> n' | Some k \<Rightarrow> n' div k)))"

text \<open>
  The scalar of a batch: with \<open>token-mean\<close> and a token count of the whole optimizer step the
  sum is divided by that count (and scaled by the number of processes when tokens are
  averaged across devices), otherwise the batch is aggregated on its own.
\<close>

definition value_loss ::
  "ft_args \<Rightarrow> train_args \<Rightarrow> xfloat list list \<Rightarrow> real list list \<Rightarrow> nat option \<Rightarrow> xfloat res"
where
  "value_loss a t loss ms num_items =
     (case num_items of
        Some n \<Rightarrow>
          if lenvm_agg_method a = ''token-mean''
          then
            (let v = x_div (x_sum (concat (map2 masked loss ms))) (max (real n) 1)
             in Inr (if average_tokens_across_devices t
                     then x_mul v (Fin (real (if n_gpu t \<le> 1 then num_processes t else n_gpu t)))
                     else v))
          else aggregate_loss (lenvm_agg_method a) loss ms
      | None \<Rightarrow> aggregate_loss (lenvm_agg_method a) loss ms)"

definition batch_loss ::
  "ft_args \<Rightarrow> train_args \<Rightarrow> real list list \<Rightarrow> real list list \<Rightarrow> label list list \<Rightarrow> nat option \<Rightarrow>
   (xfloat \<times> real list list) res"
where
  "batch_loss a t raw ms labels num_items =
     bind_res (gather_all (\<lambda>(x, m, l). per_token_row a x m l) (zip raw (zip ms labels))) (\<lambda>rows.
     bind_res (value_loss a t (map fst rows) ms num_items) (\<lambda>loss.
       Inr (loss, map snd rows)))"

end
