(* ===== verification/LengthDiag.thy ===== *)
theory LengthDiag
  imports LengthValue "HOL-Library.AList"
begin

text \<open>
  The diagnostics of \<open>train/lenvm/trainer.py\<close>: the one-step and Monte-Carlo errors of a batch,
  the errors at chosen positions of each response, their accumulation over the micro-batches
  between two log points (training) or over one evaluation (other modes), the log entries and
  the state that is left behind; and the metrics of \<open>train/lenvm/metric.py\<close>.
\<close>

section \<open>Returns in closed form\<close>

definition returns_lam1 :: "real \<Rightarrow> label \<Rightarrow> real" where
  "returns_lam1 gamma l = (if lab_le l 0 then 0 else - (1 - gamma_pow gamma l))"

definition diag_mc_next :: "real \<Rightarrow> label \<Rightarrow> real" where
  "diag_mc_next gamma l = - (1 - gamma_pow gamma (lab_dec l))"

text \<open>The value of the next state, for every position of a row.\<close>

definition diag_v_next :: "real \<Rightarrow> real list \<Rightarrow> real list \<Rightarrow> label list \<Rightarrow> nat \<Rightarrow> real" where
  "diag_v_next gamma v m rem t =
     (if t = length v - 1
      then (if lab_le (rem ! t) 1 then 0 else diag_mc_next gamma (rem ! t))
      else if lab_le (rem ! t) 1 then 0
      else if m ! (t + 1) = 0 then diag_mc_next gamma (rem ! t)
      else v ! (t + 1))"

definition returns_lam0 :: "real \<Rightarrow> real list \<Rightarrow> real list \<Rightarrow> label list \<Rightarrow> real list" where
  "returns_lam0 gamma v m rem =
     map (\<lambda>t. if lab_le (rem ! t) 0 then 0
              else fixed_step_reward gamma + gamma * diag_v_next gamma v m rem t) [0 ..< length v]"

section \<open>Errors of a batch\<close>

record row_errors =
  loss_lam0 :: "real list"
  loss_lam1 :: "real list"
  rel_loss_lam0 :: "real list"
  rel_loss_lam1 :: "real list"
  val_abs_err :: "real list"
  abs_len_loss :: "xfloat list"
  rel_len_loss :: "xfloat list"

definition half_square :: "real \<Rightarrow> real \<Rightarrow> real" where
  "half_square y r = 1 / 2 * (y - r) ^ 2"

definition rel_error :: "real \<Rightarrow> real \<Rightarrow> real" where
  "rel_error y r = (if \<bar>r\<bar> > 0 then \<bar>y - r\<bar> / \<bar>r\<bar> else 0)"

definition abs_len_err :: "real \<Rightarrow> label \<Rightarrow> xfloat" where
  "abs_len_err p l = x_abs (x_sub (Fin p) (lab_x l))"

definition rel_len_err :: "real \<Rightarrow> label \<Rightarrow> xfloat" where
  "rel_len_err p l = (if l = Len 0 then Fin 0 else x_quot (abs_len_err p l) (x_abs (lab_x l)))"

definition row_diagnostics :: "real \<Rightarrow> real list \<Rightarrow> real list \<Rightarrow> label list \<Rightarrow> row_errors" where
  "row_diagnostics gamma v m rem =
     (let r0 = returns_lam0 gamma v m rem;
          r1 = map (returns_lam1 gamma) rem;
          len_pred = map (trainer_value_to_length gamma) v
      in \<lparr>loss_lam0 = map2 half_square v r0,
          loss_lam1 = map2 half_square v r1,
          rel_loss_lam0 = map2 rel_error v r0,
          rel_loss_lam1 = map2 rel_error v r1,
          val_abs_err = map2 (\<lambda>y r. \<bar>y - r\<bar>) v r1,
          abs_len_loss = map2 abs_len_err len_pred rem,
          rel_len_loss = map2 rel_len_err len_pred rem\<rparr>)"

definition masked_sum :: "real list list \<Rightarrow> xfloat list list \<Rightarrow> xfloat" where
  "masked_sum ms loss = x_sum (concat (map2 masked loss ms))"

text \<open>
  The position a fraction stands for: the masked positions of a row are ranked from zero, and
  the position is the one whose rank is the fraction of the highest rank, rounded down.
\<close>

definition mask_rank :: "real list \<Rightarrow> nat \<Rightarrow> int" where
  "mask_rank m t = int (length (filter (\<lambda>c. c > 0) (take (Suc t) m))) - 1"

definition pos_rank :: "real list \<Rightarrow> real \<Rightarrow> int" where
  "pos_rank m pos = \<lfloor>real_of_int (max (int (length (filter (\<lambda>c. c > 0) m)) - 1) 0) * pos\<rfloor>"

definition pos_select :: "real list \<Rightarrow> real \<Rightarrow> real list" where
  "pos_select m pos =
     map (\<lambda>t. if mask_rank m t = pos_rank m pos \<and> m ! t > 0 then 1 else 0) [0 ..< length m]"

text \<open>The five sums kept for a position: lengths, lengths relative, values, values relative, count.\<close>

record pos_sums =
  p_abs :: xfloat
  p_rel :: xfloat
  p_val_abs :: xfloat
  p_val_rel :: xfloat
  p_count :: real

definition pos_zero :: pos_sums where
  "pos_zero = \<lparr>p_abs = Fin 0, p_rel = Fin 0, p_val_abs = Fin 0, p_val_rel = Fin 0, p_count = 0\<rparr>"

definition pos_metric :: "row_errors list \<Rightarrow> real list list \<Rightarrow> real \<Rightarrow> pos_sums option" where
  "pos_metric errs ms pos =
     (let select = map (\<lambda>m. pos_select m pos) ms;
          count = sum_list (concat select)
      in if count > 0
         then Some \<lparr>p_abs = masked_sum select (map abs_len_loss errs),
                    p_rel = masked_sum select (map rel_len_loss errs),
                    p_val_abs = masked_sum select (map (map Fin \<circ> val_abs_err) errs),
                    p_val_rel = masked_sum select (map (map Fin \<circ> rel_loss_lam1) errs),
                    p_count = count\<rparr>
         else None)"

text \<open>
  A dictionary per sum, all with the keys of the fractions, is kept as one dictionary of the
  five sums. Keys are made from fractions, so two fractions may share one.
\<close>

type_synonym pos_dict = "(string \<times> pos_sums) list"

definition zero_dict :: "string list \<Rightarrow> pos_dict" where
  "zero_dict keys = foldl (\<lambda>d k. AList.update k pos_zero d) [] keys"

definition pos_metrics :: "(real \<times> string) list \<Rightarrow> row_errors list \<Rightarrow> real list list \<Rightarrow> pos_dict" where
  "pos_metrics fracs errs ms =
     foldl (\<lambda>d (pos, k). case pos_metric errs ms pos of None \<Rightarrow> d | Some p \<Rightarrow> AList.update k p d)
       (zero_dict (map snd fracs)) fracs"

section \<open>Names of positions\<close>

text \<open>Rounding to the nearest integer, ties to the even one, as \<open>round\<close> and \<open>format\<close> do.\<close>

definition py_round :: "real \<Rightarrow> int" where
  "py_round x =
     (let f = \<lfloor>x\<rfloor>; d = x - of_int f
      in if d < 1 / 2 then f else if d > 1 / 2 then f + 1 else if even f then f else f + 1)"

fun digits :: "nat \<Rightarrow> string" where
  "digits n = (if n < 10 then [char_of (48 + n)] else digits (n div 10) @ [char_of (48 + n mod 10)])"

declare digits.simps [simp del]

definition int_str :: "int \<Rightarrow> string" where
  "int_str i = (if i < 0 then ''-'' @ digits (nat (- i)) else digits (nat i))"

text \<open>A percentage: an integer, or two decimals with the point written as \<open>p\<close>; fractions are not negative.\<close>

definition format_pos_key :: "real \<Rightarrow> string" where
  "format_pos_key pos =
     (let percent = pos * 100
      in if \<bar>percent - of_int (py_round percent)\<bar> < 1 / 10 ^ 6 then int_str (py_round percent)
         else
           (let cents = nat (py_round (percent * 100))
            in digits (cents div 100) @ ''p''
               @ [char_of (48 + cents mod 100 div 10), char_of (48 + cents mod 10)]))"

definition pos_keys :: "real list \<Rightarrow> (real \<times> string) list" where
  "pos_keys fracs = map (\<lambda>f. (f, format_pos_key f)) fracs"

section \<open>Accumulators\<close>

record diag_sums =
  d_lam0 :: xfloat
  d_lam1 :: xfloat
  d_rel_lam0 :: xfloat
  d_rel_lam1 :: xfloat
  d_abs_len :: xfloat
  d_rel_len :: xfloat
  d_count :: real
  d_pos :: pos_dict

definition compute_value_diagnostics ::
  "real \<Rightarrow> (real \<times> string) list \<Rightarrow> real list list \<Rightarrow> real list list \<Rightarrow> label list list \<Rightarrow> real \<Rightarrow> diag_sums"
where
  "compute_value_diagnostics gamma fracs y_hat ms labels cnt =
     (let errs = map (\<lambda>(v, m, l). row_diagnostics gamma v m l) (zip y_hat (zip ms labels))
      in \<lparr>d_lam0 = masked_sum ms (map (map Fin \<circ> loss_lam0) errs),
          d_lam1 = masked_sum ms (map (map Fin \<circ> loss_lam1) errs),
          d_rel_lam0 = masked_sum ms (map (map Fin \<circ> rel_loss_lam0) errs),
          d_rel_lam1 = masked_sum ms (map (map Fin \<circ> rel_loss_lam1) errs),
          d_abs_len = masked_sum ms (map abs_len_loss errs),
          d_rel_len = masked_sum ms (map rel_len_loss errs),
          d_count = cnt,
          d_pos = pos_metrics fracs errs ms\<rparr>)"

definition zero_sums :: "string list \<Rightarrow> diag_sums" where
  "zero_sums keys =
     \<lparr>d_lam0 = Fin 0, d_lam1 = Fin 0, d_rel_lam0 = Fin 0, d_rel_lam1 = Fin 0,
      d_abs_len = Fin 0, d_rel_len = Fin 0, d_count = 0, d_pos = zero_dict keys\<rparr>"

definition pos_add :: "pos_sums \<Rightarrow> pos_sums \<Rightarrow> pos_sums" where
  "pos_add p q = \<lparr>p_abs = x_add (p_abs p) (p_abs q), p_rel = x_add (p_rel p) (p_rel q),
                  p_val_abs = x_add (p_val_abs p) (p_val_abs q),
                  p_val_rel = x_add (p_val_rel p) (p_val_rel q),
                  p_count = p_count p + p_count q\<rparr>"

text \<open>The keys of the added dictionary are those of the accumulator, so no key is missing.\<close>

definition dict_add :: "pos_dict \<Rightarrow> pos_dict \<Rightarrow> pos_dict" where
  "dict_add acc d = foldl (\<lambda>a (k, q). AList.map_entry k (\<lambda>p. pos_add p q) a) acc d"

definition accumulate :: "diag_sums \<Rightarrow> diag_sums \<Rightarrow> diag_sums" where
  "accumulate acc s =
     \<lparr>d_lam0 = x_add (d_lam0 acc) (d_lam0 s), d_lam1 = x_add (d_lam1 acc) (d_lam1 s),
      d_rel_lam0 = x_add (d_rel_lam0 acc) (d_rel_lam0 s), d_rel_lam1 = x_add (d_rel_lam1 acc) (d_rel_lam1 s),
      d_abs_len = x_add (d_abs_len acc) (d_abs_len s), d_rel_len = x_add (d_rel_len acc) (d_rel_len s),
      d_count = d_count acc + d_count s, d_pos = dict_add (d_pos acc) (d_pos s)\<rparr>"

text \<open>
  The log entry of an accumulator; \<open>reduce\<close> is the sum over processes (the identity when there
  is one process) and \<open>pre\<close> the prefix of the names.
\<close>

definition log_payload :: "(xfloat \<Rightarrow> xfloat) \<Rightarrow> string \<Rightarrow> diag_sums \<Rightarrow> (string \<times> xfloat) list" where
  "log_payload reduce pre s =
     (let avg = (\<lambda>x c. x_quot (reduce x) (x_max_real (reduce (Fin c)) 1))
      in [(pre @ ''value_loss_lam0'', avg (d_lam0 s) (d_count s)),
          (pre @ ''value_loss_lam1'', avg (d_lam1 s) (d_count s)),
          (pre @ ''value_rel_loss_lam0'', avg (d_rel_lam0 s) (d_count s)),
          (pre @ ''value_rel_loss_lam1'', avg (d_rel_lam1 s) (d_count s)),
          (pre @ ''len_abs_loss_lam1'', avg (d_abs_len s) (d_count s)),
          (pre @ ''len_rel_loss_lam1'', avg (d_rel_len s) (d_count s))]
         @ concat (map (\<lambda>(k, p).
             [(pre @ ''len_abs_p'' @ k, avg (p_abs p) (p_count p)),
              (pre @ ''len_rel_p'' @ k, avg (p_rel p) (p_count p)),
              (pre @ ''value_abs_lam1_p'' @ k, avg (p_val_abs p) (p_count p)),
              (pre @ ''value_rel_lam1_p'' @ k, avg (p_val_rel p) (p_count p))]) (d_pos s)))"

section \<open>The trainer's state\<close>

text \<open>
  \<open>nontrain\<close> holds the accumulator and the number of steps of every prefix that was used;
  \<open>metric_prefix\<close> is the attribute \<open>_nontrain_metric_prefix\<close>: absent, \<open>None\<close>, or a string.
\<close>

record trainer_state =
  ga_sums :: diag_sums
  ga_step :: nat
  nontrain :: "(string \<times> diag_sums \<times> nat) list"
  metric_prefix :: "string option option"
  logged :: "(string \<times> xfloat) list list"

text \<open>
  What a process knows besides the arguments: the fractions with their keys, the sum over
  processes, and whether it is the main process.
\<close>

record process_env =
  fracs :: "(real \<times> string) list"
  reduce :: "xfloat \<Rightarrow> xfloat"
  is_main_process :: bool

definition init_state :: "process_env \<Rightarrow> trainer_state" where
  "init_state e =
     \<lparr>ga_sums = zero_sums (map snd (fracs e)), ga_step = 0, nontrain = [], metric_prefix = None, logged = []\<rparr>"

definition trainer_log :: "process_env \<Rightarrow> string \<Rightarrow> diag_sums \<Rightarrow> trainer_state \<Rightarrow> trainer_state" where
  "trainer_log e pre s st =
     (if is_main_process e then st\<lparr>logged := logged st @ [log_payload (reduce e) pre s]\<rparr> else st)"

text \<open>The training diagnostics of one micro-batch; \<open>global_step\<close> counts the optimizer steps done.\<close>

definition train_diag ::
  "process_env \<Rightarrow> train_args \<Rightarrow> nat \<Rightarrow> diag_sums \<Rightarrow> trainer_state \<Rightarrow> trainer_state"
where
  "train_diag e t global_step s st =
     (let acc = accumulate (ga_sums st) s;
          step' = (ga_step st + 1) mod max 1 (gradient_accumulation_steps t);
          st' = st\<lparr>ga_sums := acc, ga_step := step'\<rparr>
      in if step' = 0 \<and> logging_steps t > 0 \<and> (global_step + 1) mod logging_steps t = 0
         then (trainer_log e [] acc st')\<lparr>ga_sums := zero_sums (map snd (fracs e))\<rparr>
         else st')"

definition token_count :: "real list list \<Rightarrow> real" where
  "token_count ms = sum_list (concat ms)"

text \<open>
  \<open>compute_loss\<close>: the loss of a batch, from the model's output, with the raw predictions, and
  the training diagnostics when the model is in training mode.
\<close>

definition compute_loss ::
  "process_env \<Rightarrow> ft_args \<Rightarrow> train_args \<Rightarrow> bool \<Rightarrow> nat \<Rightarrow> model_output \<Rightarrow> real list list \<Rightarrow>
   label list list \<Rightarrow> nat option \<Rightarrow> (trainer_state, xfloat \<times> real list list) run"
where
  "compute_loss e a t training global_step out ms labels num_items st =
     (case bind_res (forward_value out) (\<lambda>raw.
           bind_res (batch_loss a t raw ms labels num_items) (\<lambda>(loss, pred). Inr (raw, loss, pred))) of
        Inl err \<Rightarrow> (Inl err, st)
      | Inr (raw, loss, pred) \<Rightarrow>
          if \<not> training then (Inr (loss, raw), st)
          else
            (case gather_all (gather_all (prediction_to_discounted_value a)) pred of
               Inl err \<Rightarrow> (Inl err, st)
             | Inr y_hat \<Rightarrow>
                 (Inr (loss, raw),
                  train_diag e t global_step
                    (compute_value_diagnostics (lenvm_gamma a) (fracs e) y_hat ms labels (token_count ms)) st)))"

section \<open>Evaluation and prediction\<close>

definition prefix_name :: "trainer_state \<Rightarrow> string" where
  "prefix_name st =
     (case metric_prefix st of None \<Rightarrow> ''predict'' | Some None \<Rightarrow> ''None'' | Some (Some p) \<Rightarrow> p)"

definition init_nontrain_diag :: "process_env \<Rightarrow> string \<Rightarrow> trainer_state \<Rightarrow> trainer_state" where
  "init_nontrain_diag e pre st =
     (case map_of (nontrain st) pre of
        Some _ \<Rightarrow> st
      | None \<Rightarrow> st\<lparr>nontrain := AList.update pre (zero_sums (map snd (fracs e)), 0) (nontrain st)\<rparr>)"

definition accumulate_nontrain_diag ::
  "process_env \<Rightarrow> string \<Rightarrow> diag_sums \<Rightarrow> trainer_state \<Rightarrow> trainer_state"
where
  "accumulate_nontrain_diag e pre s st =
     (let st' = init_nontrain_diag e pre st
      in st'\<lparr>nontrain := AList.map_entry pre (\<lambda>(acc, steps). (accumulate acc s, steps + 1)) (nontrain st')\<rparr>)"

definition flush_nontrain_logs :: "process_env \<Rightarrow> string \<Rightarrow> trainer_state \<Rightarrow> trainer_state" where
  "flush_nontrain_logs e pre st =
     (case map_of (nontrain st) pre of
        None \<Rightarrow> st
      | Some (s, steps) \<Rightarrow>
          if steps = 0 \<or> d_count s = 0 then st
          else (trainer_log e (pre @ ''_'') s st)
                 \<lparr>nontrain := AList.update pre (zero_sums (map snd (fracs e)), 0) (nontrain st)\<rparr>)"

record diag_batch =
  model_out :: model_output
  value_mask :: "real list list"
  value_labels :: "label list list"

definition eval_predictions :: "ft_args \<Rightarrow> real list list \<Rightarrow> (real list list \<times> real list list) res" where
  "eval_predictions a raw =
     bind_res (gather_all (gather_all (raw_to_target_prediction a)) raw) (\<lambda>pred.
     bind_res (gather_all (gather_all (prediction_to_length a)) pred) (\<lambda>len_pred.
     bind_res (gather_all (gather_all (prediction_to_discounted_value a)) pred) (\<lambda>y_hat.
       Inr (len_pred, y_hat))))"

definition prediction_step ::
  "process_env \<Rightarrow> ft_args \<Rightarrow> train_args \<Rightarrow> bool \<Rightarrow> diag_batch \<Rightarrow>
   (trainer_state, xfloat \<times> real list list option) run"
where
  "prediction_step e a t prediction_loss_only b st =
     (case compute_loss e a t False 0 (model_out b) (value_mask b) (value_labels b) None st of
        (Inl err, st') \<Rightarrow> (Inl err, st')
      | (Inr (loss, raw), st') \<Rightarrow>
          if prediction_loss_only then (Inr (loss, None), st')
          else
            (case eval_predictions a raw of
               Inl err \<Rightarrow> (Inl err, st')
             | Inr (len_pred, y_hat) \<Rightarrow>
                 (Inr (loss, Some len_pred),
                  accumulate_nontrain_diag e (prefix_name st')
                    (compute_value_diagnostics (lenvm_gamma a) (fracs e) y_hat (value_mask b)
                       (value_labels b) (max (token_count (value_mask b)) 1)) st')))"

text \<open>
  \<open>evaluate\<close> and \<open>predict\<close>: the base class calls \<open>prediction_step\<close> on every batch of its data
  loader; the logs are flushed and the prefix is cleared whether or not a step raises.
\<close>

definition evaluate_loop ::
  "process_env \<Rightarrow> ft_args \<Rightarrow> train_args \<Rightarrow> bool \<Rightarrow> string \<Rightarrow> diag_batch list \<Rightarrow>
   (trainer_state, (xfloat \<times> real list list option) list) run"
where
  "evaluate_loop e a t loss_only metric_key_prefix batches st =
     (case run_all (prediction_step e a t loss_only) batches (st\<lparr>metric_prefix := Some (Some metric_key_prefix)\<rparr>) of
        (r, st') \<Rightarrow> (r, (flush_nontrain_logs e metric_key_prefix st')\<lparr>metric_prefix := Some None\<rparr>))"

section \<open>Length metrics\<close>

definition real_mean :: "real list \<Rightarrow> real" where
  "real_mean xs = sum_list xs / real (length xs)"

text \<open>The six scores of one call, for finite labels and predictions of a batch.\<close>

record length_scores =
  token_mean_mae :: real
  token_mean_rmse :: real
  token_mean_seq_mean_mae :: real
  token_mean_seq_mean_rmse :: real
  token_mean_relerr :: real
  token_mean_seq_mean_relerr :: real

definition weighted :: "(real \<Rightarrow> real) \<Rightarrow> real list \<Rightarrow> real list \<Rightarrow> real list \<Rightarrow> real list" where
  "weighted f ps vs m = map (\<lambda>(p, v, c). f (p - v) * c) (zip ps (zip vs m))"

definition rel_errors :: "real list \<Rightarrow> real list \<Rightarrow> real list \<Rightarrow> real list" where
  "rel_errors ps vs m =
     map (\<lambda>(p, v, c). \<bar>p - v\<bar> / v) (filter (\<lambda>(p, v, c). c > 0 \<and> v > 0) (zip ps (zip vs m)))"

definition length_metrics :: "real list list \<Rightarrow> real list list \<Rightarrow> real list list \<Rightarrow> length_scores res" where
  "length_metrics preds values masks =
     (if map length preds \<noteq> map length values then Inl ValueError
      else
        (let rows = zip preds (zip values masks);
             denom = max (sum_list (concat masks)) 1;
             ab = map (\<lambda>(p, v, m). weighted abs p v m) rows;
             sq = map (\<lambda>(p, v, m). weighted (\<lambda>d. d ^ 2) p v m) rows;
             rel = map (\<lambda>(p, v, m). rel_errors p v m) rows;
             seq_denoms = map (\<lambda>m. max (sum_list m) 1) masks;
             rel_means = map real_mean (filter (\<lambda>r. r \<noteq> []) rel)
         in Inr \<lparr>token_mean_mae = sum_list (concat ab) / denom,
                 token_mean_rmse = sqrt (sum_list (concat sq) / denom),
                 token_mean_seq_mean_mae = real_mean (map2 (\<lambda>r d. sum_list r / d) ab seq_denoms),
                 token_mean_seq_mean_rmse = real_mean (map2 (\<lambda>r d. sqrt (sum_list r / d)) sq seq_denoms),
                 token_mean_relerr = (if concat rel = [] then 0 else real_mean (concat rel)),
                 token_mean_seq_mean_relerr = (if rel_means = [] then 0 else real_mean rel_means)\<rparr>))"

text \<open>The scores of the calls so far, averaged and dropped when a result is asked for.\<close>

definition dump_scores :: "length_scores list \<Rightarrow> length_scores" where
  "dump_scores ss =
     \<lparr>token_mean_mae = real_mean (map token_mean_mae ss),
      token_mean_rmse = real_mean (map token_mean_rmse ss),
      token_mean_seq_mean_mae = real_mean (map token_mean_seq_mean_mae ss),
      token_mean_seq_mean_rmse = real_mean (map token_mean_seq_mean_rmse ss),
      token_mean_relerr = real_mean (map token_mean_relerr ss),
      token_mean_seq_mean_relerr = real_mean (map token_mean_seq_mean_relerr ss)\<rparr>"

definition metrics_call ::
  "real list list \<Rightarrow> real list list \<Rightarrow> real list list \<Rightarrow> bool \<Rightarrow> (length_scores list, length_scores option) run"
where
  "metrics_call preds values masks compute_result ss =
     (case length_metrics preds values masks of
        Inl err \<Rightarrow> (Inl err, ss)
      | Inr sc \<Rightarrow> if compute_result then (Inr (Some (dump_scores (ss @ [sc]))), []) else (Inr None, ss @ [sc]))"

end
