(* ===== verification/LengthValueProps.thy ===== *)
theory LengthValueProps
  imports LengthDiag
begin

text \<open>
  The targets of the length value trainer: the backward recursion gives the Monte-Carlo
  return of the label when lambda is one and the one-step return of the diagnostics when
  lambda is zero; the maps between lengths and values are inverse to each other.
\<close>

section \<open>The backward loop, position by position\<close>

definition carry :: "real \<Rightarrow> real \<Rightarrow> real list \<Rightarrow> real list \<Rightarrow> label list \<Rightarrow> nat \<Rightarrow> real" where
  "carry gamma lam v m rem t = snd (gae_loop gamma lam v m rem [t ..< length v])"

lemma gae_loop_Cons:
  "gae_loop gamma lam v m rem (t # ts) =
     (fst (gae_step gamma lam v m rem t (snd (gae_loop gamma lam v m rem ts))) # fst (gae_loop gamma lam v m rem ts),
      snd (gae_step gamma lam v m rem t (snd (gae_loop gamma lam v m rem ts))))"
  by (simp add: gae_loop_def split: prod.split)

lemma carry_end [simp]: "length v \<le> t \<Longrightarrow> carry gamma lam v m rem t = 0"
  by (simp add: carry_def gae_loop_def)

lemma carry_step:
  "t < length v \<Longrightarrow>
   carry gamma lam v m rem t = snd (gae_step gamma lam v m rem t (carry gamma lam v m rem (Suc t)))"
  by (simp add: carry_def upt_conv_Cons gae_loop_Cons)

lemma gae_loop_from:
  "s \<le> n \<Longrightarrow> n = length v \<Longrightarrow>
   fst (gae_loop gamma lam v m rem [s ..< n]) =
     map (\<lambda>t. fst (gae_step gamma lam v m rem t (carry gamma lam v m rem (Suc t)))) [s ..< n]"
proof (induction s rule: inc_induct)
  case base
  then show ?case by (simp add: gae_loop_def)
next
  case (step s)
  then show ?case by (simp add: upt_conv_Cons gae_loop_Cons carry_def)
qed

lemma returns_nth:
  assumes "t < length v"
  shows "snd (compute_gae_advantage_return gamma lam v m rem) ! t =
           v ! t + fst (gae_step gamma lam v m rem t (carry gamma lam v m rem (Suc t)))"
  using assms by (simp add: compute_gae_advantage_return_def Let_def gae_loop_from)

lemma length_returns [simp]:
  "length (snd (compute_gae_advantage_return gamma lam v m rem)) = length v"
  "length (fst (compute_gae_advantage_return gamma lam v m rem)) = length v"
  by (simp_all add: compute_gae_advantage_return_def Let_def gae_loop_from)

text \<open>The value of the next state that the loop uses is the one the diagnostics use.\<close>

lemma mc_value_dec: "mc_value gamma (lab_dec l) = diag_mc_next gamma l"
  by (cases l) (auto simp: mc_value_def diag_mc_next_def gamma_pow_def lab_dec_def py_pow_def)

lemma diag_v_next_terminal: "lab_le (rem ! t) 1 \<Longrightarrow> diag_v_next gamma v m rem t = 0"
  by (auto simp: diag_v_next_def)

lemma diag_v_next_model:
  "\<not> lab_le (rem ! t) 1 \<Longrightarrow> Suc t < length v \<Longrightarrow> m ! Suc t = 1 \<Longrightarrow> diag_v_next gamma v m rem t = v ! Suc t"
  by (auto simp: diag_v_next_def)

lemma gae_step_masked:
  assumes "t < length v" "m ! t = 1"
  shows "gae_step gamma lam v m rem t last' =
     (if lab_le (rem ! t) 0 then (- (v ! t), 0)
      else (let adv = fixed_step_reward gamma + gamma * diag_v_next gamma v m rem t - v ! t + gamma * lam * last'
            in (adv, adv)))"
  using assms by (auto simp: gae_step_def Let_def diag_v_next_def mc_value_dec)

lemma gae_step_unmasked: "m ! t = 0 \<Longrightarrow> snd (gae_step gamma lam v m rem t last') = last'"
  by (simp add: gae_step_def Let_def)

text \<open>
  With lambda zero, the target that the backward loop computes at a masked position is
  the closed-form one-step return that the diagnostics use, for every mask, every prediction
  and every label.
\<close>

theorem lam0_targets_are_td_returns:
  assumes "t < length v" "m ! t = 1"
  shows "snd (compute_gae_advantage_return gamma 0 v m rem) ! t = returns_lam0 gamma v m rem ! t"
  using assms by (simp add: returns_nth gae_step_masked returns_lam0_def Let_def)

section \<open>Monte-Carlo targets\<close>

text \<open>
  A row whose masked positions are a window, and whose labels count down by one in it: a
  number of tokens at every position, zero at most at the last one, or infinity throughout.
\<close>

definition whole_label :: "label \<Rightarrow> bool" where
  "whole_label l = (case l of Len x \<Rightarrow> 0 \<le> x \<and> x = of_int \<lfloor>x\<rfloor> | Endless \<Rightarrow> True)"

definition countdown_row :: "nat \<Rightarrow> nat \<Rightarrow> real list \<Rightarrow> label list \<Rightarrow> bool" where
  "countdown_row i j m rem =
     (j \<le> length m \<and> length rem = length m
      \<and> (\<forall>t < length m. m ! t = (if i \<le> t \<and> t < j then 1 else 0))
      \<and> (\<forall>t < length m. i \<le> t \<and> t < j \<longrightarrow> whole_label (rem ! t))
      \<and> (\<forall>t < length m. i \<le> t \<and> Suc t < j \<longrightarrow> rem ! Suc t = lab_dec (rem ! t) \<and> \<not> lab_le (rem ! t) 0))"

lemma countdown_rowD:
  assumes "countdown_row i j m rem"
  shows "j \<le> length m" "length rem = length m"
    and "t < length m \<Longrightarrow> m ! t = (if i \<le> t \<and> t < j then 1 else 0)"
    and "i \<le> t \<Longrightarrow> t < j \<Longrightarrow> whole_label (rem ! t)"
    and "i \<le> t \<Longrightarrow> Suc t < j \<Longrightarrow> rem ! Suc t = lab_dec (rem ! t) \<and> \<not> lab_le (rem ! t) 0"
  using assms unfolding countdown_row_def by (auto simp del: le_less)

text \<open>Behind the window nothing is carried.\<close>

lemma carry_behind:
  assumes "countdown_row i j m rem" "length v = length m"
  shows "j \<le> t \<Longrightarrow> carry gamma lam v m rem t = 0"
proof (cases "t \<le> length v")
  case True
  then show "j \<le> t \<Longrightarrow> ?thesis"
  proof (induction t rule: inc_induct)
    case (step t)
    then have "m ! t = 0" using assms countdown_rowD(3)[OF assms(1), of t] by simp
    with step show ?case by (simp add: carry_step gae_step_unmasked)
  qed simp
qed simp

lemma gamma_pow_dec:
  assumes "whole_label l" "\<not> lab_le l 1" "0 < gamma"
  shows "gamma * gamma_pow gamma (lab_dec l) = gamma_pow gamma l"
proof (cases l)
  case (Len x)
  with assms have "x > 1" by (simp add: lab_le_def)
  then have "gamma * gamma powr (x - 1) = gamma powr x"
    using assms(3) by (simp add: powr_diff)
  with Len \<open>x > 1\<close> show ?thesis by (simp add: gamma_pow_def lab_dec_def py_pow_def)
qed (simp add: gamma_pow_def lab_dec_def)

lemma whole_label_one: "whole_label l \<Longrightarrow> lab_le l 1 \<Longrightarrow> \<not> lab_le l 0 \<Longrightarrow> l = Len 1"
proof (cases l)
  case (Len x)
  assume "whole_label l" "lab_le l 1" "\<not> lab_le l 0"
  with Len have x: "x = of_int \<lfloor>x\<rfloor>" "0 < x" "x \<le> 1" by (auto simp: whole_label_def lab_le_def)
  then have "\<lfloor>x\<rfloor> = 1" by linarith
  with x(1) Len show ?thesis by simp
qed (simp add: lab_le_def)

lemma whole_label_zero: "whole_label l \<Longrightarrow> lab_le l 0 \<longleftrightarrow> l = Len 0"
  by (cases l) (auto simp: whole_label_def lab_le_def)

text \<open>One step of the Bellman equation of the returns.\<close>

lemma returns_lam1_step:
  assumes "whole_label l" "\<not> lab_le l 0" "0 < gamma"
  shows "returns_lam1 gamma l =
           fixed_step_reward gamma + gamma * (if lab_le l 1 then 0 else diag_mc_next gamma l)"
proof (cases "lab_le l 1")
  case True
  with whole_label_one[OF assms(1)] assms(2) have "l = Len 1" by simp
  with assms(3) show ?thesis
    by (simp add: returns_lam1_def lab_le_def gamma_pow_def py_pow_def fixed_step_reward_def)
next
  case False
  have "gamma * (gamma_pow gamma (lab_dec l) - 1) = gamma_pow gamma l - gamma"
    using gamma_pow_dec[OF assms(1) False assms(3)] by (simp add: algebra_simps)
  then show ?thesis using False assms(2)
    by (simp add: returns_lam1_def fixed_step_reward_def diag_mc_next_def algebra_simps)
qed

lemma returns_lam1_dec:
  assumes "whole_label l" "\<not> lab_le l 1"
  shows "returns_lam1 gamma (lab_dec l) = diag_mc_next gamma l"
  using assms by (cases l)
    (auto simp: returns_lam1_def lab_le_def lab_dec_def diag_mc_next_def gamma_pow_def)

lemma carry_window:
  assumes row: "countdown_row i j m rem" and len: "length v = length m" and gamma: "0 < gamma"
    and t: "i \<le> t" "t < j"
  shows "carry gamma 1 v m rem t =
           (if lab_le (rem ! t) 0 then 0 else returns_lam1 gamma (rem ! t) - v ! t)"
  using t
proof (induction "j - t" arbitrary: t)
  case (Suc d)
  note facts = countdown_rowD[OF row]
  have t: "t < length v" "m ! t = 1" "whole_label (rem ! t)"
    using Suc.prems facts(3,4)[of t] facts(1) len by auto
  show ?case
  proof (cases "lab_le (rem ! t) 0")
    case True
    then show ?thesis using t by (simp add: carry_step gae_step_masked)
  next
    case False
    have next_state: "gamma * diag_v_next gamma v m rem t + gamma * carry gamma 1 v m rem (Suc t) =
            gamma * (if lab_le (rem ! t) 1 then 0 else diag_mc_next gamma (rem ! t))"
    proof (cases "Suc t < j")
      case True
      then have nxt: "rem ! Suc t = lab_dec (rem ! t)" "m ! Suc t = 1" "Suc t < length v"
        using Suc.prems facts(5)[of t] facts(1) facts(3)[of "Suc t"] len by auto
      have IH: "carry gamma 1 v m rem (Suc t) =
              (if lab_le (rem ! Suc t) 0 then 0 else returns_lam1 gamma (rem ! Suc t) - v ! Suc t)"
        using Suc.hyps(1)[of "Suc t"] Suc.hyps(2) Suc.prems True by simp
      show ?thesis
      proof (cases "lab_le (rem ! t) 1")
        case True
        then have "rem ! t = Len 1" using whole_label_one[OF t(3)] False by simp
        then have "carry gamma 1 v m rem (Suc t) = 0" using IH nxt(1) by (simp add: lab_dec_def lab_le_def)
        then show ?thesis using True by (simp add: diag_v_next_terminal)
      next
        case not_one: False
        then have "\<not> lab_le (rem ! Suc t) 0"
          using nxt(1) by (cases "rem ! t") (auto simp: lab_dec_def lab_le_def)
        then show ?thesis using IH nxt not_one returns_lam1_dec[OF t(3) not_one, of gamma]
          by (simp add: diag_v_next_model flip: distrib_left)
      qed
    next
      case False
      then have "Suc t = length v \<or> (Suc t < length v \<and> m ! Suc t = 0)"
        using Suc.prems facts(1) facts(3)[of "Suc t"] len by (cases "Suc t < length v") auto
      then have "diag_v_next gamma v m rem t = (if lab_le (rem ! t) 1 then 0 else diag_mc_next gamma (rem ! t))"
        by (auto simp: diag_v_next_def)
      moreover have "carry gamma 1 v m rem (Suc t) = 0"
        using carry_behind[OF row len] False by simp
      ultimately show ?thesis by simp
    qed
    then show ?thesis using t False returns_lam1_step[OF t(3) False gamma]
      by (simp add: carry_step gae_step_masked Let_def)
  qed
qed simp

lemma lam1_window:
  assumes "countdown_row i j m rem" "length v = length m" "0 < gamma" "i \<le> t" "t < j"
  shows "snd (compute_gae_advantage_return gamma 1 v m rem) ! t = returns_lam1 gamma (rem ! t)"
proof -
  have t: "t < length v" "m ! t = 1"
    using countdown_rowD(1)[OF assms(1)] countdown_rowD(3)[OF assms(1), of t] assms(2,4,5) by auto
  show ?thesis
  proof (cases "lab_le (rem ! t) 0")
    case True
    then show ?thesis using t by (simp add: returns_nth gae_step_masked returns_lam1_def)
  next
    case False
    then have "fst (gae_step gamma 1 v m rem t (carry gamma 1 v m rem (Suc t))) = carry gamma 1 v m rem t"
      using t by (simp add: carry_step gae_step_masked Let_def)
    then show ?thesis using carry_window[OF assms] False t by (simp add: returns_nth)
  qed
qed

section \<open>Values and lengths\<close>

definition serve_ok :: "real \<Rightarrow> bool" where
  "serve_ok x = (1 / 10 ^ 9 \<le> x \<and> x \<le> 1 - 1 / 10 ^ 9)"

lemma trainer_decode:
  assumes "ln gamma \<le> - EPS" "EPS \<le> 1 + v" "v \<le> - EPS"
  shows "trainer_value_to_length gamma v = ln (1 + v) / ln gamma"
proof -
  have "min (max v (- 1 + EPS)) (0 - EPS) = v" "min (ln gamma) (- EPS) = ln gamma"
    using assms by linarith+
  then show ?thesis by (simp add: trainer_value_to_length_def)
qed

lemma serving_decode: "serve_ok x \<Longrightarrow> value_to_length gamma x = ln (1 - x) / ln gamma"
  by (simp add: value_to_length_def serve_ok_def min_def max_def)

lemma EPS_pos: "0 < EPS" by (simp add: EPS_def)

lemma serve_ok_trainer: "serve_ok x \<Longrightarrow> EPS \<le> 1 - x \<and> EPS \<le> x"
  by (simp add: serve_ok_def EPS_def)

lemma length_to_value_eq: "0 < gamma \<Longrightarrow> 0 \<le> n \<Longrightarrow> length_to_value gamma n = gamma powr n - 1"
  by (simp add: length_to_value_def py_pow_def)

lemma decode_length:
  assumes "0 < gamma" "ln gamma \<le> - EPS" "0 \<le> n" "serve_ok (1 - gamma powr n)"
  shows "trainer_value_to_length gamma (length_to_value gamma n) = n"
    and "value_to_length gamma (- length_to_value gamma n) = n"
proof -
  have ln0: "ln gamma \<noteq> 0" using assms(2) EPS_pos by simp
  have lp: "ln (gamma powr n) / ln gamma = n" using assms(1) ln0 by (simp add: ln_powr)
  show "trainer_value_to_length gamma (length_to_value gamma n) = n"
    using trainer_decode[OF assms(2), of "gamma powr n - 1"] serve_ok_trainer[OF assms(4)] lp assms(1,3)
    by (simp add: length_to_value_eq)
  show "value_to_length gamma (- length_to_value gamma n) = n"
    using serving_decode[OF assms(4), of gamma] lp assms(1,3) by (simp add: length_to_value_eq)
qed

lemma logistic_bounds: "0 < logistic x" "logistic x < 1"
  by (simp_all add: logistic_def add_pos_pos)

lemma serving_trainer_agree:
  assumes "ln gamma \<le> - EPS" "serve_ok (logistic x)"
  shows "value_to_length gamma (logistic x) = trainer_value_to_length gamma (- logistic x)"
  using trainer_decode[OF assms(1), of "- logistic x"] serve_ok_trainer[OF assms(2)] serving_decode[OF assms(2), of gamma]
  by simp

section \<open>Cross bce_entropy\<close>

lemma one_minus_logistic: "1 - logistic x = 1 / (1 + exp x)"
proof -
  have "exp (- x) * exp x = 1" by (simp flip: exp_add)
  moreover have "1 + exp (- x) > 0" "1 + exp x > 0" by (simp_all add: add_pos_pos)
  ultimately show ?thesis by (simp add: logistic_def field_simps)
qed

lemma bce_logs: "bce_with_logits x t = - t * ln (logistic x) - (1 - t) * ln (1 - logistic x)"
proof -
  have pos: "1 + exp x > 0" "1 + exp (- x) > 0" by (simp_all add: add_pos_pos)
  have sp: "max x 0 + ln (1 + exp (- \<bar>x\<bar>)) = ln (1 + exp x)"
  proof (cases "x \<ge> 0")
    case True
    have "1 + exp x = exp x * (1 + exp (- x))" by (simp add: distrib_left flip: exp_add)
    then have "ln (1 + exp x) = ln (exp x) + ln (1 + exp (- x))"
      using pos(2) by (simp add: ln_mult del: ln_exp)
    with True show ?thesis by simp
  qed simp
  have "logistic x = exp x * (1 - logistic x)"
  proof -
    have "exp (- x) * exp x = 1" by (simp flip: exp_add)
    then show ?thesis unfolding one_minus_logistic using pos by (simp add: logistic_def field_simps)
  qed
  then have "ln (logistic x) = ln (exp x * (1 - logistic x))" by (rule arg_cong)
  then have "ln (logistic x) = x + ln (1 - logistic x)"
    using logistic_bounds(2)[of x] by (simp add: ln_mult)
  moreover have l1: "ln (1 - logistic x) = - ln (1 + exp x)"
    unfolding one_minus_logistic using pos by (simp add: ln_div)
  ultimately have l0: "ln (logistic x) = x - ln (1 + exp x)" by simp
  show ?thesis using sp unfolding bce_with_logits_def l0 l1 by (simp add: algebra_simps)
qed

definition bce_entropy :: "real \<Rightarrow> real" where
  "bce_entropy t = - t * ln t - (1 - t) * ln (1 - t)"

lemma ln_ratio_le:
  fixes p q :: real
  assumes "0 < p" "0 < q"
  shows "p * (ln q - ln p) \<le> q - p" and "p * (ln q - ln p) = q - p \<Longrightarrow> p = q"
proof -
  have e: "ln q - ln p = ln (q / p)" using assms by (simp add: ln_div)
  have "ln (q / p) \<le> q / p - 1" using assms by (intro ln_le_minus_one) simp
  then have "p * ln (q / p) \<le> p * (q / p - 1)" using assms by (intro mult_left_mono) simp_all
  then show "p * (ln q - ln p) \<le> q - p" using assms by (simp add: e algebra_simps)
  assume "p * (ln q - ln p) = q - p"
  then have "ln (q / p) = q / p - 1" using assms by (simp add: e field_simps)
  then have "q / p = 1" using assms by (intro ln_eq_minus_one) simp_all
  then show "p = q" using assms by simp
qed

lemma bce_gibbs:
  assumes "0 < t" "t < 1"
  shows "bce_entropy t \<le> bce_with_logits x t" and "bce_with_logits x t = bce_entropy t \<longleftrightarrow> logistic x = t"
proof -
  note b = logistic_bounds[of x]
  have g: "t * (ln (logistic x) - ln t) \<le> logistic x - t"
    "(1 - t) * (ln (1 - logistic x) - ln (1 - t)) \<le> (1 - logistic x) - (1 - t)"
    using ln_ratio_le(1)[of t "logistic x"] ln_ratio_le(1)[of "1 - t" "1 - logistic x"] assms b by simp_all
  have d: "bce_entropy t - bce_with_logits x t =
      t * (ln (logistic x) - ln t) + (1 - t) * (ln (1 - logistic x) - ln (1 - t))"
    by (simp add: bce_entropy_def bce_logs algebra_simps)
  show "bce_entropy t \<le> bce_with_logits x t" using g d by simp
  show "bce_with_logits x t = bce_entropy t \<longleftrightarrow> logistic x = t"
  proof
    assume "bce_with_logits x t = bce_entropy t"
    then have "t * (ln (logistic x) - ln t) = logistic x - t" using g d by simp
    then show "logistic x = t" using ln_ratio_le(2)[of t "logistic x"] assms b by simp
  qed (simp add: bce_entropy_def bce_logs)
qed

text \<open>
  A length that is turned into a discounted value and decoded again comes back, in the
  trainer and in the guidance functions of the server (which use the negated value), as long
  as the value is not within the server's clamping distance of zero or one.
\<close>

theorem length_value_roundtrip:
  assumes "0 < gamma" "ln gamma \<le> - EPS" "0 \<le> n" "serve_ok (1 - gamma powr n)"
  shows "trainer_value_to_length gamma (length_to_value gamma n) = n
         \<and> value_to_length gamma (- length_to_value gamma n) = n"
  using decode_length[OF assms] by simp

lemma ln_half_EPS: "ln (1 / 2 :: real) \<le> - EPS"
proof -
  have "ln (1 / 2 :: real) \<le> 1 / 2 - 1" by (rule ln_le_minus_one) simp
  then show ?thesis by (simp add: EPS_def)
qed

lemma serve_ok_demo: "serve_ok (1 - (1 / 2) powr 3)"
proof -
  have "(1 / 2 :: real) powr 3 = 1 / 8" by (simp add: powr_numeral power3_eq_cube)
  then show ?thesis by (simp add: serve_ok_def)
qed

theorem length_value_roundtrip_witness:
  "trainer_value_to_length (1 / 2) (length_to_value (1 / 2) 3) = 3
   \<and> value_to_length (1 / 2) (- length_to_value (1 / 2) 3) = 3"
  using length_value_roundtrip[of "1 / 2" 3] ln_half_EPS serve_ok_demo by simp

lemma logistic_onto: "0 < t \<Longrightarrow> t < 1 \<Longrightarrow> \<exists>y. logistic y = t"
  by (rule exI[of _ "ln (t / (1 - t))"]) (simp add: logistic_def exp_minus field_simps)

lemma bce_minimal_iff:
  assumes "0 < t" "t < 1"
  shows "(\<forall>y. bce_with_logits x t \<le> bce_with_logits y t) \<longleftrightarrow> logistic x = t"
proof -
  obtain z where z: "bce_with_logits z t = bce_entropy t"
    using logistic_onto[OF assms] bce_gibbs(2)[OF assms] by blast
  show ?thesis
  proof
    assume "\<forall>y. bce_with_logits x t \<le> bce_with_logits y t"
    then have "bce_with_logits x t \<le> bce_entropy t" using z by metis
    then show "logistic x = t" using bce_gibbs[OF assms, of x] by simp
  next
    assume "logistic x = t"
    then have "bce_with_logits x t = bce_entropy t" using bce_gibbs(2)[OF assms] by simp
    then show "\<forall>y. bce_with_logits x t \<le> bce_with_logits y t" using bce_gibbs(1)[OF assms] by simp
  qed
qed

lemma bce_target_pos: "0 < n \<Longrightarrow> bce_target gamma (Len n) = 1 - gamma powr n"
  by (simp add: bce_target_def lab_le_def lab_clamp0_def gamma_pow_def py_pow_def)

text \<open>
  C35: Under the cross-bce_entropy loss, the raw prediction that minimises the loss of a position
  with a positive number of remaining tokens is the one whose decoded length is that number,
  in the trainer and in the server, as long as the target is not within the server's clamping
  distance of zero or one.
\<close>

theorem bce_minimum_decodes_to_label:
  assumes "0 < gamma" "ln gamma \<le> - EPS" "0 < n" "serve_ok (1 - gamma powr n)"
    and "\<And>y. bce_with_logits x (bce_target gamma (Len n)) \<le> bce_with_logits y (bce_target gamma (Len n))"
  shows "value_to_length gamma (logistic x) = n
         \<and> trainer_value_to_length gamma (- logistic x) = n"
proof -
  have "0 < 1 - gamma powr n" "1 - gamma powr n < 1"
    using assms(1,4) by (simp_all add: serve_ok_def)
  then have "logistic x = 1 - gamma powr n"
    using bce_minimal_iff[of "1 - gamma powr n" x] assms(5) by (simp add: bce_target_pos[OF assms(3)])
  then have "logistic x = - length_to_value gamma n" using assms(1,3) by (simp add: length_to_value_eq)
  then show ?thesis using decode_length[OF assms(1,2) _ assms(4)] assms(3) by simp
qed

lemma bce_demo_logistic: "logistic (ln 7) = 1 - (1 / 2) powr 3"
proof -
  have "(1 / 2 :: real) powr 3 = 1 / 8" by (simp add: powr_numeral power3_eq_cube)
  then show ?thesis by (simp add: logistic_def exp_minus)
qed

theorem bce_minimum_decodes_to_label_witness:
  "value_to_length (1 / 2) (logistic (ln 7)) = 3 \<and> trainer_value_to_length (1 / 2) (- logistic (ln 7)) = 3"
proof (rule bce_minimum_decodes_to_label[where gamma = "1 / 2" and n = 3 and x = "ln 7"])
  fix y :: real
  have "(1 / 2 :: real) powr 3 = 1 / 8" by (simp add: powr_numeral power3_eq_cube)
  then have "0 < 1 - (1 / 2 :: real) powr 3" "1 - (1 / 2 :: real) powr 3 < 1" by simp_all
  then show "bce_with_logits (ln 7) (bce_target (1 / 2) (Len 3)) \<le> bce_with_logits y (bce_target (1 / 2) (Len 3))"
    using bce_minimal_iff[of "1 - (1 / 2) powr 3" "ln 7"] bce_demo_logistic bce_target_pos[of 3 "1 / 2"] by simp
qed (use ln_half_EPS serve_ok_demo in simp_all)

section \<open>Gradient accumulation\<close>

lemma token_mean_parts:
  "0 < c \<Longrightarrow> x_sum (map (\<lambda>(loss, ms). x_div (x_sum (concat (map2 masked loss ms))) c) bs) =
   x_div (x_sum (concat (map (\<lambda>(loss, ms). concat (map2 masked loss ms)) bs))) c"
  by (induction bs) (auto simp: x_sum_append x_div_add x_div_def[of "Fin 0"])

lemma map2_masked_concat:
  assumes "list_all (\<lambda>(loss, ms). length loss = length ms) bs"
  shows "concat (map (\<lambda>(loss, ms). concat (map2 masked loss ms)) bs) =
         concat (map2 masked (concat (map fst bs)) (concat (map snd bs)))"
  using assms by (induction bs) auto

definition real_mask :: "bool list list \<Rightarrow> real list list" where
  "real_mask ms = map (map of_bool) ms"

lemma sum_of_bool: "sum_list (map of_bool bs) = real (length (filter id bs))"
  by (induction bs) simp_all

lemma token_total:
  "sum_list (concat (concat (map real_mask mss))) =
   real (sum_list (map (\<lambda>b. length (filter id (concat b))) mss))"
proof -
  have one: "sum_list (concat (real_mask b)) = real (length (filter id (concat b)))" for b
    unfolding real_mask_def by (simp flip: sum_of_bool add: map_concat)
  show ?thesis by (induction mss) (simp_all add: one id_def)
qed

text \<open>
  C31: With the \<open>token-mean\<close> aggregation and one process, the losses of the micro-batches of an
  optimizer step, each divided by the number of tokens of the whole step, add up to the
  \<open>token-mean\<close> of all the micro-batches taken as one batch, infinite and undefined losses
  included.
\<close>

theorem micro_batches_sum_to_token_mean:
  assumes "lenvm_agg_method a = ''token-mean''" "\<not> average_tokens_across_devices t" "n_gpu t \<le> 1"
    and "non_data_parallel_size t = None" "bs \<noteq> []"
    and "list_all (\<lambda>(loss, ms). length loss = length ms) bs"
    and "n = get_num_items_in_batch t gather super_items (map snd bs)"
  shows "\<exists>ls. gather_all (\<lambda>(loss, ms). value_loss a t loss (real_mask ms) n) bs = Inr ls
              \<and> aggregate_loss ''token-mean'' (concat (map fst bs)) (concat (map (real_mask \<circ> snd) bs)) = Inr (x_sum ls)"
proof -
  let ?N = "sum_list (map (\<lambda>b. length (filter id (concat b))) (map snd bs))"
  let ?c = "max (real ?N) 1"
  let ?bs = "map (\<lambda>(loss, ms). (loss, real_mask ms)) bs"
  have n: "n = Some ?N" using assms(2-5,7) by (simp add: get_num_items_in_batch_def Let_def)
  have one: "value_loss a t loss ms n = Inr (x_div (x_sum (concat (map2 masked loss ms))) ?c)" for loss ms
    using assms(1,2) by (simp add: value_loss_def n)
  have ga: "gather_all (\<lambda>x. Inr (f x)) xs = Inr (map f xs)" for f :: "'x \<Rightarrow> 'y" and xs
    by (induction xs) simp_all
  have g: "gather_all (\<lambda>(loss, ms). value_loss a t loss (real_mask ms) n) bs =
        Inr (map (\<lambda>(loss, ms). x_div (x_sum (concat (map2 masked loss ms))) ?c) ?bs)"
    using ga[of "\<lambda>(loss, ms). x_div (x_sum (concat (map2 masked loss (real_mask ms)))) ?c" bs]
    by (simp add: one case_prod_unfold comp_def)
  have cc: "concat (map (\<lambda>(loss, ms). concat (map2 masked loss ms)) ?bs) =
        concat (map2 masked (concat (map fst ?bs)) (concat (map snd ?bs)))"
    using assms(6) by (intro map2_masked_concat) (auto simp: list_all_iff real_mask_def)
  have "sum_list (concat (concat (map snd ?bs))) = real ?N"
    using token_total[of "map snd bs"] by (simp add: case_prod_unfold comp_def)
  then have "aggregate_loss ''token-mean'' (concat (map fst ?bs)) (concat (map snd ?bs)) =
        Inr (x_sum (map (\<lambda>(loss, ms). x_div (x_sum (concat (map2 masked loss ms))) ?c) ?bs))"
    using token_mean_parts[of ?c ?bs] cc by (simp add: aggregate_loss_def)
  with g show ?thesis by (simp add: case_prod_unfold comp_def)
qed

theorem micro_batches_sum_to_token_mean_witness:
  "\<exists>ls. gather_all (\<lambda>(loss, ms). value_loss \<lparr>lenvm_gamma = 1 / 2, lenvm_lam = 1, lenvm_target_type = ''discounted_return'',
          lenvm_length_activation = ''softplus'', lenvm_length_normalizer = 1, lenvm_huber_loss_delta = 1,
          lenvm_agg_method = ''token-mean'', lenvm_loss_type = ''huber'', lenvm_relative_loss = False\<rparr>
        \<lparr>average_tokens_across_devices = False, world_size = 1, n_gpu = 1, num_processes = 1,
          non_data_parallel_size = None, gradient_accumulation_steps = 2, logging_steps = 1\<rparr>
        loss (real_mask ms) (Some 3))
      [([[Fin 6, Fin 100]], [[True, False]]), ([[Fin 3, Fin 9]], [[True, True]])] = Inr ls
     \<and> aggregate_loss ''token-mean'' [[Fin 6, Fin 100], [Fin 3, Fin 9]] (real_mask [[True, False], [True, True]]) = Inr (x_sum ls)"
  using micro_batches_sum_to_token_mean[of
      "\<lparr>lenvm_gamma = 1 / 2, lenvm_lam = 1, lenvm_target_type = ''discounted_return'',
          lenvm_length_activation = ''softplus'', lenvm_length_normalizer = 1, lenvm_huber_loss_delta = 1,
          lenvm_agg_method = ''token-mean'', lenvm_loss_type = ''huber'', lenvm_relative_loss = False\<rparr>"
      "\<lparr>average_tokens_across_devices = False, world_size = 1, n_gpu = 1, num_processes = 1,
          non_data_parallel_size = None, gradient_accumulation_steps = 2, logging_steps = 1\<rparr>"
      "[([[Fin 6, Fin 100]], [[True, False]]), ([[Fin 3, Fin 9]], [[True, True]])]" "Some 3" id None]
  by (simp add: get_num_items_in_batch_def real_mask_def)

text \<open>A row of four positions whose last two are masked, with one token to go and the end.\<close>

theorem lam0_targets_are_td_returns_witness:
  "snd (compute_gae_advantage_return (1 / 2) 0 [0, 0, - 1 / 4, - 1 / 8] [0, 0, 1, 1] [Len (- 1), Len (- 1), Len 1, Len 0]) ! 2
   = returns_lam0 (1 / 2) [0, 0, - 1 / 4, - 1 / 8] [0, 0, 1, 1] [Len (- 1), Len (- 1), Len 1, Len 0] ! 2"
  by (rule lam0_targets_are_td_returns) simp_all

end
