(* ===== verification/ValueLabels.thy ===== *)
theory ValueLabels
  imports LengthValueProps
begin

text \<open>
  The data side of the length value trainer: truncation of a prompt and a response to the
  cutoff length (\<open>data/processor/processor_utils.py\<close>), the remaining-length labels and the
  regression mask of an example (\<open>data/processor/value_regression.py\<close>), padding in the
  collator (\<open>data/collator.py\<close>), and the packing of lengths into knapsacks. Token ids of the
  prompt and of the response are what the template encoded; the division in \<open>infer_seqlen\<close> is
  read as exact.
\<close>

section \<open>Truncation\<close>

definition infer_seqlen :: "nat \<Rightarrow> nat \<Rightarrow> nat \<Rightarrow> (nat \<times> nat) res" where
  "infer_seqlen source_len target_len cutoff_len =
     bind_res
       (if target_len * 2 < cutoff_len then Inr cutoff_len
        else if source_len * 2 < cutoff_len then Inr (cutoff_len - source_len)
        else if source_len + target_len = 0 then Inl ZeroDivisionError
        else Inr (cutoff_len * target_len div (source_len + target_len)))
       (\<lambda>max_target_len.
          let new_target_len = min max_target_len target_len;
              max_source_len = cutoff_len - new_target_len
          in Inr (min max_source_len source_len, new_target_len))"

section \<open>Examples\<close>

record data_args =
  cutoff_len :: nat
  max_finite_length :: nat

record tokens =
  efficient_eos :: bool
  eos_token_id :: int
  newline_token_id :: int

text \<open>The response as it is labelled: with the end token appended, and without a final newline.\<close>

definition final_response :: "tokens \<Rightarrow> int list \<Rightarrow> int list res" where
  "final_response tk response =
     (let r = (if efficient_eos tk then response @ [eos_token_id tk] else response)
      in if r = [] then Inl IndexError
         else Inr (if last r = newline_token_id tk then butlast r else r))"

definition value_target :: "data_args \<Rightarrow> nat \<Rightarrow> nat \<Rightarrow> nat \<Rightarrow> label" where
  "value_target d org_target_len org_max_len idx =
     (if org_target_len \<ge> max_finite_length d then Endless else Len (real_of_int (int org_max_len - int idx - 1)))"

text \<open>The loop over the positions from \<open>valid_start\<close> on.\<close>

definition value_targets :: "data_args \<Rightarrow> nat \<Rightarrow> nat \<Rightarrow> nat \<Rightarrow> nat \<Rightarrow> label list" where
  "value_targets d org_target_len org_max_len valid_start seq_len =
     map (\<lambda>idx. if valid_start \<le> idx then value_target d org_target_len org_max_len idx else Len (- 1)) [0 ..< seq_len]"

definition value_masks :: "nat \<Rightarrow> int \<Rightarrow> nat \<Rightarrow> bool list" where
  "value_masks valid_start valid_end seq_len =
     map (\<lambda>idx. valid_start \<le> idx \<and> int idx \<le> valid_end) [0 ..< seq_len]"

definition encode_example ::
  "data_args \<Rightarrow> tokens \<Rightarrow> int list \<Rightarrow> int list \<Rightarrow> (int list \<times> label list \<times> bool list) res"
where
  "encode_example d tk prompt_ids response =
     bind_res (final_response tk response) (\<lambda>response_ids.
     bind_res (infer_seqlen (length prompt_ids) (length response_ids) (cutoff_len d)) (\<lambda>(source_len, target_len).
       let input_ids = take source_len prompt_ids @ take target_len response_ids;
           seq_len = length input_ids;
           valid_start = source_len - 1;
           valid_end = int source_len + int target_len - 1
       in Inr (input_ids,
               value_targets d (length response_ids) (length prompt_ids + length response_ids) valid_start seq_len,
               value_masks valid_start valid_end seq_len)))"

text \<open>A raw example: its messages (only their number is looked at) and the encoded ids.\<close>

record raw_example =
  prompt_messages :: nat
  response_messages :: nat
  encoded_prompt :: "int list"
  encoded_response :: "int list"

definition preprocess_example :: "data_args \<Rightarrow> tokens \<Rightarrow> raw_example \<Rightarrow> (int list \<times> label list \<times> bool list) res" where
  "preprocess_example d tk ex =
     (if prompt_messages ex mod 2 \<noteq> 1 \<or> response_messages ex \<noteq> 1 then Inl ValueError
      else encode_example d tk (encoded_prompt ex) (encoded_response ex))"

record model_inputs =
  input_ids :: "int list list"
  attention_mask :: "int list list"
  token_labels :: "int list list"
  value_label_rows :: "label list list"
  value_mask_rows :: "bool list list"

definition preprocess_dataset :: "data_args \<Rightarrow> tokens \<Rightarrow> raw_example list \<Rightarrow> model_inputs res" where
  "preprocess_dataset d tk exs =
     bind_res (gather_all (preprocess_example d tk) exs) (\<lambda>rows.
       Inr \<lparr>input_ids = map fst rows,
            attention_mask = map (\<lambda>r. replicate (length (fst r)) 1) rows,
            token_labels = map (\<lambda>r. replicate (length (fst r)) (- 100)) rows,
            value_label_rows = map (fst \<circ> snd) rows,
            value_mask_rows = map (snd \<circ> snd) rows\<rparr>)"

section \<open>Collation\<close>

definition pad_or_truncate :: "'a \<Rightarrow> 'a list \<Rightarrow> nat \<Rightarrow> 'a list" where
  "pad_or_truncate z xs seq_len =
     (if seq_len < length xs then take seq_len xs else xs @ replicate (seq_len - length xs) z)"

text \<open>The value tensors of a batch whose token tensor is \<open>seq_len\<close> wide.\<close>

definition collate_values :: "nat \<Rightarrow> label list list \<Rightarrow> bool list list \<Rightarrow> label list list \<times> bool list list" where
  "collate_values seq_len vls vms =
     (map (\<lambda>(v, m). pad_or_truncate (Len 0) v seq_len) (zip vls vms),
      map (\<lambda>(v, m). pad_or_truncate False m seq_len) (zip vls vms))"

section \<open>Packing\<close>

text \<open>\<open>bisect.bisect\<close> of a sorted list: the number of elements up to the last that is at most the bound.\<close>

definition bisect_right :: "nat list \<Rightarrow> nat \<Rightarrow> nat" where
  "bisect_right numbers c = length (takeWhile (\<lambda>x. x \<le> c) numbers)"

definition search_for_fit :: "nat list \<Rightarrow> nat \<Rightarrow> int" where
  "search_for_fit numbers c = (let i = bisect_right numbers c in if i = 0 then - 1 else int i - 1)"

lemma search_for_fit_nat:
  "search_for_fit numbers c \<noteq> - 1 \<Longrightarrow>
   0 < bisect_right numbers c \<and> nat (search_for_fit numbers c) = bisect_right numbers c - 1"
  by (simp add: search_for_fit_def Let_def split: if_splits)

lemma search_for_fit_bound: "search_for_fit numbers c \<noteq> - 1 \<Longrightarrow> nat (search_for_fit numbers c) < length numbers"
  using search_for_fit_nat[of numbers c] length_takeWhile_le[of "\<lambda>x. x \<le> c" numbers]
  unfolding bisect_right_def by linarith

text \<open>One knapsack: the numbers put into it and the numbers left.\<close>

function fill_knapsack :: "nat list \<Rightarrow> nat \<Rightarrow> nat list \<times> nat list" where
  "fill_knapsack numbers c =
     (let index = search_for_fit numbers c
      in if index = - 1 then ([], numbers)
         else
           (case fill_knapsack (take (nat index) numbers @ drop (Suc (nat index)) numbers) (c - numbers ! nat index) of
              (ks, rest) \<Rightarrow> (numbers ! nat index # ks, rest)))"
  by pat_completeness auto

termination fill_knapsack
  by (relation "measure (\<lambda>(ns, c). length ns)") (use search_for_fit_bound in fastforce)+

declare fill_knapsack.simps [simp del]

partial_function (option) pack_loop :: "nat \<Rightarrow> nat list \<Rightarrow> nat list list option" where
  "pack_loop c numbers =
     (if numbers = [] then Some []
      else
        (case fill_knapsack numbers c of
           (ks, rest) \<Rightarrow> Option.bind (pack_loop c rest) (\<lambda>kss. Some (ks # kss))))"

definition greedy_knapsack :: "nat list \<Rightarrow> nat \<Rightarrow> nat list list option" where
  "greedy_knapsack numbers c = pack_loop c (sort numbers)"

end
