(* ===== verification/ValueLabelsProps.thy ===== *)
theory ValueLabelsProps
  imports ValueLabels
begin

text \<open>
  What the data side promises to the trainer: truncation fits, the label of a position, the
  targets that the labels of a collated batch lead to, the logarithmic target, and packing.
\<close>

section \<open>Truncation\<close>

lemma infer_seqlen_form:
  assumes "0 < s + t"
  shows "\<exists>mt \<le> c. infer_seqlen s t c = Inr (min (c - min mt t) s, min mt t)"
proof -
  have q: "c * t div (s + t) \<le> c"
    using assms div_le_mono[of "c * t" "c * (s + t)" "s + t"] by simp
  consider "t * 2 < c" | "\<not> t * 2 < c" "s * 2 < c" | "\<not> t * 2 < c" "\<not> s * 2 < c" by blast
  then show ?thesis
  proof cases
    case 1
    then show ?thesis by (intro exI[of _ c]) (simp add: infer_seqlen_def Let_def)
  next
    case 2
    then show ?thesis by (intro exI[of _ "c - s"]) (simp add: infer_seqlen_def Let_def)
  next
    case 3
    then show ?thesis using assms q
      by (intro exI[of _ "c * t div (s + t)"]) (simp add: infer_seqlen_def Let_def)
  qed
qed

lemma infer_seqlen_bounds:
  assumes "infer_seqlen s t c = Inr (s', t')"
  shows "s' \<le> s" "t' \<le> t" "s' + t' \<le> c"
proof -
  have "s' \<le> s \<and> t' \<le> t \<and> s' + t' \<le> c"
  proof (cases "0 < s + t")
    case True
    obtain mt where mt: "mt \<le> c" and f: "infer_seqlen s t c = Inr (min (c - min mt t) s, min mt t)"
      using infer_seqlen_form[OF True, of c] by (elim exE conjE)
    have e: "(s', t') = (min (c - min mt t) s, min mt t)" using trans[OF assms[symmetric] f] by simp
    show ?thesis using e mt by (simp only: prod.inject) linarith
  next
    case False
    with assms show ?thesis by (simp add: infer_seqlen_def split: if_splits)
  qed
  then show "s' \<le> s" "t' \<le> t" "s' + t' \<le> c" by simp_all
qed

lemma infer_seqlen_id:
  assumes "s + t \<le> c" "0 < s + t"
  shows "infer_seqlen s t c = Inr (s, t)"
proof -
  have "t \<le> c * t div (s + t)"
    using assms div_le_mono[of "(s + t) * t" "c * t" "s + t"] by simp
  with assms show ?thesis by (auto simp: infer_seqlen_def Let_def)
qed

text \<open>
  Truncation never lengthens either part, the two parts together fit into the cutoff
  length, and an example that fits is left as it is.
\<close>

theorem infer_seqlen_fits:
  assumes "0 < s + t"
  shows "\<exists>s' t'. infer_seqlen s t c = Inr (s', t') \<and> s' \<le> s \<and> t' \<le> t \<and> s' + t' \<le> c
                 \<and> (s + t \<le> c \<longrightarrow> s' = s \<and> t' = t)"
proof -
  obtain s' t' where r: "infer_seqlen s t c = Inr (s', t')"
    using infer_seqlen_form[OF assms, of c] by (elim exE conjE)
  then show ?thesis using infer_seqlen_bounds[OF r] infer_seqlen_id[OF _ assms, of c] by auto
qed

theorem infer_seqlen_fits_witness:
  "\<exists>s' t'. infer_seqlen 10 2 8 = Inr (s', t') \<and> s' \<le> 10 \<and> t' \<le> 2 \<and> s' + t' \<le> 8 \<and> infer_seqlen 10 2 8 = Inr (6, 2)"
  using infer_seqlen_fits[of 10 2 8] by (simp add: infer_seqlen_def)

section \<open>Labels\<close>

lemma encode_exampleD:
  assumes "encode_example d tk p resp = Inr (ids, targets, masks)"
  shows "\<exists>r s t. final_response tk resp = Inr r \<and> infer_seqlen (length p) (length r) (cutoff_len d) = Inr (s, t)
           \<and> s \<le> length p \<and> t \<le> length r \<and> ids = take s p @ take t r
           \<and> targets = value_targets d (length r) (length p + length r) (s - 1) (s + t)
           \<and> masks = value_masks (s - 1) (int s + int t - 1) (s + t)"
proof -
  obtain r s t where r: "final_response tk resp = Inr r"
    and st: "infer_seqlen (length p) (length r) (cutoff_len d) = Inr (s, t)"
    using assms by (auto simp: encode_example_def bind_res_Inr_iff)
  then show ?thesis using assms infer_seqlen_bounds[OF st]
    by (auto simp: encode_example_def Let_def min_absorb2)
qed

text \<open>
  C32: Every position of an encoded example from the last prompt token on is masked, and no
  other; its label is the number of response tokens that follow it, plus the number of prompt
  tokens that truncation dropped. The labels count what they are meant to count exactly when
  the prompt is kept whole.
\<close>

theorem encode_example_labels:
  assumes "encode_example d tk p resp = Inr (ids, targets, masks)"
    and "final_response tk resp = Inr r" "infer_seqlen (length p) (length r) (cutoff_len d) = Inr (s, t)"
    and "length r < max_finite_length d" "idx < length ids"
  shows "masks ! idx = (s - 1 \<le> idx)
         \<and> (masks ! idx \<longrightarrow> targets ! idx = Len (real (length r - (idx + 1 - s)) + real (length p - s)))"
proof -
  have f: "s \<le> length p" "t \<le> length r" "ids = take s p @ take t r"
    "targets = value_targets d (length r) (length p + length r) (s - 1) (s + t)"
    "masks = value_masks (s - 1) (int s + int t - 1) (s + t)"
    using encode_exampleD[OF assms(1)] assms(2,3) by auto
  have idx: "idx < s + t" using assms(5) f(1-3) by simp
  have m: "masks ! idx = (s - 1 \<le> idx)" using idx f(5) by (auto simp: value_masks_def)
  have "targets ! idx = Len (real (length r - (idx + 1 - s)) + real (length p - s))" if "s - 1 \<le> idx"
  proof -
    have "real (length r - (idx + 1 - s)) + real (length p - s) = real (length p + length r) - real idx - 1"
      using that f(1,2) idx by (simp add: of_nat_diff)
    then show ?thesis using idx that f(4) assms(4) by (simp add: value_targets_def value_target_def)
  qed
  with m show ?thesis by simp
qed

theorem encode_example_labels_witness:
  "encode_example \<lparr>cutoff_len = 8, max_finite_length = 100\<rparr>
     \<lparr>efficient_eos = True, eos_token_id = 2, newline_token_id = 13\<rparr> [5, 6, 7, 8, 9, 10, 11, 12, 13, 14] [21, 22]
   = Inr ([5, 6, 7, 8, 9, 21, 22, 2], [Len (- 1), Len (- 1), Len (- 1), Len (- 1), Len 8, Len 7, Len 6, Len 5],
          [False, False, False, False, True, True, True, True])
   \<and> [Len (- 1), Len (- 1), Len (- 1), Len (- 1), Len 8, Len 7, Len 6, Len 5] ! 7 = Len (real 0 + real 5)"
proof -
  let ?d = "\<lparr>cutoff_len = 8, max_finite_length = 100\<rparr>"
  let ?tk = "\<lparr>efficient_eos = True, eos_token_id = 2, newline_token_id = 13\<rparr>"
  let ?p = "[5, 6, 7, 8, 9, 10, 11, 12, 13, 14] :: int list"
  let ?targets = "[Len (- 1), Len (- 1), Len (- 1), Len (- 1), Len 8, Len 7, Len 6, Len 5]"
  let ?masks = "[False, False, False, False, True, True, True, True]"
  have r: "final_response ?tk [21, 22] = Inr [21, 22, 2]" by code_simp
  have st: "infer_seqlen (length ?p) (length [21, 22, 2 :: int]) (cutoff_len ?d) = Inr (5, 3)" by code_simp
  have enc: "encode_example ?d ?tk ?p [21, 22] = Inr ([5, 6, 7, 8, 9, 21, 22, 2], ?targets, ?masks)"
    by code_simp
  show ?thesis using encode_example_labels[OF enc r st, of 7] enc by simp
qed

section \<open>Targets of a collated batch\<close>

lemma length_pad [simp]: "length (pad_or_truncate z xs n) = n"
  by (simp add: pad_or_truncate_def)

lemma nth_pad: "k < n \<Longrightarrow> pad_or_truncate z xs n ! k = (if k < length xs then xs ! k else z)"
  by (simp add: pad_or_truncate_def nth_append)

lemma whole_value_target: "idx < org_max_len \<Longrightarrow> whole_label (value_target d n org_max_len idx)"
  by (simp add: value_target_def whole_label_def)

lemma value_target_Suc:
  assumes "Suc idx < org_max_len"
  shows "value_target d n org_max_len (Suc idx) = lab_dec (value_target d n org_max_len idx)"
    and "\<not> lab_le (value_target d n org_max_len idx) 0"
  using assms by (auto simp: value_target_def lab_dec_def lab_le_def)

lemma encoded_countdown:
  assumes "encode_example d tk p resp = Inr (ids, targets, masks)"
  shows "\<exists>i j. countdown_row i j (map of_bool (pad_or_truncate False masks n)) (pad_or_truncate (Len 0) targets n)"
proof -
  obtain r s t where "final_response tk resp = Inr r"
    and "infer_seqlen (length p) (length r) (cutoff_len d) = Inr (s, t)"
    and f: "s \<le> length p" "t \<le> length r" and "ids = take s p @ take t r"
    and ta: "targets = value_targets d (length r) (length p + length r) (s - 1) (s + t)"
    and ma: "masks = value_masks (s - 1) (int s + int t - 1) (s + t)"
    using encode_exampleD[OF assms] by (elim exE conjE)
  have len: "length targets = s + t" "length masks = s + t"
    by (simp_all add: ta ma value_targets_def value_masks_def)
  have m: "masks ! k \<longleftrightarrow> s - 1 \<le> k" if "k < s + t" for k
    using that by (auto simp: ma value_masks_def)
  have v: "targets ! k = value_target d (length r) (length p + length r) k" if "s - 1 \<le> k" "k < s + t" for k
    using that by (simp add: ta value_targets_def)
  have "countdown_row (s - 1) (min (s + t) n) (map of_bool (pad_or_truncate False masks n)) (pad_or_truncate (Len 0) targets n)"
    unfolding countdown_row_def length_map length_pad
  proof (intro conjI allI impI)
    fix k assume "k < n"
    then show "map of_bool (pad_or_truncate False masks n) ! k = (if s - 1 \<le> k \<and> k < min (s + t) n then 1 else 0 :: real)"
      using m[of k] by (auto simp: nth_pad len)
    assume k: "s - 1 \<le> k \<and> k < min (s + t) n"
    then show "whole_label (pad_or_truncate (Len 0) targets n ! k)"
      using f by (simp add: nth_pad len v whole_value_target)
  next
    fix k assume "k < n" "s - 1 \<le> k \<and> Suc k < min (s + t) n"
    then have k: "s - 1 \<le> k" "Suc k < s + t" "Suc k < n" by simp_all
    then have "Suc k < length p + length r" using f by simp
    then show "pad_or_truncate (Len 0) targets n ! Suc k = lab_dec (pad_or_truncate (Len 0) targets n ! k)"
      "\<not> lab_le (pad_or_truncate (Len 0) targets n ! k) 0"
      using k v[of k] v[of "Suc k"] value_target_Suc by (simp_all add: nth_pad len)
  qed simp_all
  then show ?thesis by blast
qed

text \<open>
  C30: With lambda one, whatever the model predicts, the regression target of every masked
  position of an encoded and collated example is the discounted return of its label: zero at
  the end token, otherwise minus one plus gamma to the power of the number of remaining tokens
  (minus one for an unbounded response), also where the window is cut by truncation or
  padding.
\<close>

theorem collated_lam1_targets:
  assumes "encode_example d tk p resp = Inr (ids, targets, masks)" "0 < gamma" "length v = n" "k < n"
    and "pad_or_truncate False masks n ! k"
  shows "snd (compute_gae_advantage_return gamma 1 v (map of_bool (pad_or_truncate False masks n))
                (pad_or_truncate (Len 0) targets n)) ! k
         = returns_lam1 gamma (pad_or_truncate (Len 0) targets n ! k)"
proof -
  obtain i j where row: "countdown_row i j (map of_bool (pad_or_truncate False masks n)) (pad_or_truncate (Len 0) targets n)"
    using encoded_countdown[OF assms(1)] by blast
  have "i \<le> k \<and> k < j"
    using countdown_rowD(3)[OF row, of k] assms(4,5) by (simp split: if_splits)
  then show ?thesis using lam1_window[OF row, of v gamma k] assms(2,3) by simp
qed

theorem collated_lam1_targets_witness:
  "snd (compute_gae_advantage_return (1 / 2) 1 [- 1 / 3, - 1 / 7, - 1 / 4, - 1 / 8, 0]
      (map of_bool (pad_or_truncate False [False, True, True, True] 5))
      (pad_or_truncate (Len 0) [Len (- 1), Len 2, Len 1, Len 0] 5)) ! 1
   = returns_lam1 (1 / 2) (Len 2)"
proof -
  have enc: "encode_example \<lparr>cutoff_len = 8, max_finite_length = 100\<rparr>
     \<lparr>efficient_eos = True, eos_token_id = 2, newline_token_id = 13\<rparr> [5, 6] [21]
   = Inr ([5, 6, 21, 2], [Len (- 1), Len 2, Len 1, Len 0], [False, True, True, True])"
    by code_simp
  show ?thesis
    using collated_lam1_targets[OF enc, of "1 / 2" "[- 1 / 3, - 1 / 7, - 1 / 4, - 1 / 8, 0]" 5 1]
    by (simp add: nth_pad)
qed

section \<open>The logarithmic target\<close>

definition agg_methods :: "string list" where
  "agg_methods = [''token-mean'', ''seq-mean-token-sum'', ''seq-mean-token-mean'', ''seq-sum-token-sum'', ''seq-mean-token-mean-max'']"

lemma seq_mean_NaN:
  assumes "NaN \<in> set per_seq" "length per_seq = length ms"
  shows "seq_mean per_seq ms = NaN"
proof -
  obtain i where i: "i < length per_seq" "per_seq ! i = NaN"
    using assms(1) by (auto simp: in_set_conv_nth)
  then have "masked per_seq (valid_seqs ms) ! i = NaN" "i < length (masked per_seq (valid_seqs ms))"
    using assms(2) by (simp_all add: masked_def valid_seqs_def)
  then have "NaN \<in> set (masked per_seq (valid_seqs ms))" using nth_mem by metis
  then show ?thesis by (simp add: seq_mean_def x_sum_NaN)
qed

lemma aggregate_loss_NaN:
  assumes "i < length loss" "length loss = length ms" "NaN \<in> set (masked (loss ! i) (ms ! i))"
  shows "x_sum (concat (map2 masked loss ms)) = NaN"
    and "method \<in> set agg_methods \<Longrightarrow> aggregate_loss method loss ms = Inr NaN"
proof -
  have i: "i < length (map2 masked loss ms)" "map2 masked loss ms ! i = masked (loss ! i) (ms ! i)"
    using assms by simp_all
  then have "NaN \<in> set (concat (map2 masked loss ms))"
    using assms(3) nth_mem[OF i(1)] by (simp only: set_concat) (metis UN_I)
  then show all: "x_sum (concat (map2 masked loss ms)) = NaN" by (rule x_sum_NaN)
  let ?per = "map2 (\<lambda>l m. x_sum (masked l m)) loss ms"
  have "?per ! i = NaN" using assms by (simp add: x_sum_NaN)
  moreover have il: "i < length ?per" using assms by simp
  ultimately have p: "NaN \<in> set ?per" using nth_mem by metis
  then have p2: "NaN \<in> set (map (\<lambda>s. x_div s 5000) ?per)"
    by (metis (no_types, lifting) image_eqI list.set_map x_div_Fin(2))
  have "map2 (\<lambda>s m. x_div s (max (sum_list m) 1)) ?per ms ! i = NaN"
    using assms by (simp add: x_sum_NaN)
  then have p1: "NaN \<in> set (map2 (\<lambda>s m. x_div s (max (sum_list m) 1)) ?per ms)"
    using assms(1,2) by (metis (no_types, lifting) length_map length_zip min.idem nth_mem)
  show "aggregate_loss method loss ms = Inr NaN" if "method \<in> set agg_methods"
    using that all seq_mean_NaN[OF p] seq_mean_NaN[OF p1] seq_mean_NaN[OF p2] assms(2)
    by (auto simp: agg_methods_def aggregate_loss_def Let_def)
qed

lemma value_loss_NaN:
  assumes "i < length loss" "length loss = length ms" "NaN \<in> set (masked (loss ! i) (ms ! i))"
    and "lenvm_agg_method a \<in> set agg_methods"
  shows "value_loss a t loss ms num_items = Inr NaN"
  using aggregate_loss_NaN[OF assms(1-3)] assms(4)
  by (auto simp: value_loss_def Let_def split: option.split)

text \<open>The loss of a position labelled minus one is infinite under the logarithmic target.\<close>

lemma log_length_loss_prompt:
  assumes "lenvm_target_type a = ''log_length''"
  shows "regression_loss a p (log1p_label (Len (- 1))) (Len (- 1)) = PosInf"
  by (simp add: regression_loss_def Let_def log1p_label_def x_sub_def huber_def relative_denom_def
      lab_le_def x_quot_def x_div_def x_inf_def)

lemma per_token_row_log_length:
  assumes "lenvm_target_type a = ''log_length''" "lenvm_loss_type a = ''huber''" "0 < lenvm_huber_loss_delta a"
  shows "per_token_row a raw m labels =
     Inr (map (\<lambda>(p, l). regression_loss a p (log1p_label l) l) (zip (map softplus raw) labels), map softplus raw)"
proof -
  have "gather_all (raw_to_target_prediction a) raw = Inr (map softplus raw)"
    using assms(1) by (intro gather_all_map) (simp add: raw_to_target_prediction_def)
  moreover have "zip pred (zip (map log1p_label labels) labels) = map (\<lambda>(p, l). (p, log1p_label l, l)) (zip pred labels)"
    for pred :: "real list"
    by (simp add: zip_map1 zip_map2 zip_same_conv_map flip: map_zip_map2)
  ultimately show ?thesis using assms
    by (simp add: per_token_row_def build_regression_target_def case_prod_unfold comp_def)
qed

lemma unmasked_label:
  assumes "encode_example d tk p resp = Inr (ids, targets, masks)" "ids \<noteq> []" "\<not> masks ! 0"
  shows "0 < length targets \<and> 0 < length masks \<and> targets ! 0 = Len (- 1)"
proof -
  obtain r s t where "final_response tk resp = Inr r"
    and "infer_seqlen (length p) (length r) (cutoff_len d) = Inr (s, t)"
    and f: "s \<le> length p" "t \<le> length r" and ids: "ids = take s p @ take t r"
    and ta: "targets = value_targets d (length r) (length p + length r) (s - 1) (s + t)"
    and ma: "masks = value_masks (s - 1) (int s + int t - 1) (s + t)"
    using encode_exampleD[OF assms(1)] by (elim exE conjE)
  have pos: "0 < s + t" using assms(2) ids by auto
  then have "\<not> s - 1 \<le> 0" using assms(3) by (auto simp: ma value_masks_def)
  then show ?thesis using pos by (simp add: ta ma value_targets_def value_masks_def)
qed

lemma prompt_row_NaN:
  assumes "lenvm_target_type a = ''log_length''" "0 < length raw" "0 < length labels" "0 < length m"
    and "labels ! 0 = Len (- 1)" "m ! 0 = 0"
  shows "NaN \<in> set (masked (map (\<lambda>(p, l). regression_loss a p (log1p_label l) l) (zip (map softplus raw) labels)) m)"
proof -
  let ?l = "masked (map (\<lambda>(p, l). regression_loss a p (log1p_label l) l) (zip (map softplus raw) labels)) m"
  have "?l ! 0 = NaN" "0 < length ?l"
    using assms by (simp_all add: masked_def log_length_loss_prompt)
  then show ?thesis using nth_mem by metis
qed

text \<open>
  C38: Under the logarithmic length target the loss of every batch that contains an example
  with an unmasked first position (at least two prompt tokens) is not a number: the labels of
  unmasked prompt positions are minus one, the logarithm there is infinite, and the mask
  multiplies it by zero.
\<close>

theorem log_length_loss_undefined:
  assumes "lenvm_target_type a = ''log_length''" "lenvm_loss_type a = ''huber''" "0 < lenvm_huber_loss_delta a"
    and "lenvm_agg_method a \<in> set agg_methods"
    and "encode_example d tk p resp = Inr (ids, vls ! i, vms ! i)" "ids \<noteq> []" "\<not> vms ! i ! 0"
    and "i < length vls" "length vms = length vls" "length raw = length vls"
    and "0 < n" "length (raw ! i) = n" "collate_values n vls vms = (labels, ms)"
  shows "\<exists>preds. batch_loss a t raw (real_mask ms) labels num_items = Inr (NaN, preds)"
proof -
  let ?f = "\<lambda>(x, m, l). (map (\<lambda>(p, l). regression_loss a p (log1p_label l) l) (zip (map softplus x) l), map softplus x)"
  let ?rows = "map ?f (zip raw (zip (real_mask ms) labels))"
  have len: "length labels = length vls" "length ms = length vls"
    using assms(9,13) by (auto simp: collate_values_def)
  have rows: "gather_all (\<lambda>(x, m, l). per_token_row a x m l) (zip raw (zip (real_mask ms) labels)) = Inr ?rows"
    by (rule gather_all_map) (auto simp: per_token_row_log_length[OF assms(1-3)])
  have li: "labels ! i = pad_or_truncate (Len 0) (vls ! i) n" "ms ! i = pad_or_truncate False (vms ! i) n"
    using assms(8,9,13) by (auto simp: collate_values_def)
  note u = unmasked_label[OF assms(5-7)]
  have mi: "real_mask ms ! i = map of_bool (pad_or_truncate False (vms ! i) n)"
    using li(2) assms(8) len by (simp add: real_mask_def)
  have "NaN \<in> set (masked (map fst ?rows ! i) (real_mask ms ! i))"
  proof -
    have "map fst ?rows ! i =
        map (\<lambda>(p, l). regression_loss a p (log1p_label l) l) (zip (map softplus (raw ! i)) (labels ! i))"
      using assms(8,10) len by (simp add: real_mask_def case_prod_unfold)
    moreover have "NaN \<in> set (masked (map (\<lambda>(p, l). regression_loss a p (log1p_label l) l)
        (zip (map softplus (raw ! i)) (labels ! i))) (real_mask ms ! i))"
      using u assms(7,11,12) by (intro prompt_row_NaN[OF assms(1)]) (simp_all add: li(1) mi nth_pad)
    ultimately show ?thesis by simp
  qed
  then have "value_loss a t (map fst ?rows) (real_mask ms) num_items = Inr NaN"
    using assms(4,8,10) len
    by (intro value_loss_NaN[of i]) (simp_all only: length_map length_zip real_mask_def min.idem)
  with rows show ?thesis by (simp add: batch_loss_def)
qed

theorem log_length_loss_undefined_witness:
  "\<exists>preds. batch_loss \<lparr>lenvm_gamma = 1 / 2, lenvm_lam = 1, lenvm_target_type = ''log_length'',
       lenvm_length_activation = ''softplus'', lenvm_length_normalizer = 1, lenvm_huber_loss_delta = 1,
       lenvm_agg_method = ''token-mean'', lenvm_loss_type = ''huber'', lenvm_relative_loss = False\<rparr>
     \<lparr>average_tokens_across_devices = False, world_size = 1, n_gpu = 1, num_processes = 1,
       non_data_parallel_size = None, gradient_accumulation_steps = 1, logging_steps = 1\<rparr>
     [[0, 0, 0, 0]] (real_mask [[False, True, True, True]]) [[Len (- 1), Len 2, Len 1, Len 0]] None = Inr (NaN, preds)"
proof -
  have enc: "encode_example \<lparr>cutoff_len = 8, max_finite_length = 100\<rparr>
     \<lparr>efficient_eos = True, eos_token_id = 2, newline_token_id = 13\<rparr> [5, 6] [21]
   = Inr ([5, 6, 21, 2], [[Len (- 1), Len 2, Len 1, Len 0]] ! 0, [[False, True, True, True]] ! 0)"
    by code_simp
  show ?thesis
    by (rule log_length_loss_undefined[OF _ _ _ _ enc, where n = 4])
      (simp_all add: agg_methods_def collate_values_def pad_or_truncate_def)
qed

section \<open>Packing\<close>

lemma bisect_sorted: "sorted ns \<Longrightarrow> bisect_right ns c = length (filter (\<lambda>x. x \<le> c) ns)"
  unfolding bisect_right_def by (induction ns) (auto simp: filter_empty_conv)

lemma fill_knapsack_index:
  assumes "search_for_fit ns c \<noteq> - 1"
  shows "ns ! nat (search_for_fit ns c) \<le> c"
proof -
  have k: "0 < bisect_right ns c" "nat (search_for_fit ns c) = bisect_right ns c - 1"
    using search_for_fit_nat[OF assms] by simp_all
  then have "nat (search_for_fit ns c) < length (takeWhile (\<lambda>x. x \<le> c) ns)"
    by (simp add: bisect_right_def)
  then show ?thesis using nth_mem[of "nat (search_for_fit ns c)" "takeWhile (\<lambda>x. x \<le> c) ns"]
    by (metis set_takeWhileD takeWhile_nth)
qed

lemma fill_knapsack_spec:
  "fill_knapsack ns c = (ks, rest) \<Longrightarrow>
     sum_list ks \<le> c \<and> mset ks + mset rest = mset ns \<and> (sorted ns \<longrightarrow> sorted rest)
     \<and> (ns \<noteq> [] \<and> hd ns \<le> c \<longrightarrow> ks \<noteq> [])"
proof (induction ns c arbitrary: ks rest rule: fill_knapsack.induct)
  case (1 ns c)
  let ?i = "nat (search_for_fit ns c)"
  show ?case
  proof (cases "search_for_fit ns c = - 1")
    case True
    then have "ks = []" "rest = ns" using "1.prems" by (simp_all add: fill_knapsack.simps[of ns])
    moreover have "\<not> (ns \<noteq> [] \<and> hd ns \<le> c)"
      using True by (cases ns) (auto simp: search_for_fit_def bisect_right_def Let_def split: if_splits)
    ultimately show ?thesis by simp
  next
    case False
    obtain ks' where r: "fill_knapsack (take ?i ns @ drop (Suc ?i) ns) (c - ns ! ?i) = (ks', rest)"
      and ks: "ks = ns ! ?i # ks'"
      using "1.prems" False by (auto simp: fill_knapsack.simps[of ns] Let_def split: prod.splits)
    have i: "?i < length ns" "ns ! ?i \<le> c"
      using search_for_fit_bound[OF False] fill_knapsack_index[OF False] by simp_all
    have ms: "mset (take ?i ns @ drop (Suc ?i) ns) + {#ns ! ?i#} = mset ns"
      using i(1) by (metis add_mset_add_single id_take_nth_drop mset.simps(2) mset_append union_mset_add_mset_right)
    have so: "sorted (take ?i ns @ drop (Suc ?i) ns)" if "sorted ns"
    proof -
      have "sorted (take ?i ns @ ns ! ?i # drop (Suc ?i) ns)"
        using that id_take_nth_drop[OF i(1)] by simp
      then show ?thesis by (auto simp: sorted_append)
    qed
    have IH: "sum_list ks' \<le> c - ns ! ?i" "mset ks' + mset rest = mset (take ?i ns @ drop (Suc ?i) ns)"
      "sorted (take ?i ns @ drop (Suc ?i) ns) \<longrightarrow> sorted rest"
      using "1.IH"[OF refl False r] by simp_all
    show ?thesis using IH i ms so ks by (auto simp: ac_simps)
  qed
qed

lemma pack_loop_terminates:
  assumes "sorted ns" "\<forall>x \<in> set ns. x \<le> c"
  shows "\<exists>kss. pack_loop c ns = Some kss \<and> mset (concat kss) = mset ns
               \<and> (\<forall>ks \<in> set kss. ks \<noteq> [] \<and> sum_list ks \<le> c)"
  using assms
proof (induction "length ns" arbitrary: ns rule: less_induct)
  case less
  show ?case
  proof (cases "ns = []")
    case False
    obtain ks rest where f: "fill_knapsack ns c = (ks, rest)" by (cases "fill_knapsack ns c")
    note sp = fill_knapsack_spec[OF f]
    have ne: "ks \<noteq> []" using sp False less.prems(2) by (cases ns) auto
    have "length ks + length rest = length ns" using sp by (metis size_mset size_union)
    then have "length rest < length ns" using ne by (cases ks) auto
    moreover have "\<forall>x \<in> set rest. x \<le> c"
      using sp less.prems(2) by (metis Un_iff set_mset_mset set_mset_union)
    ultimately obtain kss where k: "pack_loop c rest = Some kss" "mset (concat kss) = mset rest"
      "\<forall>ks \<in> set kss. ks \<noteq> [] \<and> sum_list ks \<le> c"
      using less.hyps sp less.prems(1) by blast
    show ?thesis using k sp ne False by (simp add: pack_loop.simps[of c ns] f)
  qed (simp add: pack_loop.simps)
qed

lemma pack_loop_needs_fit:
  assumes "pack_loop c ns = Some kss"
  shows "sorted ns \<longrightarrow> (\<forall>x \<in> set ns. x \<le> c)"
proof (rule pack_loop.raw_induct[OF _ assms, where P = "\<lambda>c ns kss. sorted ns \<longrightarrow> (\<forall>x \<in> set ns. x \<le> c)"])
  fix f c ns kss
  assume IH: "\<And>c ns kss. f c ns = Some kss \<Longrightarrow> sorted ns \<longrightarrow> (\<forall>x \<in> set ns. x \<le> c)"
    and body: "(if ns = [] then Some []
                else case fill_knapsack ns c of (ks, rest) \<Rightarrow> Option.bind (f c rest) (\<lambda>kss. Some (ks # kss))) = Some kss"
  show "sorted ns \<longrightarrow> (\<forall>x \<in> set ns. x \<le> c)"
  proof (cases "ns = []")
    case False
    obtain ks rest where f: "fill_knapsack ns c = (ks, rest)" by (cases "fill_knapsack ns c")
    note sp = fill_knapsack_spec[OF f]
    obtain ys where "f c rest = Some ys"
      using body False f by (auto simp: bind_eq_Some_conv)
    then have "sorted rest \<longrightarrow> (\<forall>x \<in> set rest. x \<le> c)" by (rule IH)
    moreover have "\<forall>x \<in> set ks. x \<le> c"
    proof
      fix x assume "x \<in> set ks"
      then have "x \<le> sum_list ks" by (intro member_le_sum_list) simp_all
      with sp show "x \<le> c" by simp
    qed
    moreover have "set ns = set ks \<union> set rest" using sp by (metis set_mset_mset set_mset_union)
    ultimately show ?thesis using sp by auto
  qed simp
qed

text \<open>
  C37: Packing returns exactly when every length fits into a knapsack; then every length is
  packed once, no knapsack is empty and none is overfull. (With a length above the capacity
  the loop appends empty knapsacks for ever; the caller drops such examples first.)
\<close>

theorem greedy_knapsack_packs:
  "((\<exists>kss. greedy_knapsack ns c = Some kss) \<longleftrightarrow> (\<forall>x \<in> set ns. x \<le> c))
   \<and> (\<forall>kss. greedy_knapsack ns c = Some kss \<longrightarrow>
        mset (concat kss) = mset ns \<and> (\<forall>ks \<in> set kss. ks \<noteq> [] \<and> sum_list ks \<le> c))"
proof -
  have need: "\<forall>x \<in> set ns. x \<le> c" if "greedy_knapsack ns c = Some kss" for kss
    using pack_loop_needs_fit[of c "sort ns" kss] that by (simp add: greedy_knapsack_def)
  have "\<exists>kss. greedy_knapsack ns c = Some kss \<and> mset (concat kss) = mset ns
          \<and> (\<forall>ks \<in> set kss. ks \<noteq> [] \<and> sum_list ks \<le> c)" if "\<forall>x \<in> set ns. x \<le> c"
    using pack_loop_terminates[of "sort ns" c] that by (simp add: greedy_knapsack_def)
  with need show ?thesis by (metis option.inject)
qed

theorem greedy_knapsack_packs_witness:
  "\<exists>kss. greedy_knapsack [3, 9, 4, 2] 10 = Some kss \<and> mset (concat kss) = mset [3, 9, 4, 2]"
  using greedy_knapsack_packs[of "[3, 9, 4, 2]" 10] by auto

end
