(* ===== verification/LengthDiagProps.thy ===== *)
theory LengthDiagProps
  imports ValueLabelsProps
begin

text \<open>
  The diagnostics of the trainer: every response contributes one position to a per-position
  metric, and the log entries of a training run partition its micro-batches.
\<close>

section \<open>Positions\<close>

definition mask_count :: "real list \<Rightarrow> nat" where
  "mask_count m = length (filter (\<lambda>c. c > 0) m)"

lemma select_rank_count:
  "sum_list (map (\<lambda>t. if mask_rank m t = int r \<and> m ! t > 0 then 1 else 0) [0 ..< length m]) =
   (if r < mask_count m then 1 else 0 :: real)"
proof (induction m rule: rev_induct)
  case (snoc c m)
  have old: "map (\<lambda>t. if mask_rank (m @ [c]) t = int r \<and> (m @ [c]) ! t > 0 then 1 else 0 :: real) [0 ..< length m] =
      map (\<lambda>t. if mask_rank m t = int r \<and> m ! t > 0 then 1 else 0) [0 ..< length m]"
    by (rule map_cong) (auto simp: mask_rank_def nth_append)
  have new: "mask_rank (m @ [c]) (length m) = int (mask_count m)" if "c > 0"
    using that by (simp add: mask_rank_def mask_count_def)
  show ?case using snoc by (auto simp: old new mask_count_def)
qed (simp add: mask_count_def)

lemma pos_rank_range:
  assumes "0 \<le> pos" "pos \<le> 1" "0 < mask_count m"
  shows "\<exists>r. pos_rank m pos = int r \<and> r < mask_count m"
proof -
  let ?c = "real_of_int (max (int (mask_count m) - 1) 0)"
  have c: "?c = real (mask_count m) - 1" using assms(3) by (simp add: max_def)
  have "0 \<le> ?c * pos" "?c * pos \<le> ?c" using assms by (simp_all add: mult_left_le)
  then have "0 \<le> pos_rank m pos" "pos_rank m pos < int (mask_count m)"
    using c unfolding pos_rank_def mask_count_def[symmetric] by linarith+
  then show ?thesis by (metis nat_0_le nat_less_iff)
qed

text \<open>
  For a fraction between zero and one, every row with a masked position contributes
  exactly one position to the metric of that fraction, and every other row none; the metric's
  count is the number of such rows.
\<close>

theorem pos_select_one_per_row:
  assumes "0 \<le> pos" "pos \<le> 1"
  shows "sum_list (concat (map (\<lambda>m. pos_select m pos) ms)) = real (length (filter (\<lambda>m. \<exists>c \<in> set m. c > 0) ms))"
proof -
  have "sum_list (pos_select m pos) = (if \<exists>c \<in> set m. c > 0 then 1 else 0)" for m
  proof (cases "0 < mask_count m")
    case True
    then obtain r where "pos_rank m pos = int r" "r < mask_count m"
      using pos_rank_range[OF assms] by blast
    then show ?thesis using select_rank_count[of m r] True
      by (auto simp: pos_select_def mask_count_def filter_empty_conv)
  next
    case False
    then have none: "\<not> (\<exists>c \<in> set m. c > 0)" by (auto simp: mask_count_def filter_empty_conv)
    then have "map (\<lambda>t. if mask_rank m t = pos_rank m pos \<and> m ! t > 0 then 1 else 0 :: real) [0 ..< length m]
        = map (\<lambda>t. 0) [0 ..< length m]"
      by (intro map_cong) (auto dest: nth_mem)
    then have "pos_select m pos = map (\<lambda>t. 0) [0 ..< length m]" unfolding pos_select_def .
    then show ?thesis using none by simp
  qed
  then show ?thesis by (induction ms) simp_all
qed

theorem pos_select_one_per_row_witness:
  "sum_list (concat (map (\<lambda>m. pos_select m (1 / 2)) [[0, 1, 1, 1], [0, 0, 0, 0]])) = 1"
  using pos_select_one_per_row[of "1 / 2" "[[0, 1, 1, 1], [0, 0, 0, 0]]"] by simp

section \<open>Log entries of a training run\<close>

text \<open>
  A training run: micro-batch \<open>i\<close> is seen when \<open>i div g\<close> optimizer steps are done, where \<open>g\<close> is
  the number of accumulation steps.
\<close>

definition ga_steps :: "train_args \<Rightarrow> nat" where
  "ga_steps t = max 1 (gradient_accumulation_steps t)"

definition train_run :: "process_env \<Rightarrow> train_args \<Rightarrow> diag_sums list \<Rightarrow> trainer_state \<Rightarrow> trainer_state" where
  "train_run e t xs st = foldl (\<lambda>s (i, x). train_diag e t (i div ga_steps t) x s) st (enumerate 0 xs)"

definition block_sums :: "process_env \<Rightarrow> diag_sums list \<Rightarrow> diag_sums" where
  "block_sums e xs = foldl accumulate (zero_sums (map snd (fracs e))) xs"

lemma log_point:
  assumes "0 < g"
  shows "Suc i mod g = 0 \<and> Suc (i div g) mod l = 0 \<longleftrightarrow> Suc i mod (l * g) = 0"
proof -
  have "Suc i mod (l * g) = g * (Suc i div g mod l) + Suc i mod g"
    using mod_mult2_eq[of "Suc i" g l] by (simp add: mult.commute)
  then show ?thesis using assms by (auto simp: div_Suc)
qed

lemma train_run_snoc:
  "train_run e t (xs @ [x]) st = train_diag e t (length xs div ga_steps t) x (train_run e t xs st)"
  by (simp add: train_run_def enumerate_append_eq)

lemma train_diag_fields:
  assumes "is_main_process e" "0 < logging_steps t"
  defines "hit \<equiv> \<lambda>st gs. Suc (ga_step st) mod ga_steps t = 0 \<and> Suc gs mod logging_steps t = 0"
  shows "ga_step (train_diag e t gs x st) = Suc (ga_step st) mod ga_steps t"
    and "ga_sums (train_diag e t gs x st) =
           (if hit st gs then block_sums e [] else accumulate (ga_sums st) x)"
    and "logged (train_diag e t gs x st) =
           logged st @ (if hit st gs then [log_payload (reduce e) [] (accumulate (ga_sums st) x)] else [])"
  using assms(1,2) by (simp_all add: hit_def train_diag_def trainer_log_def ga_steps_def block_sums_def Let_def)

lemma train_run_state:
  fixes e t xs
  defines "b \<equiv> logging_steps t * ga_steps t"
  assumes "0 < logging_steps t" "is_main_process e"
  shows "ga_step (train_run e t xs (init_state e)) = length xs mod ga_steps t
    \<and> ga_sums (train_run e t xs (init_state e)) = block_sums e (drop (length xs div b * b) xs)
    \<and> logged (train_run e t xs (init_state e)) =
        map (\<lambda>j. log_payload (reduce e) [] (block_sums e (take b (drop (j * b) xs)))) [0 ..< length xs div b]"
proof (induction xs rule: rev_induct)
  case Nil
  show ?case by (simp add: train_run_def init_state_def block_sums_def)
next
  case (snoc x xs)
  let ?st = "train_run e t xs (init_state e)"
  have g: "0 < ga_steps t" by (simp add: ga_steps_def)
  have b: "0 < b" using assms(2) g by (simp add: b_def)
  have le: "length xs div b * b \<le> length xs" by simp
  have acc: "accumulate (ga_sums ?st) x = block_sums e (drop (length xs div b * b) (xs @ [x]))"
    using snoc le by (simp add: block_sums_def)
  have old: "map (\<lambda>j. log_payload (reduce e) [] (block_sums e (take b (drop (j * b) (xs @ [x]))))) [0 ..< length xs div b] =
      map (\<lambda>j. log_payload (reduce e) [] (block_sums e (take b (drop (j * b) xs)))) [0 ..< length xs div b]"
  proof (rule map_cong)
    fix j assume "j \<in> set [0 ..< length xs div b]"
    then have "(j + 1) * b \<le> length xs div b * b" by (intro mult_right_mono) simp_all
    from order_trans[OF this le] have "j * b + b \<le> length xs" by (simp add: add.commute)
    then show "log_payload (reduce e) [] (block_sums e (take b (drop (j * b) (xs @ [x])))) =
        log_payload (reduce e) [] (block_sums e (take b (drop (j * b) xs)))"
      by simp
  qed simp
  note fields = train_diag_fields[OF assms(3,2), of "length xs div ga_steps t" x ?st, folded train_run_snoc]
  have hit: "Suc (ga_step ?st) mod ga_steps t = 0 \<and> Suc (length xs div ga_steps t) mod logging_steps t = 0
      \<longleftrightarrow> Suc (length xs) mod b = 0"
    using snoc log_point[OF g, of "length xs" "logging_steps t", folded b_def] by (simp add: mod_Suc_eq)
  have step: "ga_step (train_run e t (xs @ [x]) (init_state e)) = length (xs @ [x]) mod ga_steps t"
    using snoc fields(1) by (simp add: mod_Suc_eq)
  show ?case
  proof (cases "Suc (length xs) mod b = 0")
    case True
    then have d: "Suc (length xs) div b = Suc (length xs div b)" by (simp add: div_Suc)
    have n: "Suc (length xs) = Suc (length xs div b) * b" using True d by (metis div_mult_mod_eq add.right_neutral)
    have "Suc (length xs) - length xs div b * b = b" unfolding n by simp
    then have last_block: "take b (drop (length xs div b * b) (xs @ [x])) = drop (length xs div b * b) (xs @ [x])"
      by (intro take_all) (simp only: length_drop length_append_singleton order_refl)
    have "drop (Suc (length xs div b) * b) (xs @ [x]) = []" by (intro drop_all) (simp only: n[symmetric], simp)
    then have "ga_sums (train_run e t (xs @ [x]) (init_state e)) = block_sums e (drop (length (xs @ [x]) div b * b) (xs @ [x]))"
      using fields(2) hit True d by (simp only: length_append_singleton if_True simp_thms)
    moreover have "logged (train_run e t (xs @ [x]) (init_state e)) =
        map (\<lambda>j. log_payload (reduce e) [] (block_sums e (take b (drop (j * b) (xs @ [x]))))) [0 ..< length (xs @ [x]) div b]"
      using fields(3) hit True snoc acc
      by (simp only: length_append_singleton d upt_Suc_append map_append old if_True list.map last_block zero_le simp_thms)
    ultimately show ?thesis using step by blast
  next
    case False
    then have d: "Suc (length xs) div b = length xs div b" by (simp add: div_Suc)
    show ?thesis using fields(2,3) hit False snoc acc step old d
      by (simp only: length_append_singleton if_False append_Nil2 simp_thms)
  qed
qed



end
