(* ===== verification/RadixTree.thy ===== *)
theory RadixTree
  imports SlotPool "HOL-Library.AList"
begin

text \<open>
  The radix tree of \<open>mem_cache/radix_cache.py\<close>: keys, nodes, matching with splitting, insertion,
  reference locks, leaves, deletion and the eviction policies. A node object is a value with
  its number as identity; the link to the parent is the position in the tree. Every call of
  \<open>time.monotonic\<close> takes the next value of a clock, which is a parameter, and every new node the
  next value of the class counter. The hashes of blocks and the event queue are off.
\<close>

section \<open>Keys\<close>

text \<open>A token id, or a pair of neighbouring ones (for speculative decoding).\<close>

datatype tok = Tok int | Bigram tok tok

record radix_key =
  token_ids :: "tok list"
  extra_key :: "string option"
  is_bigram :: bool

text \<open>\<open>key[i:]\<close> and \<open>key[:i]\<close>; slices are not marked as bigram keys.\<close>

definition key_drop :: "nat \<Rightarrow> radix_key \<Rightarrow> radix_key" where
  "key_drop i k = \<lparr>token_ids = drop i (token_ids k), extra_key = extra_key k, is_bigram = False\<rparr>"

definition key_take :: "nat \<Rightarrow> radix_key \<Rightarrow> radix_key" where
  "key_take i k = \<lparr>token_ids = take i (token_ids k), extra_key = extra_key k, is_bigram = False\<rparr>"

definition key_len :: "radix_key \<Rightarrow> nat" where
  "key_len k = length (token_ids k)"

definition convert_to_bigram_key :: "tok list \<Rightarrow> tok list" where
  "convert_to_bigram_key tokens =
     (case tokens of
        Bigram _ _ # _ \<Rightarrow> tokens
      | _ \<Rightarrow> if length tokens < 2 then [] else map2 Bigram (butlast tokens) (tl tokens))"

fun match_page_size1 :: "'a list \<Rightarrow> 'a list \<Rightarrow> nat" where
  "match_page_size1 (x # xs) (y # ys) = (if x \<noteq> y then 0 else Suc (match_page_size1 xs ys))"
| "match_page_size1 _ _ = 0"

text \<open>The loop over pages, for a positive page size.\<close>

function match_paged :: "nat \<Rightarrow> 'a list \<Rightarrow> 'a list \<Rightarrow> nat \<Rightarrow> nat" where
  "match_paged P xs ys i =
     (if P = 0 \<or> i \<ge> min (length xs) (length ys) then i
      else if take P (drop i xs) \<noteq> take P (drop i ys) then i
      else match_paged P xs ys (i + P))"
  by pat_completeness auto

termination match_paged
  by (relation "measure (\<lambda>(P, xs, ys, i). min (length xs) (length ys) - i)") auto

declare match_paged.simps [simp del]

definition match_tokens :: "nat \<Rightarrow> 'a list \<Rightarrow> 'a list \<Rightarrow> nat" where
  "match_tokens P xs ys = (if P = 1 then match_page_size1 xs ys else match_paged P xs ys 0)"

definition key_match :: "nat \<Rightarrow> radix_key \<Rightarrow> radix_key \<Rightarrow> nat res" where
  "key_match P k0 k1 =
     (if extra_key k0 \<noteq> extra_key k1 then Inl ValueError
      else Inr (match_tokens P (token_ids k0) (token_ids k1)))"

text \<open>The dictionary key of a child, only asked for keys that are not empty.\<close>

type_synonym child_key = "string option \<times> tok list"

definition get_child_key :: "nat \<Rightarrow> radix_key \<Rightarrow> child_key" where
  "get_child_key P k = (extra_key k, take P (token_ids k))"

section \<open>Nodes\<close>

record node_info =
  node_id :: nat
  nkey :: radix_key
  nvalue :: "int list"
  lock_ref :: int
  last_access_time :: real
  creation_time :: real
  hit_count :: int
  priority :: int

datatype rnode = RNode (info: node_info) (kids: "(child_key \<times> rnode) list")

text \<open>What a call creates nodes from: the clock, the clock readings and the nodes made before it.\<close>

record maker =
  clock :: "nat \<Rightarrow> real"
  readings :: nat
  counter :: nat

text \<open>\<open>TreeNode(priority)\<close>, the \<open>k\<close>-th node a call makes after its reading of the access time.\<close>

definition new_info :: "maker \<Rightarrow> nat \<Rightarrow> int \<Rightarrow> radix_key \<Rightarrow> int list \<Rightarrow> int \<Rightarrow> node_info" where
  "new_info mk k prio key val lock =
     \<lparr>node_id = counter mk + k, nkey = key, nvalue = val, lock_ref = lock,
      last_access_time = clock mk (readings mk + 1 + 2 * k), creation_time = clock mk (readings mk + 2 + 2 * k),
      hit_count = 0, priority = prio\<rparr>"

text \<open>\<open>_split_node\<close>: a new parent with the first part of the key, which the shortened child hangs below.\<close>

definition split_node :: "nat \<Rightarrow> maker \<Rightarrow> rnode \<Rightarrow> nat \<Rightarrow> rnode" where
  "split_node P mk child split_len =
     (let c = info child; key = nkey c
      in RNode (new_info mk 0 (priority c) (key_take split_len key) (take split_len (nvalue c)) (lock_ref c))
           [(get_child_key P (key_drop split_len key),
             RNode (c\<lparr>nkey := key_drop split_len key, nvalue := drop split_len (nvalue c)\<rparr>) (kids child))])"

definition touch :: "real \<Rightarrow> rnode \<Rightarrow> rnode" where
  "touch t n = RNode ((info n)\<lparr>last_access_time := t\<rparr>) (kids n)"

definition raise_priority :: "int \<Rightarrow> rnode \<Rightarrow> rnode" where
  "raise_priority p n = RNode ((info n)\<lparr>priority := max (priority (info n)) p\<rparr>) (kids n)"

lemma size_child: "map_of ks ck = Some c \<Longrightarrow> size c < Suc (size_list (size_prod (\<lambda>_. 0) size) ks)"
  by (induction ks) (auto split: if_splits)

section \<open>Matching\<close>

text \<open>
  The loop of \<open>_match_prefix_helper\<close> from a node on: the matched slots and the number of the last
  node, whether a node was split, and the changed node. The loop leaves after a split.
\<close>

function match_prefix_helper ::
  "nat \<Rightarrow> maker \<Rightarrow> rnode \<Rightarrow> radix_key \<Rightarrow> (int list \<times> nat \<times> bool) res \<times> rnode"
where
  "match_prefix_helper P mk n key =
     (if key_len key = 0 then (Inr ([], node_id (info n), False), n)
      else
        (case map_of (kids n) (get_child_key P key) of
           None \<Rightarrow> (Inr ([], node_id (info n), False), n)
         | Some child \<Rightarrow>
             (let child' = touch (clock mk (readings mk)) child;
                  put = (\<lambda>c. RNode (info n) (AList.update (get_child_key P key) c (kids n)))
              in case key_match P (nkey (info child)) key of
                   Inl e \<Rightarrow> (Inl e, put child')
                 | Inr prefix_len \<Rightarrow>
                     if prefix_len < key_len (nkey (info child))
                     then
                       (let new_node = split_node P mk child' prefix_len
                        in (Inr (nvalue (info new_node), node_id (info new_node), True),
                            RNode (info n) (AList.update (get_child_key P (nkey (info child))) new_node
                                              (kids (put child')))))
                     else
                       (case match_prefix_helper P mk child (key_drop prefix_len key) of
                          (Inl e, c) \<Rightarrow> (Inl e, put (touch (clock mk (readings mk)) c))
                        | (Inr (vs, l, s), c) \<Rightarrow>
                            (Inr (nvalue (info child) @ vs, l, s), put (touch (clock mk (readings mk)) c))))))"
  by pat_completeness auto

termination match_prefix_helper
proof (relation "measure (\<lambda>(P, mk, n, key). size n)", goal_cases)
  case (2 P mk n key c x xa y)
  then show ?case using size_child[of "kids n" "get_child_key P key" c] by (cases n) auto
qed simp

declare match_prefix_helper.simps [simp del]

section \<open>Insertion\<close>

text \<open>The new leaf at the end of \<open>_insert_helper\<close>, the \<open>k\<close>-th node of the call.\<close>

definition attach_leaf :: "nat \<Rightarrow> maker \<Rightarrow> nat \<Rightarrow> int \<Rightarrow> radix_key \<Rightarrow> int list \<Rightarrow> rnode \<Rightarrow> rnode" where
  "attach_leaf P mk k prio key val n =
     (if key_len key = 0 then n
      else RNode (info n) (AList.update (get_child_key P key) (RNode (new_info mk k prio key val 0) []) (kids n)))"

text \<open>
  The loop of \<open>_insert_helper\<close> from a node on: the matched length, the length of the key of the
  new leaf, the number of new nodes, and the changed node. After a split the rest of the key,
  if any, differs from the key of the only child of the new node, so the loop ends there.
\<close>

function insert_helper ::
  "nat \<Rightarrow> maker \<Rightarrow> int \<Rightarrow> rnode \<Rightarrow> radix_key \<Rightarrow> int list \<Rightarrow> (nat \<times> nat \<times> nat) res \<times> rnode"
where
  "insert_helper P mk prio n key val =
     (if key_len key = 0 then (Inr (0, 0, 0), n)
      else
        (case map_of (kids n) (get_child_key P key) of
           None \<Rightarrow> (Inr (0, key_len key, 1), attach_leaf P mk 0 prio key val n)
         | Some child \<Rightarrow>
             (let child' = touch (clock mk (readings mk)) child;
                  put = (\<lambda>c. RNode (info n) (AList.update (get_child_key P key) c (kids n)))
              in case key_match P (nkey (info child)) key of
                   Inl e \<Rightarrow> (Inl e, put child')
                 | Inr prefix_len \<Rightarrow>
                     (let key' = key_drop prefix_len key; val' = drop prefix_len val
                      in if prefix_len < key_len (nkey (info child))
                         then
                           (let new_node = raise_priority prio (split_node P mk child' prefix_len)
                            in (Inr (prefix_len, key_len key', if key_len key' = 0 then 1 else 2),
                                RNode (info n) (AList.update (get_child_key P (nkey (info child)))
                                   (attach_leaf P mk 1 prio key' val' new_node) (kids (put child')))))
                         else
                           (case insert_helper P mk prio child key' val' of
                              (Inl e, c) \<Rightarrow> (Inl e, put (raise_priority prio (touch (clock mk (readings mk)) c)))
                            | (Inr (q, l, m), c) \<Rightarrow>
                                (Inr (prefix_len + q, l, m),
                                 put (raise_priority prio (touch (clock mk (readings mk)) c))))))))"
  by pat_completeness auto

termination insert_helper
proof (relation "measure (\<lambda>(P, mk, prio, n, key, val). size n)", goal_cases)
  case (2 P mk prio n key val c)
  then show ?case using size_child[of "kids n" "get_child_key P key" c] by (cases n) auto
qed simp

declare insert_helper.simps [simp del]

section \<open>Traversals\<close>

text \<open>The nodes of a tree, the root first.\<close>

fun nodes :: "rnode \<Rightarrow> rnode list" where
  "nodes (RNode i ks) = RNode i ks # concat (map (\<lambda>(ck, c). nodes c) ks)"

definition tree_ids :: "rnode \<Rightarrow> nat list" where
  "tree_ids n = map (node_id \<circ> info) (nodes n)"

definition tree_slots :: "rnode \<Rightarrow> int list" where
  "tree_slots n = concat (map (nvalue \<circ> info) (tl (nodes n)))"

text \<open>\<open>torch.cat\<close> raises on an empty list.\<close>

definition all_values_flatten :: "rnode \<Rightarrow> int list res" where
  "all_values_flatten n = (if kids n = [] then Inl RuntimeError else Inr (tree_slots n))"

definition total_size :: "rnode \<Rightarrow> nat" where
  "total_size n = sum_list (map (length \<circ> nvalue \<circ> info) (nodes n))"

text \<open>
  \<open>_collect_leaves\<close>: the stack holds the children of the nodes seen, the last is taken first; the
  fuel is the number of nodes.
\<close>

fun collect_loop :: "nat \<Rightarrow> rnode list \<Rightarrow> rnode list" where
  "collect_loop 0 stack = []"
| "collect_loop (Suc fuel) stack =
     (if stack = [] then []
      else
        (let cur = last stack; rest = butlast stack
         in if kids cur = []
            then (if lock_ref (info cur) = 0 then cur # collect_loop fuel rest else collect_loop fuel rest)
            else collect_loop fuel (rest @ map snd (kids cur))))"

definition collect_leaves :: "rnode \<Rightarrow> rnode list" where
  "collect_leaves n = collect_loop (length (nodes n)) (map snd (kids n))"

section \<open>Locks\<close>

text \<open>
  The walk from a node to the root: every node above or at the given one, the root excepted,
  changes its counter by \<open>d\<close>. The second result is the number of tokens in nodes whose counter was
  \<open>limit\<close> before.
\<close>

fun lock_path :: "nat \<Rightarrow> int \<Rightarrow> int \<Rightarrow> rnode \<Rightarrow> rnode \<times> nat" where
  "lock_path target d limit (RNode i ks) =
     (let rs = map (\<lambda>(ck, c). (ck, c, lock_path target d limit c)) ks
      in (RNode i (map (\<lambda>(ck, c, c', s).
            (ck, if target \<in> set (tree_ids c)
                 then RNode ((info c')\<lparr>lock_ref := lock_ref (info c') + d\<rparr>) (kids c') else c)) rs),
          sum_list (map (\<lambda>(ck, c, c', s).
            if target \<in> set (tree_ids c)
            then s + (if lock_ref (info c) = limit then key_len (nkey (info c)) else 0) else 0) rs)))"

section \<open>Deletion of a leaf\<close>

definition find_node :: "nat \<Rightarrow> rnode \<Rightarrow> rnode option" where
  "find_node target n = List.find (\<lambda>m. node_id (info m) = target) (nodes n)"

definition parent_of :: "nat \<Rightarrow> rnode \<Rightarrow> rnode option" where
  "parent_of target n = List.find (\<lambda>m. target \<in> set (map (node_id \<circ> info \<circ> snd) (kids m))) (nodes n)"

text \<open>\<open>children.pop(ck, None)\<close> at the node with the given number.\<close>

fun pop_child :: "nat \<Rightarrow> child_key \<Rightarrow> rnode \<Rightarrow> rnode" where
  "pop_child pid ck (RNode i ks) =
     RNode i (if node_id i = pid then AList.delete ck ks else map (\<lambda>(k, c). (k, pop_child pid ck c)) ks)"

text \<open>\<open>_delete_leaf\<close> on the tree; a node outside the tree has no parent.\<close>

definition delete_leaf :: "nat \<Rightarrow> nat \<Rightarrow> (rnode, unit) run" where
  "delete_leaf P target base =
     (case (find_node target base, parent_of target base) of
        (Some x, Some p) \<Rightarrow>
          (let ck = get_child_key P (nkey (info x));
               base' = pop_child (node_id (info p)) ck base
           in case map_of (kids p) ck of
                Some v \<Rightarrow> if node_id (info v) = target then (Inr (), base') else (Inl AssertionError, base')
              | None \<Rightarrow> (Inl AssertionError, base'))
      | _ \<Rightarrow> (Inl AttributeError, base))"

section \<open>Eviction policies\<close>

datatype policy = LRU | LFU | FIFO | MRU | FILO | Priority

text \<open>A number or a pair, compared as Python compares them; a single number is a pair with a zero.\<close>

definition get_priority :: "policy \<Rightarrow> node_info \<Rightarrow> real \<times> real" where
  "get_priority p i =
     (case p of
        LRU \<Rightarrow> (last_access_time i, 0)
      | LFU \<Rightarrow> (of_int (hit_count i), last_access_time i)
      | FIFO \<Rightarrow> (creation_time i, 0)
      | MRU \<Rightarrow> (- last_access_time i, 0)
      | FILO \<Rightarrow> (- creation_time i, 0)
      | Priority \<Rightarrow> (of_int (priority i), last_access_time i))"

end
