(* ===== verification/RadixCache.thy ===== *)
theory RadixCache
  imports RadixTree
begin

text \<open>
  The prefix cache of \<open>mem_cache/radix_cache.py\<close> around the radix tree: matching, insertion,
  locks, eviction, and what happens to the slots of a request when it finishes or is put back.
  The state is the tree with its two sizes, the slot allocator and the request pool. The
  configuration holds the page size, the switches, the eviction policy, the clock, and the
  index that the heap gives out (\<open>heapq\<close> orders equal entries by their place in the heap).
\<close>

record radix_config =
  c_page_size :: nat
  c_disable :: bool
  c_is_eagle :: bool
  c_disable_finished_insert :: bool
  c_policy :: policy
  c_clock :: "nat \<Rightarrow> real"
  c_pick :: "((real \<times> real) \<times> real \<times> nat) list \<Rightarrow> nat"

record radix =
  root_node :: rnode
  evictable_size :: int
  protected_size :: int
  r_readings :: nat
  r_counter :: nat
  r_alloc :: kv_alloc
  r_rows :: req_pool

definition node_maker :: "radix_config \<Rightarrow> radix \<Rightarrow> maker" where
  "node_maker cfg s = \<lparr>clock = c_clock cfg, readings = r_readings s, counter = r_counter s\<rparr>"

definition reset :: "radix_config \<Rightarrow> radix \<Rightarrow> radix" where
  "reset cfg s =
     s\<lparr>root_node := RNode \<lparr>node_id = r_counter s, nkey = \<lparr>token_ids = [], extra_key = None, is_bigram = False\<rparr>,
                          nvalue = [], lock_ref = 1, last_access_time = c_clock cfg (r_readings s),
                          creation_time = c_clock cfg (r_readings s + 1), hit_count = 0,
                          priority = - (2 ^ 63 - 1)\<rparr> [],
       evictable_size := 0, protected_size := 0,
       r_readings := r_readings s + 2, r_counter := r_counter s + 1\<rparr>"

definition maybe_bigram_convert :: "radix_config \<Rightarrow> radix_key \<Rightarrow> int list \<Rightarrow> radix_key \<times> int list" where
  "maybe_bigram_convert cfg key val =
     (if c_is_eagle cfg \<and> \<not> is_bigram key
      then (let ts = convert_to_bigram_key (token_ids key)
            in (key\<lparr>token_ids := ts\<rparr>, take (length ts) val))
      else (key, val))"

definition page_align :: "nat \<Rightarrow> 'a list \<Rightarrow> 'a list" where
  "page_align P xs = (if P = 1 then xs else take (length xs div P * P) xs)"

section \<open>Matching and insertion\<close>

definition match_prefix :: "radix_config \<Rightarrow> radix_key \<Rightarrow> (radix, int list \<times> nat) run" where
  "match_prefix cfg key0 s =
     (let key1 = fst (maybe_bigram_convert cfg key0 []);
          key = (if c_page_size cfg \<noteq> 1
                 then key_take (key_len key1 div c_page_size cfg * c_page_size cfg) key1 else key1)
      in if c_disable cfg \<or> key_len key1 = 0 \<or> key_len key = 0
         then (Inr ([], node_id (info (root_node s))), s)
         else
           (let mk = node_maker cfg s;
                base = touch (c_clock cfg (r_readings s)) (root_node s)
            in case match_prefix_helper (c_page_size cfg) mk base key of
                 (Inl e, base') \<Rightarrow> (Inl e, s\<lparr>root_node := base', r_readings := r_readings s + 1\<rparr>)
               | (Inr (vs, l, split), base') \<Rightarrow>
                   (Inr (vs, l),
                    s\<lparr>root_node := base',
                      r_readings := r_readings s + (if split then 3 else 1),
                      r_counter := r_counter s + (if split then 1 else 0)\<rparr>)))"

text \<open>\<open>insert\<close>, with the slots given; the result is the length of the prefix that was there.\<close>

definition radix_insert :: "radix_config \<Rightarrow> radix_key \<Rightarrow> int list \<Rightarrow> int \<Rightarrow> (radix, nat) run" where
  "radix_insert cfg key0 val0 prio s =
     (if c_disable cfg then (Inr 0, s)
      else
        (case maybe_bigram_convert cfg key0 val0 of
           (key, val) \<Rightarrow>
             (let mk = node_maker cfg s;
                  base = raise_priority prio (touch (c_clock cfg (r_readings s)) (root_node s))
              in case insert_helper (c_page_size cfg) mk prio base key val of
                   (Inl e, base') \<Rightarrow> (Inl e, s\<lparr>root_node := base', r_readings := r_readings s + 1\<rparr>)
                 | (Inr (n, l, m), base') \<Rightarrow>
                     (Inr n, s\<lparr>root_node := base', evictable_size := evictable_size s + int l,
                               r_readings := r_readings s + 1 + 2 * m, r_counter := r_counter s + m\<rparr>))))"

section \<open>Locks\<close>

text \<open>
  The walks of \<open>inc_lock_ref\<close> and \<open>dec_lock_ref\<close>, for a node of the tree. A node outside of it (one
  that was deleted, or one of an earlier tree) has no place in this state; the model raises there.
\<close>

definition inc_lock_ref :: "radix_config \<Rightarrow> nat \<Rightarrow> (radix, int) run" where
  "inc_lock_ref cfg node s =
     (if c_disable cfg then (Inr 0, s)
      else if node \<notin> set (tree_ids (root_node s)) then (Inl AttributeError, s)
      else
        (case lock_path node 1 0 (root_node s) of
           (base', d) \<Rightarrow>
             (Inr (- int d),
              s\<lparr>root_node := base', evictable_size := evictable_size s - int d,
                protected_size := protected_size s + int d\<rparr>)))"

definition dec_lock_ref :: "radix_config \<Rightarrow> nat \<Rightarrow> (radix, int) run" where
  "dec_lock_ref cfg node s =
     (if c_disable cfg then (Inr 0, s)
      else if node \<notin> set (tree_ids (root_node s)) then (Inl AssertionError, s)
      else
        (case lock_path node (- 1) 1 (root_node s) of
           (base', d) \<Rightarrow>
             (Inr (int d),
              s\<lparr>root_node := base', evictable_size := evictable_size s + int d,
                protected_size := protected_size s - int d\<rparr>)))"

section \<open>Eviction\<close>

definition radix_free :: "int list \<Rightarrow> (radix, unit) run" where
  "radix_free xs s =
     (if page_size (r_alloc s) = 1 then (Inr (), s\<lparr>r_alloc := tok_free (r_alloc s) xs\<rparr>)
      else (case paged_free xs (r_alloc s) of (r, a) \<Rightarrow> (r, s\<lparr>r_alloc := a\<rparr>)))"

definition heap_entry :: "radix_config \<Rightarrow> rnode \<Rightarrow> (real \<times> real) \<times> real \<times> nat" where
  "heap_entry cfg n = (get_priority (c_policy cfg) (info n), last_access_time (info n), node_id (info n))"

text \<open>The loop of \<open>evict\<close>; \<open>None\<close> is a loop that did not end within the fuel.\<close>

fun evict_loop ::
  "radix_config \<Rightarrow> nat \<Rightarrow> nat \<Rightarrow> ((real \<times> real) \<times> real \<times> nat) list \<Rightarrow> nat \<Rightarrow> radix \<Rightarrow> (nat res \<times> radix) option"
where
  "evict_loop cfg 0 num_tokens heap num_evicted s = None"
| "evict_loop cfg (Suc fuel) num_tokens heap num_evicted s =
     (if num_evicted \<ge> num_tokens \<or> heap = [] then Some (Inr num_evicted, s)
      else
        (let i = c_pick cfg heap; x = snd (snd (heap ! i)); rest = take i heap @ drop (Suc i) heap
         in case (find_node x (root_node s), parent_of x (root_node s)) of
              (Some nx, Some p) \<Rightarrow>
                (case radix_free (nvalue (info nx)) s of
                   (Inl e, s1) \<Rightarrow> Some (Inl e, s1)
                 | (Inr _, s1) \<Rightarrow>
                     (case delete_leaf (c_page_size cfg) x (root_node s1) of
                        (Inl e, r) \<Rightarrow> Some (Inl e, s1\<lparr>root_node := r\<rparr>)
                      | (Inr _, r) \<Rightarrow>
                          (let s2 = s1\<lparr>root_node := r,
                                       evictable_size := evictable_size s1 - int (key_len (nkey (info nx)))\<rparr>
                           in case find_node (node_id (info p)) r of
                                None \<Rightarrow> Some (Inl AttributeError, s2)
                              | Some p' \<Rightarrow>
                                  evict_loop cfg fuel num_tokens
                                    (if kids p' = [] \<and> lock_ref (info p') = 0 then rest @ [heap_entry cfg p'] else rest)
                                    (num_evicted + length (nvalue (info nx))) s2)))
            | _ \<Rightarrow> Some (Inl AttributeError, s)))"

definition evict :: "radix_config \<Rightarrow> nat \<Rightarrow> radix \<Rightarrow> (nat res \<times> radix) option" where
  "evict cfg num_tokens s =
     (if c_disable cfg then Some (Inr 0, s)
      else evict_loop cfg (length (nodes (root_node s)) + 1) num_tokens
             (map (heap_entry cfg) (collect_leaves (root_node s))) 0 s)"

section \<open>Requests\<close>

record radix_req =
  req_pool_idx :: nat
  origin_input_ids :: "tok list"
  output_ids :: "tok list"
  fill_ids :: "tok list"
  rq_extra_key :: "string option"
  last_node :: nat
  cache_protected_len :: nat
  prefix_indices :: "int list"
  rq_priority :: int
  kv_committed_len :: nat
  kv_committed_freed :: bool

definition request_row :: "nat \<Rightarrow> nat \<Rightarrow> radix \<Rightarrow> int list res" where
  "request_row idx n s =
     (if idx < length (req_to_token (r_rows s)) then Inr (take n (req_to_token (r_rows s) ! idx)) else Inl IndexError)"

text \<open>The keys under which the first \<open>n\<close> tokens of a request are cached (all of them without a limit).\<close>

definition request_keys :: "radix_config \<Rightarrow> radix_req \<Rightarrow> nat option \<Rightarrow> tok list" where
  "request_keys cfg rq limit =
     (let ks = (if c_is_eagle cfg then convert_to_bigram_key (fill_ids rq) else fill_ids rq)
      in page_align (c_page_size cfg) (case limit of None \<Rightarrow> ks | Some n \<Rightarrow> take n ks))"

definition request_key :: "radix_config \<Rightarrow> radix_req \<Rightarrow> tok list \<Rightarrow> radix_key" where
  "request_key cfg rq keys = \<lparr>token_ids = keys, extra_key = rq_extra_key rq, is_bigram = c_is_eagle cfg\<rparr>"

text \<open>\<open>pop_committed_kv_cache\<close>.\<close>

definition pop_committed :: "radix_req \<Rightarrow> (nat \<times> radix_req) res" where
  "pop_committed rq =
     (if kv_committed_freed rq then Inl AssertionError
      else Inr (kv_committed_len rq, rq\<lparr>kv_committed_freed := True\<rparr>))"

definition cache_finished_req ::
  "radix_config \<Rightarrow> bool \<Rightarrow> int option \<Rightarrow> radix_req \<Rightarrow> (radix, radix_req) run"
where
  "cache_finished_req cfg is_insert0 insert_len rq0 s =
     (case pop_committed rq0 of
        Inl e \<Rightarrow> (Inl e, s)
      | Inr (committed, rq) \<Rightarrow>
          if c_disable cfg
          then
            (case request_row (req_pool_idx rq) committed s of
               Inl e \<Rightarrow> (Inl e, s)
             | Inr kv_indices \<Rightarrow>
                 andthen (radix_free kv_indices) (\<lambda>_ s'.
                   (Inr rq, s'\<lparr>r_rows := rp_free_one (r_rows s') (req_pool_idx rq)\<rparr>)) s)
          else
            (let ids = take committed (origin_input_ids rq @ output_ids rq);
                 limit = map_option (\<lambda>n. nat (max 0 (min n (int (min (length (fill_ids rq)) committed))))) insert_len;
                 keys = request_keys cfg rq limit
             in case request_row (req_pool_idx rq) (length ids) s of
                  Inl e \<Rightarrow> (Inl e, s)
                | Inr kv_indices \<Rightarrow>
                    andthen
                      (if is_insert0 \<and> \<not> c_disable_finished_insert cfg
                       then andthen (radix_insert cfg (request_key cfg rq keys) (take (length keys) kv_indices) (rq_priority rq))
                              (\<lambda>new_prefix_len. radix_free (slice kv_indices (cache_protected_len rq) new_prefix_len))
                       else radix_free (slice kv_indices (cache_protected_len rq) (length keys)))
                      (\<lambda>_. andthen (radix_free (slice kv_indices (length keys) committed))
                      (\<lambda>_. andthen (\<lambda>s'. (Inr (), s'\<lparr>r_rows := rp_free_one (r_rows s') (req_pool_idx rq)\<rparr>))
                      (\<lambda>_. andthen (dec_lock_ref cfg (last_node rq)) (\<lambda>_. ret rq)))) s))"

definition cache_unfinished_req :: "radix_config \<Rightarrow> radix_req \<Rightarrow> (radix, radix_req) run" where
  "cache_unfinished_req cfg rq s =
     (if c_disable cfg then (Inr rq, s)
      else
        (case request_row (req_pool_idx rq) (length (fill_ids rq)) s of
           Inl e \<Rightarrow> (Inl e, s)
         | Inr kv_indices \<Rightarrow>
             (let keys = request_keys cfg rq None; key = request_key cfg rq keys
              in andthen (radix_insert cfg key (take (length keys) kv_indices) (rq_priority rq))
                   (\<lambda>new_prefix_len. andthen (radix_free (slice kv_indices (cache_protected_len rq) new_prefix_len))
                   (\<lambda>_. andthen (match_prefix cfg key)
                   (\<lambda>(new_indices, new_last_node).
                      if length new_indices \<noteq> length keys then raise AssertionError
                      else
                        andthen (\<lambda>s'. case rp_write (req_pool_idx rq) (cache_protected_len rq) (length new_indices)
                                          (drop (cache_protected_len rq) new_indices) (r_rows s') of
                                      (r, rows') \<Rightarrow> (r, s'\<lparr>r_rows := rows'\<rparr>))
                        (\<lambda>_. andthen (dec_lock_ref cfg (last_node rq))
                        (\<lambda>_. andthen (inc_lock_ref cfg new_last_node)
                        (\<lambda>_. ret (rq\<lparr>cache_protected_len := length new_indices,
                                    prefix_indices :=
                                      (if length new_indices < length kv_indices
                                       then new_indices @ drop (length new_indices) kv_indices else new_indices),
                                    last_node := new_last_node\<rparr>))))))) s)))"

end
