(* ===== verification/RadixSpec.thy ===== *)
theory RadixSpec
  imports RadixCache
begin

text \<open>
  What the radix tree stores: the longest cached prefix of a key, as a function of the tree;
  matching returns it and changes nothing that is stored, insertion adds the missing rest of a
  key and nothing else.
\<close>

section \<open>Common prefixes in pages\<close>

lemma match_paged_shift:
  "i \<le> length xs \<Longrightarrow> i \<le> length ys \<Longrightarrow> match_paged P xs ys (i + j) = i + match_paged P (drop i xs) (drop i ys) j"
proof (induction "min (length xs) (length ys) - (i + j)" arbitrary: j rule: less_induct)
  case less
  show ?case
  proof (cases "P = 0 \<or> i + j \<ge> min (length xs) (length ys)")
    case True
    then show ?thesis using less.prems
      by (subst (1 2) match_paged.simps) (auto simp: min_def split: if_splits)
  next
    case False
    then have n: "\<not> j \<ge> min (length (drop i xs)) (length (drop i ys))" using less.prems by (auto simp: min_def split: if_splits)
    show ?thesis
    proof (cases "take P (drop (i + j) xs) = take P (drop (i + j) ys)")
      case True
      have "match_paged P xs ys (i + (j + P)) = i + match_paged P (drop i xs) (drop i ys) (j + P)"
        using less.hyps[of "j + P"] less.prems False by auto
      then show ?thesis using True False n
        by (subst (1 2) match_paged.simps) (simp add: add.commute add.left_commute)
    next
      case neq: False
      then show ?thesis using False n
        by (subst (1 2) match_paged.simps) (simp add: add.commute)
    qed
  qed
qed

lemma match_page_size1_paged: "match_page_size1 xs ys = match_paged 1 xs ys 0"
proof (induction xs ys rule: match_page_size1.induct)
  case (1 x xs y ys)
  have "match_paged 1 (x # xs) (y # ys) 1 = 1 + match_paged 1 xs ys 0"
    using match_paged_shift[of 1 "x # xs" "y # ys" 1 0] by simp
  then show ?case using 1 match_paged.simps[of 1 "x # xs" "y # ys" 0] by auto
qed (subst match_paged.simps; simp)+

lemma match_tokens_paged: "match_tokens P xs ys = match_paged P xs ys 0"
  by (simp add: match_tokens_def match_page_size1_paged)

lemma match_tokens_rec:
  assumes "0 < P" "P dvd length xs" "P dvd length ys"
  shows "match_tokens P xs ys =
    (if xs = [] \<or> ys = [] \<or> take P xs \<noteq> take P ys then 0 else P + match_tokens P (drop P xs) (drop P ys))"
proof (cases "xs = [] \<or> ys = []")
  case False
  then have "P \<le> length xs" "P \<le> length ys" using assms by (auto dest: dvd_imp_le)
  then have "match_paged P xs ys P = P + match_paged P (drop P xs) (drop P ys) 0"
    using match_paged_shift[of P xs ys P 0] by simp
  then show ?thesis using False assms(1) unfolding match_tokens_paged
    by (subst match_paged.simps) (auto simp: min_def)
qed (use match_paged.simps[of P xs ys 0] in \<open>auto simp: match_tokens_paged\<close>)

text \<open>The characterisation that the proofs about the tree rest on.\<close>

lemma match_tokens_ge_iff:
  assumes "0 < P" "P dvd length xs" "P dvd length ys" "P dvd m"
  shows "m \<le> match_tokens P xs ys \<longleftrightarrow> m \<le> length xs \<and> m \<le> length ys \<and> take m xs = take m ys"
  using assms
proof (induction "length xs" arbitrary: xs ys m rule: less_induct)
  case less
  note rec = match_tokens_rec[OF less.prems(1-3)]
  show ?case
  proof (cases "m = 0")
    case False
    then have mP: "P \<le> m" "P dvd m - P" using less.prems by (auto dest: dvd_imp_le)
    show ?thesis
    proof (cases "xs = [] \<or> ys = [] \<or> take P xs \<noteq> take P ys")
      case True
      moreover have "take P xs = take P ys" if "take m xs = take m ys"
        using that mP(1) by (metis min_absorb1 take_take)
      ultimately show ?thesis using False rec by auto
    next
      case neq: False
      then have l: "P \<le> length xs" "P \<le> length ys" using less.prems by (auto dest: dvd_imp_le)
      have IH: "m - P \<le> match_tokens P (drop P xs) (drop P ys) \<longleftrightarrow>
          m - P \<le> length (drop P xs) \<and> m - P \<le> length (drop P ys) \<and> take (m - P) (drop P xs) = take (m - P) (drop P ys)"
        using less.hyps[of "drop P xs" "drop P ys" "m - P"] less.prems mP l neq by (auto simp: dvd_diff_nat)
      have tk: "take m zs = take P zs @ take (m - P) (drop P zs)" for zs :: "'a list"
        using mP(1) by (metis le_add_diff_inverse take_add)
      show ?thesis using rec neq IH mP(1) l tk[of xs] tk[of ys] by auto
    qed
  qed simp
qed

lemma match_tokens_props:
  assumes "0 < P" "P dvd length xs" "P dvd length ys"
  shows "match_tokens P xs ys \<le> length xs" "match_tokens P xs ys \<le> length ys"
    "P dvd match_tokens P xs ys"
    "take (match_tokens P xs ys) xs = take (match_tokens P xs ys) ys"
proof -
  show d: "P dvd match_tokens P xs ys"
    using assms
  proof (induction "length xs" arbitrary: xs ys rule: less_induct)
    case less
    note rec = match_tokens_rec[OF less.prems(1-3)]
    show ?case
    proof (cases "xs = [] \<or> ys = [] \<or> take P xs \<noteq> take P ys")
      case False
      then have "P dvd match_tokens P (drop P xs) (drop P ys)"
        using less.hyps[of "drop P xs" "drop P ys"] less.prems by (auto simp: dvd_diff_nat)
      then show ?thesis using rec False by simp
    qed (use rec in auto)
  qed
  show "match_tokens P xs ys \<le> length xs" "match_tokens P xs ys \<le> length ys"
    "take (match_tokens P xs ys) xs = take (match_tokens P xs ys) ys"
    using match_tokens_ge_iff[OF assms d] by simp_all
qed

lemma match_tokens_eqI:
  assumes "0 < P" "P dvd length xs" "P dvd length ys" "P dvd m"
    and "m \<le> length xs" "m \<le> length ys" "take m xs = take m ys"
    and "m = length xs \<or> m = length ys \<or> take P (drop m xs) \<noteq> take P (drop m ys)"
  shows "match_tokens P xs ys = m"
proof (rule antisym)
  note pr = match_tokens_props[OF assms(1-3)]
  show "m \<le> match_tokens P xs ys" using match_tokens_ge_iff[OF assms(1-4)] assms(5-7) by simp
  show "match_tokens P xs ys \<le> m"
  proof (rule ccontr)
    assume gt: "\<not> match_tokens P xs ys \<le> m"
    then have "P dvd match_tokens P xs ys - m" using pr(3) assms(4) by (simp add: dvd_diff_nat)
    then have "m + P \<le> match_tokens P xs ys" using gt by (auto dest: dvd_imp_le)
    then have "m + P \<le> length xs \<and> m + P \<le> length ys \<and> take (m + P) xs = take (m + P) ys"
      using match_tokens_ge_iff[OF assms(1-3), of "m + P"] assms(4) by simp
    then show False using assms(1,7,8) by (auto simp: take_add)
  qed
qed

lemma match_tokens_max:
  assumes "0 < P" "P dvd length xs" "P dvd length ys" "M = match_tokens P xs ys"
  shows "M = length xs \<or> M = length ys \<or> take P (drop M xs) \<noteq> take P (drop M ys)"
proof (rule ccontr)
  assume c: "\<not> ?thesis"
  note pr = match_tokens_props[OF assms(1-3), folded assms(4)]
  have "P dvd length xs - M" "P dvd length ys - M" using assms pr(3) by (simp_all add: dvd_diff_nat)
  then have "M + P \<le> length xs" "M + P \<le> length ys" using c pr(1,2) by (auto dest!: dvd_imp_le)
  moreover have "take (M + P) xs = take (M + P) ys" using pr(4) c by (simp add: take_add)
  ultimately have "M + P \<le> M" using match_tokens_ge_iff[OF assms(1-3), of "M + P"] pr(3) assms(4) by simp
  then show False using assms(1) by simp
qed

lemma match_tokens_shift:
  assumes "0 < P" "P dvd length xs" "P dvd length ys" "P dvd m" "m \<le> match_tokens P xs ys"
  shows "match_tokens P xs ys = m + match_tokens P (drop m xs) (drop m ys)"
proof -
  note pr = match_tokens_props[OF assms(1-3)]
  let ?q = "match_tokens P xs ys - m"
  have "match_tokens P (drop m xs) (drop m ys) = ?q"
  proof (rule match_tokens_eqI[OF assms(1)])
    show "P dvd length (drop m xs)" "P dvd length (drop m ys)" "P dvd ?q"
      using assms pr(3) by (simp_all add: dvd_diff_nat)
    show "?q \<le> length (drop m xs)" "?q \<le> length (drop m ys)" using pr(1,2) by simp_all
    show "take ?q (drop m xs) = take ?q (drop m ys)"
      using pr(4) assms(5) by (metis drop_take)
    have "match_tokens P xs ys = length xs \<or> match_tokens P xs ys = length ys
        \<or> take P (drop (match_tokens P xs ys) xs) \<noteq> take P (drop (match_tokens P xs ys) ys)"
      by (rule match_tokens_max[OF assms(1-3) refl])
    then show "?q = length (drop m xs) \<or> ?q = length (drop m ys) \<or> take P (drop ?q (drop m xs)) \<noteq> take P (drop ?q (drop m ys))"
      using assms(5) by auto
  qed
  then show ?thesis using assms(5) by simp
qed

section \<open>What a tree stores\<close>

text \<open>The slots of the longest stored prefix of a sequence of tokens below a node.\<close>

function lookup :: "nat \<Rightarrow> rnode \<Rightarrow> string option \<Rightarrow> tok list \<Rightarrow> int list" where
  "lookup P n x ts =
     (if ts = [] then []
      else
        (case map_of (kids n) (x, take P ts) of
           None \<Rightarrow> []
         | Some c \<Rightarrow>
             (let p = match_tokens P (token_ids (nkey (info c))) ts
              in if p < key_len (nkey (info c)) then take p (nvalue (info c))
                 else nvalue (info c) @ lookup P c x (drop p ts))))"
  by pat_completeness auto

termination lookup
proof (relation "measure (\<lambda>(P, n, x, ts). size n)", goal_cases)
  case (2 P n x ts c)
  then show ?case using size_child[of "kids n" "(x, take P ts)" c] by (cases n) auto
qed simp

declare lookup.simps [simp del]

text \<open>The shape of a tree: keys of children are kept in step with their dictionary, in whole pages.\<close>

definition good_node :: "nat \<Rightarrow> node_info \<Rightarrow> bool" where
  "good_node P i \<longleftrightarrow> 0 < key_len (nkey i) \<and> P dvd key_len (nkey i) \<and> length (nvalue i) = key_len (nkey i)"

fun wf_tree :: "nat \<Rightarrow> rnode \<Rightarrow> bool" where
  "wf_tree P (RNode i ks) \<longleftrightarrow>
     distinct (map fst ks)
     \<and> list_all (\<lambda>(ck, c). ck = get_child_key P (nkey (info c)) \<and> good_node P (info c) \<and> wf_tree P c) ks"

lemma wf_child:
  assumes "wf_tree P n" "map_of (kids n) ck = Some c"
  shows "ck = get_child_key P (nkey (info c))" "good_node P (info c)" "wf_tree P c"
  using assms by (cases n; auto simp: list_all_iff dest!: map_of_SomeD)+

lemma lookup_Nil [simp]: "lookup P n x [] = []"
  by (simp add: lookup.simps)

lemma lookup_None: "map_of (kids n) (x, take P ts) = None \<Longrightarrow> lookup P n x ts = []"
  by (subst lookup.simps) simp

lemma lookup_Some:
  assumes "ts \<noteq> []" "map_of (kids n) (x, take P ts) = Some c" "p = match_tokens P (token_ids (nkey (info c))) ts"
  shows "lookup P n x ts =
    (if p < key_len (nkey (info c)) then take p (nvalue (info c)) else nvalue (info c) @ lookup P c x (drop p ts))"
  using assms by (subst lookup.simps) (simp add: Let_def)

lemma lookup_kids_cong:
  "map_of (kids n) (x, take P ts) = map_of (kids m) (x, take P ts) \<Longrightarrow> lookup P n x ts = lookup P m x ts"
  by (subst (1 2) lookup.simps) simp

lemma lookup_child_cong:
  assumes "map_of (kids n) (x, take P ts) = Some c" "map_of (kids m) (x, take P ts) = Some d"
    and "nkey (info c) = nkey (info d)" "nvalue (info c) = nvalue (info d)"
    and "\<And>p. lookup P c x (drop p ts) = lookup P d x (drop p ts)"
  shows "lookup P n x ts = lookup P m x ts"
proof (cases "ts = []")
  case False
  show ?thesis
    using lookup_Some[OF False assms(1) refl] lookup_Some[OF False assms(2) refl] assms(3-5) by simp
qed simp

text \<open>A child reached with a key of whole pages shares at least one page with it.\<close>

lemma child_match:
  assumes "0 < P" "wf_tree P n" "map_of (kids n) (x, take P ts) = Some c" "ts \<noteq> []" "P dvd length ts"
  shows "P dvd length (token_ids (nkey (info c)))" "P \<le> match_tokens P (token_ids (nkey (info c))) ts"
    "extra_key (nkey (info c)) = x" "take P (token_ids (nkey (info c))) = take P ts"
    "key_len (nkey (info c)) = length (token_ids (nkey (info c)))" "token_ids (nkey (info c)) \<noteq> []"
proof -
  note w = wf_child[OF assms(2,3)]
  show d: "P dvd length (token_ids (nkey (info c)))" using w(2) by (simp add: good_node_def key_len_def)
  show "extra_key (nkey (info c)) = x" and t: "take P (token_ids (nkey (info c))) = take P ts"
    using w(1) by (simp_all add: get_child_key_def)
  show ne: "token_ids (nkey (info c)) \<noteq> []" using w(2) by (auto simp: good_node_def key_len_def)
  have "P \<le> length ts" "P \<le> length (token_ids (nkey (info c)))"
    using assms(4,5) d ne by (auto dest!: dvd_imp_le)
  then show "P \<le> match_tokens P (token_ids (nkey (info c))) ts"
    using match_tokens_ge_iff[OF assms(1) d assms(5), of P] t by simp
qed (simp add: key_len_def)

lemma match_tokens_take:
  assumes "0 < P" "P dvd length xs" "P dvd length ys" "P dvd p" "p \<le> length xs"
  shows "match_tokens P (take p xs) ys = min p (match_tokens P xs ys)"
proof -
  note pr = match_tokens_props[OF assms(1-3)]
  have dl: "P dvd length (take p xs)" using assms(4,5) by (simp add: min_absorb2)
  have "m \<le> match_tokens P (take p xs) ys \<longleftrightarrow> m \<le> min p (match_tokens P xs ys)" if "P dvd m" for m
    using match_tokens_ge_iff[OF assms(1) dl assms(3) that] match_tokens_ge_iff[OF assms(1-3) that] assms(5)
    by (auto simp: min_def)
  moreover have "P dvd min p (match_tokens P xs ys)" using assms(4) pr(3) by (simp add: min_def)
  moreover have "P dvd match_tokens P (take p xs) ys" using match_tokens_props(3)[OF assms(1) dl assms(3)] .
  ultimately show ?thesis by (metis antisym order_refl)
qed

text \<open>Splitting a child does not change what is stored.\<close>

lemma lookup_split:
  assumes P: "0 < P" and wf: "wf_tree P n" "wf_tree P n'"
    and c: "map_of (kids n) ck = Some c"
    and p: "P dvd p" "0 < p" "p < key_len (nkey (info c))"
    and c': "map_of (kids n') ck = Some d" "\<And>k. k \<noteq> ck \<Longrightarrow> map_of (kids n') k = map_of (kids n) k"
    and d: "nkey (info d) = key_take p (nkey (info c))" "nvalue (info d) = take p (nvalue (info c))"
      "\<And>x us. us \<noteq> [] \<Longrightarrow> (x, take P us) = get_child_key P (key_drop p (nkey (info c))) \<Longrightarrow>
         map_of (kids d) (x, take P us) = Some e"
      "\<And>k. k \<noteq> get_child_key P (key_drop p (nkey (info c))) \<Longrightarrow> map_of (kids d) k = None"
    and e: "nkey (info e) = key_drop p (nkey (info c))" "nvalue (info e) = drop p (nvalue (info c))" "kids e = kids c"
    and ts: "P dvd length ts"
  shows "lookup P n' x ts = lookup P n x ts"
proof (cases "ts = [] \<or> (x, take P ts) \<noteq> ck")
  case True
  then show ?thesis using c'(2) lookup_kids_cong[of n' x P ts n] by auto
next
  case False
  then have ne: "ts \<noteq> []" and ck: "ck = (x, take P ts)" by auto
  let ?k = "token_ids (nkey (info c))" and ?v = "nvalue (info c)"
  note cm = child_match[OF P wf(1) c[unfolded ck] ne ts]
  have good: "good_node P (info c)" using wf_child(2)[OF wf(1) c] .
  define q where "q = match_tokens P ?k ts"
  note pr = match_tokens_props[OF P cm(1) ts, folded q_def]
  have pk: "p < length ?k" using p(3) cm(5) by simp
  have old: "lookup P n x ts = (if q < length ?k then take q ?v else ?v @ lookup P c x (drop q ts))"
    using lookup_Some[OF ne c[unfolded ck] refl] cm(5) by (simp add: q_def)
  have m1: "match_tokens P (token_ids (nkey (info d))) ts = min p q"
    using match_tokens_take[OF P cm(1) ts p(1)] pk by (simp add: d(1) key_take_def q_def)
  have new: "lookup P n' x ts = (if min p q < p then take (min p q) (take p ?v)
      else take p ?v @ lookup P d x (drop (min p q) ts))"
    using lookup_Some[OF ne c'(1)[unfolded ck] refl] m1 pk d(1,2)
    by (simp add: key_len_def key_take_def)
  show ?thesis
  proof (cases "q < p")
    case True
    then show ?thesis using old new pk by (simp add: min_def)
  next
    case ge: False
    then have mn: "min p q = p" by simp
    have dk: "P dvd length (drop p ?k)" and dt: "P dvd length (drop p ts)" using cm(1) ts p(1) by (simp_all add: dvd_diff_nat)
    have sh: "q = p + match_tokens P (drop p ?k) (drop p ts)"
      using match_tokens_shift[OF P cm(1) ts p(1)] ge by (simp add: q_def)
    have v: "length ?v = length ?k" using good cm(5) by (simp add: good_node_def)
    show ?thesis
    proof (cases "q = p")
      case True
      then have z: "match_tokens P (drop p ?k) (drop p ts) = 0" using sh by simp
      have "lookup P d x (drop p ts) = []"
      proof (cases "drop p ts = []")
        case nn: False
        have "take P (drop p ?k) \<noteq> take P (drop p ts)"
          using match_tokens_rec[OF P dk dt] z nn pk P by (auto split: if_splits)
        then have "(x, take P (drop p ts)) \<noteq> get_child_key P (key_drop p (nkey (info c)))"
          by (auto simp: get_child_key_def key_drop_def)
        then show ?thesis using lookup_None d(4) by blast
      qed simp
      then show ?thesis using old new True pk by simp
    next
      case False
      then have gt: "0 < match_tokens P (drop p ?k) (drop p ts)" using sh ge by simp
      have nn: "drop p ts \<noteq> []" and tk: "take P (drop p ?k) = take P (drop p ts)"
        using match_tokens_rec[OF P dk dt] gt by (auto split: if_splits)
      have "(x, take P (drop p ts)) = get_child_key P (key_drop p (nkey (info c)))"
        using cm(3) tk by (simp add: get_child_key_def key_drop_def)
      then have me: "map_of (kids d) (x, take P (drop p ts)) = Some e" using d(3)[OF nn] by simp
      have "lookup P d x (drop p ts) = (if q - p < length ?k - p then take (q - p) (drop p ?v)
          else drop p ?v @ lookup P e x (drop q ts))"
        using lookup_Some[OF nn me refl] e(1,2) sh ge by (simp add: key_len_def key_drop_def add.commute)
      moreover have "lookup P e x (drop q ts) = lookup P c x (drop q ts)"
        by (rule lookup_kids_cong) (simp add: e(3))
      moreover have "take q ?v = take p ?v @ take (q - p) (drop p ?v)"
        using ge by (metis le_add_diff_inverse linorder_not_less take_add)
      ultimately show ?thesis using old new mn pk ge by auto
    qed
  qed
qed

lemma wf_update:
  assumes "wf_tree P (RNode i ks)" "ck = get_child_key P (nkey (info c))" "good_node P (info c)" "wf_tree P c"
  shows "wf_tree P (RNode i (AList.update ck c ks))"
proof -
  have "set (AList.update ck c ks) \<subseteq> insert (ck, c) (set ks)"
    by (induction ks) auto
  then show ?thesis using assms by (auto simp: list_all_iff distinct_update)
qed

lemma wf_touch [simp]: "wf_tree P (touch t n) = wf_tree P n" "kids (touch t n) = kids n"
  "nkey (info (touch t n)) = nkey (info n)" "nvalue (info (touch t n)) = nvalue (info n)"
  "lock_ref (info (touch t n)) = lock_ref (info n)" "node_id (info (touch t n)) = node_id (info n)"
  "good_node P (info (touch t n)) = good_node P (info n)"
  by (cases n; simp add: touch_def good_node_def)+

lemma wf_raise [simp]: "wf_tree P (raise_priority q n) = wf_tree P n" "kids (raise_priority q n) = kids n"
  "nkey (info (raise_priority q n)) = nkey (info n)" "nvalue (info (raise_priority q n)) = nvalue (info n)"
  "lock_ref (info (raise_priority q n)) = lock_ref (info n)" "node_id (info (raise_priority q n)) = node_id (info n)"
  "good_node P (info (raise_priority q n)) = good_node P (info n)"
  by (cases n; simp add: raise_priority_def good_node_def)+

lemma lookup_touch [simp]: "lookup P (touch t n) x ts = lookup P n x ts"
  by (rule lookup_kids_cong) simp

lemma lookup_raise [simp]: "lookup P (raise_priority q n) x ts = lookup P n x ts"
  by (rule lookup_kids_cong) simp

text \<open>The new node of a split and the node below it.\<close>

definition lower_part :: "nat \<Rightarrow> rnode \<Rightarrow> rnode" where
  "lower_part p c = RNode ((info c)\<lparr>nkey := key_drop p (nkey (info c)), nvalue := drop p (nvalue (info c))\<rparr>) (kids c)"

lemma split_node_simps:
  "nkey (info (split_node P mk c p)) = key_take p (nkey (info c))"
  "nvalue (info (split_node P mk c p)) = take p (nvalue (info c))"
  "lock_ref (info (split_node P mk c p)) = lock_ref (info c)"
  "node_id (info (split_node P mk c p)) = counter mk"
  "kids (split_node P mk c p) = [(get_child_key P (key_drop p (nkey (info c))), lower_part p c)]"
  by (simp_all add: split_node_def Let_def new_info_def lower_part_def)

lemma split_node_wf:
  assumes "0 < P" "wf_tree P c" "good_node P (info c)" "P dvd p" "0 < p" "p < key_len (nkey (info c))"
  shows "wf_tree P (split_node P mk c p)" "good_node P (info (split_node P mk c p))"
    "get_child_key P (nkey (info (split_node P mk c p))) = get_child_key P (nkey (info c))"
proof -
  have "P \<le> p" using assms(4,5) by (rule dvd_imp_le)
  then show "get_child_key P (nkey (info (split_node P mk c p))) = get_child_key P (nkey (info c))"
    by (simp add: split_node_simps get_child_key_def key_take_def min_absorb1)
  show "good_node P (info (split_node P mk c p))"
    using assms(3-6) by (simp add: good_node_def split_node_simps key_take_def key_len_def)
  have "good_node P (info (lower_part p c))"
    using assms(3-6) by (simp add: good_node_def lower_part_def key_drop_def key_len_def dvd_diff_nat)
  moreover have "wf_tree P (lower_part p c)" using assms(2) by (cases c) (simp add: lower_part_def)
  moreover have "nkey (info (lower_part p c)) = key_drop p (nkey (info c))" by (simp add: lower_part_def)
  ultimately show "wf_tree P (split_node P mk c p)"
    by (simp add: split_node_def Let_def lower_part_def)
qed

lemma lookup_put_split:
  assumes "0 < P" "wf_tree P n" "map_of (kids n) ck = Some c" "P dvd p" "0 < p" "p < key_len (nkey (info c))"
    and "kids n' = AList.update ck (split_node P mk (touch t c) p) ks"
    and "\<And>k. k \<noteq> ck \<Longrightarrow> map_of ks k = map_of (kids n) k" "wf_tree P n'" "P dvd length ts"
  shows "lookup P n' x ts = lookup P n x ts"
proof (rule lookup_split[where e = "lower_part p (touch t c)" and d = "split_node P mk (touch t c) p", OF assms(1,2,9,3-6)])
  show "map_of (kids n') ck = Some (split_node P mk (touch t c) p)"
    by (simp add: assms(7) update_conv')
  show "map_of (kids n') k = map_of (kids n) k" if "k \<noteq> ck" for k
    using that assms(8) by (simp add: assms(7) update_conv')
  show "P dvd length ts" by fact
qed (simp_all add: split_node_simps lower_part_def)

text \<open>Matching returns what is stored and leaves it as it is.\<close>

lemma match_prefix_helper_spec:
  assumes "0 < P" "wf_tree P n" "P dvd key_len key"
  shows "\<exists>l s n'. match_prefix_helper P mk n key = (Inr (lookup P n (extra_key key) (token_ids key), l, s), n')
      \<and> wf_tree P n' \<and> info n' = info n
      \<and> (\<forall>x ts. P dvd length ts \<longrightarrow> lookup P n' x ts = lookup P n x ts)"
  using assms
proof (induction P mk n key rule: match_prefix_helper.induct)
  case (1 P mk n key)
  let ?ts = "token_ids key" and ?x = "extra_key key" and ?t = "clock mk (readings mk)"
  show ?case
  proof (cases "key_len key = 0")
    case True
    then show ?thesis using "1.prems" by (auto simp: match_prefix_helper.simps[of P mk n key] key_len_def)
  next
    case kne: False
    then have ne: "?ts \<noteq> []" by (auto simp: key_len_def)
    have ck: "get_child_key P key = (?x, take P ?ts)" by (simp add: get_child_key_def)
    show ?thesis
    proof (cases "map_of (kids n) (get_child_key P key)")
      case None
      then show ?thesis using kne "1.prems" lookup_None[of n ?x P ?ts]
        by (auto simp: match_prefix_helper.simps[of P mk n key] ck)
    next
      case (Some c)
      have dts: "P dvd length ?ts" using "1.prems"(3) by (simp add: key_len_def)
      note cm = child_match[OF "1.prems"(1,2) Some[unfolded ck] ne dts]
      note w = wf_child[OF "1.prems"(2) Some]
      define p where "p = match_tokens P (token_ids (nkey (info c))) ?ts"
      have km: "key_match P (nkey (info c)) key = Inr p" using cm(3) by (simp add: key_match_def p_def)
      note pr = match_tokens_props[OF "1.prems"(1) cm(1) dts, folded p_def]
      have pP: "0 < p" using cm(2) "1.prems"(1) by (simp add: p_def)
      have look: "lookup P n ?x ?ts = (if p < key_len (nkey (info c)) then take p (nvalue (info c))
          else nvalue (info c) @ lookup P c ?x (drop p ?ts))"
        using lookup_Some[OF ne Some[unfolded ck] p_def] .
      have ckc: "get_child_key P (nkey (info c)) = get_child_key P key" using w(1) by simp
      obtain i ks where n: "n = RNode i ks" by (cases n)
      show ?thesis
      proof (cases "p < key_len (nkey (info c))")
        case True
        let ?new = "split_node P mk (touch ?t c) p"
        let ?n' = "RNode (info n) (AList.update (get_child_key P key) ?new (AList.update (get_child_key P key) (touch ?t c) (kids n)))"
        have run: "match_prefix_helper P mk n key = (Inr (nvalue (info ?new), node_id (info ?new), True), ?n')"
          using kne Some km True ckc by (subst match_prefix_helper.simps) (simp add: Let_def)
        have sw: "wf_tree P ?new" "good_node P (info ?new)" "get_child_key P key = get_child_key P (nkey (info ?new))"
          using split_node_wf[of P "touch ?t c" p mk] w(2,3) True pr(3) pP "1.prems"(1) by (simp_all add: ckc)
        have wf1: "wf_tree P (RNode i (AList.update (get_child_key P key) (touch ?t c) ks))"
          using "1.prems"(2) w(2,3) by (intro wf_update) (simp_all add: n ckc)
        have wf': "wf_tree P ?n'"
          using wf_update[OF wf1 sw(3,2,1)] by (simp add: n)
        have same: "lookup P ?n' x ts = lookup P n x ts" if "P dvd length ts" for x ts
          by (rule lookup_put_split[OF "1.prems"(1,2) Some pr(3) pP True _ _ wf' that, of mk ?t
                "AList.update (get_child_key P key) (touch ?t c) (kids n)"]) (simp_all add: update_conv')
        show ?thesis using run wf' same look True by (auto simp: split_node_simps simp del: wf_tree.simps)
      next
        case False
        have "P dvd key_len (key_drop p key)" using "1.prems"(3) pr(3) by (simp add: key_len_def key_drop_def dvd_diff_nat)
        then obtain l s c' where rec: "match_prefix_helper P mk c (key_drop p key) =
              (Inr (lookup P c ?x (drop p ?ts), l, s), c')" "wf_tree P c'" "info c' = info c"
            "\<And>x ts. P dvd length ts \<Longrightarrow> lookup P c' x ts = lookup P c x ts"
          using "1.IH"[OF kne Some refl refl km False "1.prems"(1) w(3)] by (auto simp: key_drop_def)
        let ?n' = "RNode (info n) (AList.update (get_child_key P key) (touch ?t c') (kids n))"
        have run: "match_prefix_helper P mk n key =
            (Inr (nvalue (info c) @ lookup P c ?x (drop p ?ts), l, s), ?n')"
          using kne Some km False rec(1) by (subst match_prefix_helper.simps) (simp add: Let_def)
        have wf': "wf_tree P ?n'"
          using wf_update[of P i ks "get_child_key P key" "touch ?t c'"] "1.prems"(2) w(2) rec(2,3) by (simp add: n ckc)
        have same: "lookup P ?n' x ts = lookup P n x ts" if d: "P dvd length ts" for x ts
        proof (cases "(x, take P ts) = get_child_key P key \<and> ts \<noteq> []")
          case True
          then have mo: "map_of (kids ?n') (x, take P ts) = Some (touch ?t c')" "map_of (kids n) (x, take P ts) = Some c"
            using Some by (simp_all add: update_conv')
          have nt: "ts \<noteq> []" using True by simp
          have "P dvd match_tokens P (token_ids (nkey (info c))) ts"
            using match_tokens_props(3)[OF "1.prems"(1) cm(1) d] .
          then show ?thesis
            using lookup_Some[OF nt mo(1) refl] lookup_Some[OF nt mo(2) refl] rec(3,4) d
            by (simp add: dvd_diff_nat)
        next
          case False
          then show ?thesis
            using lookup_kids_cong[of ?n' x P ts n] by (cases "ts = []") (auto simp: update_conv')
        qed
        show ?thesis using run wf' same look False by (auto simp del: wf_tree.simps)
      qed
    qed
  qed
qed

section \<open>Insertion\<close>

text \<open>Three keys: where the first two part, and where the third leaves each of them.\<close>

lemma match_three:
  assumes P: "0 < P" and dv: "P dvd length k" "P dvd length ts" "P dvd length us"
    and p: "p = match_tokens P k ts" and q: "q = match_tokens P k us"
  shows "q < p \<Longrightarrow> match_tokens P ts us = q"
    and "p \<le> q \<Longrightarrow> match_tokens P ts us = p + match_tokens P (drop p ts) (drop p us)
                  \<and> q = p + match_tokens P (drop p k) (drop p us)"
    and "p < q \<Longrightarrow> match_tokens P ts us = p"
proof -
  note pp = match_tokens_props[OF P dv(1,2), folded p] and pq = match_tokens_props[OF P dv(1,3), folded q]
  note mp = match_tokens_max[OF P dv(1,2) p] and mq = match_tokens_max[OF P dv(1,3) q]
  have ge: "p \<le> match_tokens P ts us" if "p \<le> q"
  proof -
    have "take p k = take p us" using pq(4) that by (metis min_absorb1 take_take)
    then show ?thesis using match_tokens_ge_iff[OF P dv(2,3) pp(3)] pp that pq(2) by simp
  qed
  show sh: "match_tokens P ts us = p + match_tokens P (drop p ts) (drop p us)
        \<and> q = p + match_tokens P (drop p k) (drop p us)" if "p \<le> q"
    using match_tokens_shift[OF P dv(2,3) pp(3) ge[OF that]] match_tokens_shift[OF P dv(1,3) pp(3)] that q by simp
  show "match_tokens P ts us = q" if lt: "q < p"
  proof (rule match_tokens_eqI[OF P dv(2,3) pq(3)])
    have "P dvd p - q" using pp(3) pq(3) by (simp add: dvd_diff_nat)
    then have qP: "q + P \<le> p" using lt by (auto dest!: dvd_imp_le)
    show "q \<le> length ts" "q \<le> length us" using lt pp pq by simp_all
    have "take q k = take q ts" using pp(4) lt by (metis less_imp_le min_absorb1 take_take)
    then show "take q ts = take q us" using pq(4) by simp
    have "take P (drop q k) = take P (drop q ts)"
      using pp(4) qP by (metis add.commute drop_take le_add_diff_inverse2 min_absorb1 take_drop take_take)
    then show "q = length ts \<or> q = length us \<or> take P (drop q ts) \<noteq> take P (drop q us)"
      using mq lt pp(1) by auto
  qed
  show "match_tokens P ts us = p" if lt: "p < q"
  proof -
    have d: "P dvd length (drop p ts)" "P dvd length (drop p us)" "P dvd length (drop p k)"
      using dv pp(3) by (simp_all add: dvd_diff_nat)
    have "0 < match_tokens P (drop p k) (drop p us)" using sh lt by simp
    then have "take P (drop p k) = take P (drop p us)"
      using match_tokens_rec[OF P d(3,2)] by (auto split: if_splits)
    then have "match_tokens P (drop p ts) (drop p us) = 0"
      using match_tokens_rec[OF P d(1,2)] mp lt pq(1) by (auto split: if_splits)
    then show ?thesis using sh lt by simp
  qed
qed

definition inserted ::
  "nat \<Rightarrow> rnode \<Rightarrow> string option \<Rightarrow> tok list \<Rightarrow> int list \<Rightarrow> string option \<Rightarrow> tok list \<Rightarrow> int list"
where
  "inserted P n x ts val y us =
     (let m = match_tokens P ts us
      in if y = x \<and> length (lookup P n y us) < m
         then take m (lookup P n x ts @ drop (length (lookup P n x ts)) val) else lookup P n y us)"

lemma match_tokens_0:
  assumes "0 < P" "P dvd length ts" "P dvd length us" "take P us \<noteq> take P ts \<or> us = []"
  shows "match_tokens P ts us = 0"
  using match_tokens_rec[OF assms(1-3)] assms(4) by auto

lemma inserted_other:
  assumes "0 < P" "P dvd length ts" "P dvd length us" "us = [] \<or> (y, take P us) \<noteq> (x, take P ts)"
  shows "inserted P n x ts val y us = lookup P n y us"
  using assms match_tokens_0[OF assms(1-3)] by (auto simp: inserted_def Let_def)

lemma lookup_leaf: "kids n = [] \<Longrightarrow> lookup P n x ts = []"
  by (subst lookup.simps) simp

text \<open>A new leaf below a node that has no child for the key.\<close>

lemma lookup_new_leaf:
  assumes P: "0 < P" and dv: "P dvd length ts" "P dvd length us" and ne: "ts \<noteq> []" and val: "length val = length ts"
    and old: "map_of (kids n) (x, take P ts) = None"
    and new: "map_of (kids n') (x, take P ts) = Some d" "\<And>k. k \<noteq> (x, take P ts) \<Longrightarrow> map_of (kids n') k = map_of (kids n) k"
    and d: "token_ids (nkey (info d)) = ts" "nvalue (info d) = val" "kids d = []"
  shows "lookup P n' y us = inserted P n x ts val y us"
proof (cases "us = [] \<or> (y, take P us) \<noteq> (x, take P ts)")
  case True
  then have "lookup P n' y us = lookup P n y us"
    using new(2) lookup_kids_cong[of n' y P us n] by (cases "us = []") auto
  then show ?thesis using inserted_other[OF P dv True] by simp
next
  case False
  then have u: "us \<noteq> []" "y = x" "take P us = take P ts" by auto
  note pr = match_tokens_props[OF P dv]
  have lo: "lookup P n x us = []" "lookup P n x ts = []" using lookup_None old u by simp_all
  have m: "0 < match_tokens P ts us" using match_tokens_rec[OF P dv] ne u P by simp
  have "lookup P n' x us = (if match_tokens P ts us < length ts then take (match_tokens P ts us) val else val)"
    using lookup_Some[OF u(1) _ refl, of n' x P d] new(1) u(3) d lookup_leaf[of d] by (simp add: key_len_def)
  then show ?thesis using lo m u(2) pr(1) val by (auto simp: inserted_def Let_def)
qed

text \<open>A split followed by a new leaf for the rest of the key, if there is one.\<close>

lemma lookup_split_leaf:
  assumes P: "0 < P" and wf: "wf_tree P n" and dv: "P dvd length ts" "P dvd length us"
    and ne: "ts \<noteq> []" and val: "length val = length ts"
    and c: "map_of (kids n) (x, take P ts) = Some c"
    and p: "p = match_tokens P (token_ids (nkey (info c))) ts" "p < key_len (nkey (info c))"
    and n': "map_of (kids n') (x, take P ts) = Some d" "\<And>k. k \<noteq> (x, take P ts) \<Longrightarrow> map_of (kids n') k = map_of (kids n) k"
    and d: "nkey (info d) = key_take p (nkey (info c))" "nvalue (info d) = take p (nvalue (info c))"
    and dk: "map_of (kids d) = (if drop p ts = [] then [get_child_key P (key_drop p (nkey (info c))) \<mapsto> e]
               else [get_child_key P (key_drop p (nkey (info c))) \<mapsto> e, (x, take P (drop p ts)) \<mapsto> f])"
    and e: "nkey (info e) = key_drop p (nkey (info c))" "nvalue (info e) = drop p (nvalue (info c))" "kids e = kids c"
    and f: "token_ids (nkey (info f)) = drop p ts" "nvalue (info f) = drop p val" "kids f = []"
  shows "lookup P n' y us = inserted P n x ts val y us"
proof (cases "us = [] \<or> (y, take P us) \<noteq> (x, take P ts)")
  case True
  then have "lookup P n' y us = lookup P n y us"
    using n'(2) lookup_kids_cong[of n' y P us n] by (cases "us = []") auto
  then show ?thesis using inserted_other[OF P dv True] by simp
next
  case False
  then have u: "us \<noteq> []" "y = x" "take P us = take P ts" by auto
  let ?k = "token_ids (nkey (info c))" and ?v = "nvalue (info c)"
  note cm = child_match[OF P wf c ne dv(1)]
  have cu: "map_of (kids n) (x, take P us) = Some c" using c u(3) by simp
  have v: "length ?v = length ?k" using wf_child(2)[OF wf c] cm(5) by (simp add: good_node_def)
  have pk: "p < length ?k" using p(2) cm(5) by simp
  note pp = match_tokens_props[OF P cm(1) dv(1), folded p(1)]
  define q where "q = match_tokens P ?k us"
  note pq = match_tokens_props[OF P cm(1) dv(2), folded q_def]
  note three = match_three[OF P cm(1) dv p(1) q_def]
  have l_ts: "lookup P n x ts = take p ?v" using lookup_Some[OF ne c p(1)] p(2) by simp
  have l_us: "lookup P n x us = (if q < length ?k then take q ?v else ?v @ lookup P c x (drop q us))"
    using lookup_Some[OF u(1) cu q_def] cm(5) by simp
  have m1: "match_tokens P (token_ids (nkey (info d))) us = min p q"
    using match_tokens_take[OF P cm(1) dv(2) pp(3)] pk by (simp add: d(1) key_take_def q_def)
  have new: "lookup P n' x us = (if min p q < p then take (min p q) (take p ?v)
      else take p ?v @ lookup P d x (drop (min p q) us))"
    using lookup_Some[OF u(1) _ refl, of n' x P d] n'(1) u(3) m1 pk d(1,2)
    by (simp add: key_len_def key_take_def)
  have dd: "P dvd length (drop p ?k)" "P dvd length (drop p us)" "P dvd length (drop p ts)"
    using cm(1) dv pp(3) by (simp_all add: dvd_diff_nat)
  have apart: "take P (drop p ?k) \<noteq> take P (drop p ts)"
    using match_tokens_max[OF P cm(1) dv(1) p(1)] pk P by auto
  have ck1: "get_child_key P (key_drop p (nkey (info c))) = (x, take P (drop p ?k))"
    using cm(3) by (simp add: get_child_key_def key_drop_def)
  consider "q < p" | "p < q" | "q = p" by linarith
  then show ?thesis
  proof cases
    case 1
    then show ?thesis using new l_us three(1) pk v u(2) by (simp add: inserted_def Let_def min_def)
  next
    case 2
    have sh: "q = p + match_tokens P (drop p ?k) (drop p us)" using three(2) 2 by simp
    then have tk: "take P (drop p ?k) = take P (drop p us)" and nn: "drop p us \<noteq> []"
      using match_tokens_rec[OF P dd(1,2)] 2 by (auto split: if_splits)
    have me: "map_of (kids d) (x, take P (drop p us)) = Some e" using dk apart tk ck1 by auto
    have "lookup P d x (drop p us) = (if q - p < length ?k - p then take (q - p) (drop p ?v)
        else drop p ?v @ lookup P e x (drop q us))"
      using lookup_Some[OF nn me refl] e(1,2) sh 2 by (simp add: key_len_def key_drop_def add.commute)
    moreover have "lookup P e x (drop q us) = lookup P c x (drop q us)"
      by (rule lookup_kids_cong) (simp add: e(3))
    moreover have "take q ?v = take p ?v @ take (q - p) (drop p ?v)"
      using 2 by (metis le_add_diff_inverse less_imp_le take_add)
    ultimately have "lookup P n' x us = lookup P n x us" using new l_us pk 2 by auto
    moreover have "p \<le> length (lookup P n x us)" using l_us 2 v pk by auto
    ultimately show ?thesis using three(3) 2 u(2) by (simp add: inserted_def Let_def)
  next
    case 3
    then have lu: "lookup P n x us = take p ?v" "length (lookup P n x us) = p" using l_us pk v by simp_all
    have r: "match_tokens P ts us = p + match_tokens P (drop p ts) (drop p us)"
      "match_tokens P (drop p ?k) (drop p us) = 0" using three(2) 3 by simp_all
    have new': "lookup P n' x us = take p ?v @ lookup P d x (drop p us)" using new 3 by simp
    show ?thesis
    proof (cases "match_tokens P (drop p ts) (drop p us) = 0")
      case True
      have "lookup P d x (drop p us) = []"
      proof (cases "drop p us = []")
        case nn: False
        have "take P (drop p us) \<noteq> take P (drop p ?k)"
          using match_tokens_rec[OF P dd(1,2)] r(2) nn pk P by (auto split: if_splits)
        moreover have "drop p ts \<noteq> [] \<Longrightarrow> take P (drop p us) \<noteq> take P (drop p ts)"
          using match_tokens_rec[OF P dd(3,2)] True nn P by (auto split: if_splits)
        ultimately have "map_of (kids d) (x, take P (drop p us)) = None" using dk ck1 by auto
        then show ?thesis by (rule lookup_None)
      qed simp
      then show ?thesis using new' lu r(1) True u(2) by (simp add: inserted_def Let_def)
    next
      case False
      then have tk: "take P (drop p ts) = take P (drop p us)" and nn: "drop p us \<noteq> []" "drop p ts \<noteq> []"
        using match_tokens_rec[OF P dd(3,2)] by (auto split: if_splits)
      have mf: "map_of (kids d) (x, take P (drop p us)) = Some f" using dk nn tk ck1 apart by auto
      let ?r = "match_tokens P (drop p ts) (drop p us)"
      have "lookup P d x (drop p us) = take ?r (drop p val)"
        using lookup_Some[OF nn(1) mf refl] f lookup_leaf[OF f(3)] val match_tokens_props(1)[OF P dd(3,2)]
        by (auto simp: key_len_def)
      then show ?thesis using new' lu r(1) False u(2) l_ts pk v by (simp add: inserted_def Let_def)
    qed
  qed
qed

text \<open>The length that insertion reports, and the lengths of what is stored.\<close>

lemma length_lookup:
  assumes "0 < P" "wf_tree P n" "P dvd length ts"
  shows "length (lookup P n x ts) \<le> length ts \<and> P dvd length (lookup P n x ts)"
  using assms
proof (induction P n x ts rule: lookup.induct)
  case (1 P n x ts)
  show ?case
  proof (cases "ts = []")
    case ne: False
    show ?thesis
    proof (cases "map_of (kids n) (x, take P ts)")
      case None
      then show ?thesis using lookup_None by simp
    next
      case (Some c)
      note cm = child_match[OF "1.prems"(1,2) Some ne "1.prems"(3)]
      note w = wf_child[OF "1.prems"(2) Some]
      let ?p = "match_tokens P (token_ids (nkey (info c))) ts"
      note pr = match_tokens_props[OF "1.prems"(1) cm(1) "1.prems"(3)]
      have v: "length (nvalue (info c)) = length (token_ids (nkey (info c)))"
        using w(2) cm(5) by (simp add: good_node_def)
      show ?thesis
      proof (cases "?p < key_len (nkey (info c))")
        case True
        then show ?thesis using lookup_Some[OF ne Some refl] pr v cm(5) by (simp add: min_absorb2)
      next
        case False
        have "length (lookup P c x (drop ?p ts)) \<le> length (drop ?p ts) \<and> P dvd length (lookup P c x (drop ?p ts))"
          using "1.IH"[OF ne Some refl False "1.prems"(1) w(3)] "1.prems"(3) pr(3) by (simp add: dvd_diff_nat)
        then show ?thesis using lookup_Some[OF ne Some refl] False pr v cm(1,5) by auto
      qed
    qed
  qed simp
qed

lemma attach_leaf_simps:
  "key_len key \<noteq> 0 \<Longrightarrow> kids (attach_leaf P mk k prio key val n) =
     AList.update (get_child_key P key) (RNode (new_info mk k prio key val 0) []) (kids n)"
  "key_len key = 0 \<Longrightarrow> attach_leaf P mk k prio key val n = n"
  "info (attach_leaf P mk k prio key val n) = info n"
  by (simp_all add: attach_leaf_def)

lemma new_info_simps [simp]:
  "nkey (new_info mk k prio key val lock) = key" "nvalue (new_info mk k prio key val lock) = val"
  "lock_ref (new_info mk k prio key val lock) = lock" "node_id (new_info mk k prio key val lock) = counter mk + k"
  by (simp_all add: new_info_def)

lemma attach_leaf_wf:
  assumes "wf_tree P n" "P dvd key_len key" "length val = key_len key"
  shows "wf_tree P (attach_leaf P mk k prio key val n)"
proof (cases "key_len key = 0")
  case False
  then have "good_node P (new_info mk k prio key val 0)" using assms by (simp add: good_node_def)
  then show ?thesis using assms(1) wf_update[of P "info n" "kids n" "get_child_key P key" "RNode (new_info mk k prio key val 0) []"]
    by (cases n) (simp add: attach_leaf_def)
qed (use assms in \<open>simp add: attach_leaf_simps\<close>)

lemma insert_helper_spec:
  assumes "0 < P" "wf_tree P n" "P dvd key_len key" "length val = key_len key"
  shows "\<exists>m n'. insert_helper P mk prio n key val =
        (Inr (length (lookup P n (extra_key key) (token_ids key)),
              key_len key - length (lookup P n (extra_key key) (token_ids key)), m), n')
      \<and> wf_tree P n' \<and> info n' = info n
      \<and> (\<forall>y us. P dvd length us \<longrightarrow> lookup P n' y us = inserted P n (extra_key key) (token_ids key) val y us)"
  using assms
proof (induction P mk prio n key val rule: insert_helper.induct)
  case (1 P mk prio n key val)
  let ?ts = "token_ids key" and ?x = "extra_key key" and ?t = "clock mk (readings mk)"
  have dts: "P dvd length ?ts" and vl: "length val = length ?ts" using "1.prems"(3,4) by (simp_all add: key_len_def)
  show ?case
  proof (cases "key_len key = 0")
    case True
    then have t: "?ts = []" and run: "insert_helper P mk prio n key val = (Inr (0, 0, 0), n)"
      by (simp_all add: insert_helper.simps[of P mk prio n key val] key_len_def)
    have "inserted P n ?x ?ts val y us = lookup P n y us" if "P dvd length us" for y us
      using match_tokens_0[OF "1.prems"(1), of "[]" us] match_tokens_rec[OF "1.prems"(1), of "[]" us] that
      by (simp add: inserted_def Let_def t)
    then show ?thesis using run "1.prems" t True by auto
  next
    case kne: False
    then have ne: "?ts \<noteq> []" by (auto simp: key_len_def)
    have ck: "get_child_key P key = (?x, take P ?ts)" by (simp add: get_child_key_def)
    obtain i ks where n: "n = RNode i ks" by (cases n)
    show ?thesis
    proof (cases "map_of (kids n) (get_child_key P key)")
      case None
      let ?n' = "attach_leaf P mk 0 prio key val n"
      have run: "insert_helper P mk prio n key val = (Inr (0, key_len key, 1), ?n')"
        using kne None by (subst insert_helper.simps) simp
      have "lookup P ?n' y us = inserted P n ?x ?ts val y us" if "P dvd length us" for y us
      proof (rule lookup_new_leaf[OF "1.prems"(1) dts that ne vl None[unfolded ck]])
        show "map_of (kids ?n') (?x, take P ?ts) = Some (RNode (new_info mk 0 prio key val 0) [])"
          using kne by (simp add: attach_leaf_simps ck update_conv')
        show "map_of (kids ?n') k = map_of (kids n) k" if "k \<noteq> (?x, take P ?ts)" for k
          using that kne by (simp add: attach_leaf_simps ck update_conv')
      qed simp_all
      moreover have "lookup P n ?x ?ts = []" using lookup_None None ck by simp
      ultimately show ?thesis
        using run attach_leaf_wf[OF "1.prems"(2-4)] by (simp add: attach_leaf_simps)
    next
      case (Some c)
      note cm = child_match[OF "1.prems"(1,2) Some[unfolded ck] ne dts]
      note w = wf_child[OF "1.prems"(2) Some]
      define p where "p = match_tokens P (token_ids (nkey (info c))) ?ts"
      have km: "key_match P (nkey (info c)) key = Inr p" using cm(3) by (simp add: key_match_def p_def)
      note pr = match_tokens_props[OF "1.prems"(1) cm(1) dts, folded p_def]
      have pP: "0 < p" using cm(2) "1.prems"(1) by (simp add: p_def)
      have look: "lookup P n ?x ?ts = (if p < key_len (nkey (info c)) then take p (nvalue (info c))
          else nvalue (info c) @ lookup P c ?x (drop p ?ts))"
        using lookup_Some[OF ne Some[unfolded ck] p_def] .
      have vc: "length (nvalue (info c)) = length (token_ids (nkey (info c)))"
        using w(2) cm(5) by (simp add: good_node_def)
      have ckc: "get_child_key P (nkey (info c)) = get_child_key P key" using w(1) by simp
      have kd: "P dvd key_len (key_drop p key)" "length (drop p val) = key_len (key_drop p key)"
        "token_ids (key_drop p key) = drop p ?ts" "extra_key (key_drop p key) = ?x"
        using "1.prems"(3,4) pr(3) by (simp_all add: key_len_def key_drop_def dvd_diff_nat)
      show ?thesis
      proof (cases "p < key_len (nkey (info c))")
        case True
        let ?sp = "raise_priority prio (split_node P mk (touch ?t c) p)"
        let ?new = "attach_leaf P mk 1 prio (key_drop p key) (drop p val) ?sp"
        let ?n' = "RNode (info n) (AList.update (get_child_key P key) ?new (AList.update (get_child_key P key) (touch ?t c) (kids n)))"
        let ?m = "if key_len (key_drop p key) = 0 then 1 else 2 :: nat"
        have run: "insert_helper P mk prio n key val = (Inr (p, key_len (key_drop p key), ?m), ?n')"
          using kne Some km True ckc by (subst insert_helper.simps) (simp add: Let_def)
        have sw: "wf_tree P ?new" "good_node P (info ?new)" "get_child_key P key = get_child_key P (nkey (info ?new))"
          using split_node_wf[of P "touch ?t c" p mk] w(2,3) True pr(3) pP "1.prems"(1) attach_leaf_wf[OF _ kd(1,2), of ?sp mk 1 prio]
          by (simp_all add: ckc attach_leaf_simps)
        have wf1: "wf_tree P (RNode i (AList.update (get_child_key P key) (touch ?t c) ks))"
          using "1.prems"(2) w(2,3) by (intro wf_update) (simp_all add: n ckc)
        have wf': "wf_tree P ?n'" using wf_update[OF wf1 sw(3,2,1)] by (simp add: n)
        have apart: "take P (drop p (token_ids (nkey (info c)))) \<noteq> take P (drop p ?ts)"
          using match_tokens_max[OF "1.prems"(1) cm(1) dts p_def] True cm(5) "1.prems"(1) by auto
        have same: "lookup P ?n' y us = inserted P n ?x ?ts val y us" if du: "P dvd length us" for y us
        proof (rule lookup_split_leaf[OF "1.prems"(1,2) dts du ne vl Some[unfolded ck] p_def True,
              where d = ?new and e = "lower_part p (touch ?t c)" and f = "RNode (new_info mk 1 prio (key_drop p key) (drop p val) 0) []"])
          show "map_of (kids ?n') (?x, take P ?ts) = Some ?new" by (simp add: update_conv' ck)
          show "map_of (kids ?n') k = map_of (kids n) k" if "k \<noteq> (?x, take P ?ts)" for k
            using that by (simp add: update_conv' ck)
          show "map_of (kids ?new) = (if drop p ?ts = [] then [get_child_key P (key_drop p (nkey (info c))) \<mapsto> lower_part p (touch ?t c)]
               else [get_child_key P (key_drop p (nkey (info c))) \<mapsto> lower_part p (touch ?t c),
                     (?x, take P (drop p ?ts)) \<mapsto> RNode (new_info mk 1 prio (key_drop p key) (drop p val) 0) []])"
            by (auto simp: attach_leaf_def key_len_def kd(3,4) split_node_simps get_child_key_def update_conv' fun_eq_iff)
        qed (simp_all add: attach_leaf_simps split_node_simps lower_part_def kd(3))
        show ?thesis using run wf' same look True pr(1) vc "1.prems"(4) kd(2) vl
          by (auto simp: key_len_def kd(3) simp del: wf_tree.simps)
      next
        case False
        obtain m c' where rec: "insert_helper P mk prio c (key_drop p key) (drop p val) =
              (Inr (length (lookup P c ?x (drop p ?ts)), key_len (key_drop p key) - length (lookup P c ?x (drop p ?ts)), m), c')"
            "wf_tree P c'" "info c' = info c"
            "\<And>y us. P dvd length us \<Longrightarrow> lookup P c' y us = inserted P c ?x (drop p ?ts) (drop p val) y us"
          using "1.IH"[OF kne Some refl refl km refl refl False "1.prems"(1) w(3) kd(1,2)] by (auto simp: kd(3,4))
        let ?c' = "raise_priority prio (touch ?t c')"
        let ?n' = "RNode (info n) (AList.update (get_child_key P key) ?c' (kids n))"
        have run: "insert_helper P mk prio n key val =
            (Inr (p + length (lookup P c ?x (drop p ?ts)), key_len (key_drop p key) - length (lookup P c ?x (drop p ?ts)), m), ?n')"
          using kne Some km False rec(1) by (subst insert_helper.simps) (simp add: Let_def)
        have wf': "wf_tree P ?n'"
          using wf_update[of P i ks "get_child_key P key" ?c'] "1.prems"(2) w(2) rec(2,3) by (simp add: n ckc)
        have pk: "p = length (token_ids (nkey (info c)))" using False pr(1) cm(5) by simp
        have same: "lookup P ?n' y us = inserted P n ?x ?ts val y us" if du: "P dvd length us" for y us
        proof (cases "us = [] \<or> (y, take P us) \<noteq> (?x, take P ?ts)")
          case True
          then have "lookup P ?n' y us = lookup P n y us"
            using lookup_kids_cong[of ?n' y P us n] by (cases "us = []") (auto simp: update_conv' ck)
          then show ?thesis using inserted_other[OF "1.prems"(1) dts du True] by simp
        next
          case False
          then have u: "us \<noteq> []" "y = ?x" "take P us = take P ?ts" by auto
          have mo: "map_of (kids ?n') (?x, take P us) = Some ?c'" "map_of (kids n) (?x, take P us) = Some c"
            using Some u(3) by (simp_all add: update_conv' ck)
          define q where "q = match_tokens P (token_ids (nkey (info c))) us"
          note pq = match_tokens_props[OF "1.prems"(1) cm(1) du, folded q_def]
          note three = match_three[OF "1.prems"(1) cm(1) dts du p_def q_def]
          have old: "lookup P n ?x us = (if q < p then take q (nvalue (info c)) else nvalue (info c) @ lookup P c ?x (drop q us))"
            using lookup_Some[OF u(1) mo(2) q_def] pk cm(5) by simp
          have new: "lookup P ?n' ?x us = (if q < p then take q (nvalue (info c)) else nvalue (info c) @ lookup P c' ?x (drop q us))"
            using lookup_Some[OF u(1) mo(1) refl] pk cm(5) rec(3) by (simp add: q_def)
          show ?thesis
          proof (cases "q < p")
            case True
            then show ?thesis using old new three(1) u(2) pk vc by (simp add: inserted_def Let_def)
          next
            case ge: False
            then have qp: "q = p" using pq(1) pk by simp
            have r: "match_tokens P ?ts us = p + match_tokens P (drop p ?ts) (drop p us)" using three(2) ge by simp
            have "P dvd length (drop p us)" using du pr(3) by (simp add: dvd_diff_nat)
            then have "lookup P c' ?x (drop p us) = inserted P c ?x (drop p ?ts) (drop p val) ?x (drop p us)" by (rule rec(4))
            moreover have "lookup P n ?x ?ts = nvalue (info c) @ lookup P c ?x (drop p ?ts)"
              using look pk cm(5) by simp
            ultimately show ?thesis using old new qp r u(2) pk vc
              by (auto simp: inserted_def Let_def add.commute)
          qed
        qed
        have "length (lookup P n ?x ?ts) = p + length (lookup P c ?x (drop p ?ts))" using look pk vc cm(5) by simp
        then show ?thesis using run wf' same by (auto simp: key_len_def kd(3) simp del: wf_tree.simps)
      qed
    qed
  qed
qed

end
