(* ===== verification/RadixStore.thy ===== *)
theory RadixStore
  imports RadixSpec
begin

text \<open>
  The prefix cache as a store of prefixes: what a client may rely on when it inserts and
  matches, stated for any store and shown of the radix cache.
\<close>

section \<open>The interface\<close>

text \<open>
  A store gives, for a namespace and a sequence of tokens, the slots of the longest stored
  prefix. Inserting a sequence extends the stored prefix by the slots of the missing rest and
  affects other sequences only as far as they agree with it.
\<close>

type_synonym store = "string option \<Rightarrow> tok list \<Rightarrow> int list"

definition store_insert :: "nat \<Rightarrow> store \<Rightarrow> string option \<Rightarrow> tok list \<Rightarrow> int list \<Rightarrow> store" where
  "store_insert P A x ts val y us =
     (let m = match_tokens P ts us
      in if y = x \<and> length (A y us) < m then take m (A x ts @ drop (length (A x ts)) val) else A y us)"

locale prefix_store =
  fixes P :: nat
    and inv :: "'s \<Rightarrow> bool"
    and store :: "'s \<Rightarrow> store"
    and find :: "'s \<Rightarrow> radix_key \<Rightarrow> int list \<times> 's"
    and add :: "'s \<Rightarrow> radix_key \<Rightarrow> int list \<Rightarrow> nat \<times> 's"
    and ok_key :: "radix_key \<Rightarrow> bool"
  assumes page: "inv s \<Longrightarrow> 0 < P"
    and ok_key: "ok_key k \<Longrightarrow> P dvd length (token_ids k)"
    and bound: "inv s \<Longrightarrow> P dvd length ts \<Longrightarrow> length (store s x ts) \<le> length ts \<and> P dvd length (store s x ts)"
    and find: "inv s \<Longrightarrow> ok_key k \<Longrightarrow> fst (find s k) = store s (extra_key k) (token_ids k)"
    and find_inv: "inv s \<Longrightarrow> ok_key k \<Longrightarrow> inv (snd (find s k))"
    and find_store: "inv s \<Longrightarrow> ok_key k \<Longrightarrow> P dvd length ts \<Longrightarrow> store (snd (find s k)) x ts = store s x ts"
    and add: "inv s \<Longrightarrow> ok_key k \<Longrightarrow> length val = length (token_ids k) \<Longrightarrow>
        fst (add s k val) = length (store s (extra_key k) (token_ids k))"
    and add_inv: "inv s \<Longrightarrow> ok_key k \<Longrightarrow> length val = length (token_ids k) \<Longrightarrow> inv (snd (add s k val))"
    and add_store: "inv s \<Longrightarrow> ok_key k \<Longrightarrow> length val = length (token_ids k) \<Longrightarrow> P dvd length ts \<Longrightarrow>
        store (snd (add s k val)) x ts = store_insert P (store s) (extra_key k) (token_ids k) val x ts"
begin

lemma match_self: "inv s \<Longrightarrow> P dvd length ts \<Longrightarrow> match_tokens P ts ts = length ts"
  by (rule match_tokens_eqI[OF page]) simp_all

text \<open>What was inserted is found, in full: the slots that were there, then the new ones.\<close>

lemma add_then_find:
  assumes "inv s" "ok_key k" "length val = length (token_ids k)"
  shows "fst (find (snd (add s k val)) k) =
      store s (extra_key k) (token_ids k) @ drop (fst (add s k val)) val"
    and "length (fst (find (snd (add s k val)) k)) = length (token_ids k)"
proof -
  let ?A = "store s (extra_key k) (token_ids k)"
  have d: "P dvd length (token_ids k)" by (rule ok_key[OF assms(2)])
  have b: "length ?A \<le> length (token_ids k)" using bound[OF assms(1) d] by simp
  have "fst (find (snd (add s k val)) k) = store_insert P (store s) (extra_key k) (token_ids k) val (extra_key k) (token_ids k)"
    using find[OF add_inv[OF assms] assms(2)] add_store[OF assms d] by simp
  then show f: "fst (find (snd (add s k val)) k) = ?A @ drop (fst (add s k val)) val"
    using match_self[OF assms(1) d] b assms(3) add[OF assms] by (auto simp: store_insert_def Let_def)
  then show "length (fst (find (snd (add s k val)) k)) = length (token_ids k)"
    using b assms(3) add[OF assms] by simp
qed

text \<open>A second insertion of the same key finds all of it and changes nothing.\<close>

lemma add_twice:
  assumes "inv s" "ok_key k" "length val = length (token_ids k)" "length val' = length (token_ids k)"
  shows "fst (add (snd (add s k val)) k val') = length (token_ids k)"
    and "P dvd length ts \<Longrightarrow> store (snd (add (snd (add s k val)) k val')) x ts = store (snd (add s k val)) x ts"
proof -
  let ?s = "snd (add s k val)"
  have i: "inv ?s" by (rule add_inv[OF assms(1-3)])
  have d: "P dvd length (token_ids k)" by (rule ok_key[OF assms(2)])
  have full: "length (store ?s (extra_key k) (token_ids k)) = length (token_ids k)"
    using add_then_find(2)[OF assms(1-3)] find[OF i assms(2)] by simp
  then show "fst (add ?s k val') = length (token_ids k)" using add[OF i assms(2,4)] by simp
  assume dt: "P dvd length ts"
  have "\<not> length (store ?s (extra_key k) ts) < match_tokens P (token_ids k) ts"
  proof
    let ?m = "match_tokens P (token_ids k) ts"
    assume lt: "length (store ?s (extra_key k) ts) < ?m"
    have st: "store ?s (extra_key k) us = store_insert P (store s) (extra_key k) (token_ids k) val (extra_key k) us"
      if "P dvd length us" for us using add_store[OF assms(1-3) that] .
    have "?m \<le> length (token_ids k)" using match_tokens_props(1)[OF page[OF assms(1)] d dt] .
    then show False using lt st[OF dt] bound[OF assms(1) d, of "extra_key k"] assms(3)
      by (auto simp: store_insert_def Let_def split: if_splits)
  qed
  then show "store (snd (add ?s k val')) x ts = store ?s x ts"
    using add_store[OF i assms(2,4) dt, of x] by (auto simp: store_insert_def Let_def)
qed

text \<open>Namespaces do not see each other.\<close>

lemma add_other_namespace:
  assumes "inv s" "ok_key k" "length val = length (token_ids k)" "P dvd length ts" "y \<noteq> extra_key k"
  shows "store (snd (add s k val)) y ts = store s y ts"
  using add_store[OF assms(1-4)] assms(5) by (simp add: store_insert_def Let_def)

end

section \<open>The radix cache is a prefix store\<close>

definition radix_wf :: "radix_config \<Rightarrow> radix \<Rightarrow> bool" where
  "radix_wf cfg s \<longleftrightarrow> wf_tree (c_page_size cfg) (root_node s)"

definition active :: "radix_config \<Rightarrow> bool" where
  "active cfg \<longleftrightarrow> 0 < c_page_size cfg \<and> \<not> c_disable cfg"

definition whole_key :: "radix_config \<Rightarrow> radix_key \<Rightarrow> bool" where
  "whole_key cfg k \<longleftrightarrow> c_page_size cfg dvd key_len k \<and> (c_is_eagle cfg \<longrightarrow> is_bigram k)"

abbreviation stored :: "radix_config \<Rightarrow> radix \<Rightarrow> store" where
  "stored cfg s \<equiv> lookup (c_page_size cfg) (root_node s)"

lemma whole_key_convert: "whole_key cfg k \<Longrightarrow> maybe_bigram_convert cfg k val = (k, val)"
  by (auto simp: whole_key_def maybe_bigram_convert_def)

lemma inserted_store: "inserted P n x ts val = store_insert P (lookup P n) x ts val"
  by (simp add: fun_eq_iff inserted_def store_insert_def Let_def)

lemma match_prefix_spec:
  assumes "active cfg" "radix_wf cfg s" "whole_key cfg k"
  shows "\<exists>l s'. match_prefix cfg k s = (Inr (stored cfg s (extra_key k) (token_ids k), l), s')
      \<and> radix_wf cfg s' \<and> (\<forall>x ts. c_page_size cfg dvd length ts \<longrightarrow> stored cfg s' x ts = stored cfg s x ts)"
proof (cases "key_len k = 0")
  case True
  then show ?thesis using assms(2,3) whole_key_convert[OF assms(3)]
    by (simp add: match_prefix_def Let_def key_len_def key_take_def)
next
  case False
  let ?P = "c_page_size cfg"
  define k' where "k' = (if ?P \<noteq> 1 then key_take (key_len k div ?P * ?P) k else k)"
  have al: "key_len k div ?P * ?P = key_len k" using assms(3) by (simp add: whole_key_def)
  have k': "token_ids k' = token_ids k" "extra_key k' = extra_key k" "key_len k' = key_len k"
    using al by (simp_all add: k'_def key_take_def key_len_def)
  let ?b = "touch (c_clock cfg (r_readings s)) (root_node s)"
  have P: "0 < ?P" using assms(1) by (simp add: active_def)
  have wf: "wf_tree ?P ?b" using assms(2) by (simp add: radix_wf_def)
  have dv: "?P dvd key_len k'" using assms(3) k'(3) by (simp add: whole_key_def)
  obtain l sp b' where h: "match_prefix_helper ?P (node_maker cfg s) ?b k' =
        (Inr (lookup ?P ?b (extra_key k') (token_ids k'), l, sp), b')" "wf_tree ?P b'"
      "\<And>x ts. ?P dvd length ts \<Longrightarrow> lookup ?P b' x ts = lookup ?P ?b x ts"
    using match_prefix_helper_spec[OF P wf dv, of "node_maker cfg s"] by auto
  have "match_prefix cfg k s = (Inr (stored cfg s (extra_key k) (token_ids k), l),
      s\<lparr>root_node := b', r_readings := r_readings s + (if sp then 3 else 1),
        r_counter := r_counter s + (if sp then 1 else 0)\<rparr>)"
    unfolding match_prefix_def Let_def whole_key_convert[OF assms(3)] fst_conv k'_def[symmetric] k'(3)
    using h(1) False assms(1) k'(1,2) by (simp add: active_def)
  then show ?thesis using h(2,3) by (simp add: radix_wf_def)
qed

lemma radix_insert_spec:
  assumes "active cfg" "radix_wf cfg s" "whole_key cfg k" "length val = key_len k"
  shows "\<exists>s'. radix_insert cfg k val prio s = (Inr (length (stored cfg s (extra_key k) (token_ids k))), s')
      \<and> radix_wf cfg s'
      \<and> (\<forall>x ts. c_page_size cfg dvd length ts \<longrightarrow>
           stored cfg s' x ts = store_insert (c_page_size cfg) (stored cfg s) (extra_key k) (token_ids k) val x ts)
      \<and> evictable_size s' = evictable_size s + int (key_len k - length (stored cfg s (extra_key k) (token_ids k)))"
proof -
  let ?P = "c_page_size cfg"
  let ?b = "raise_priority prio (touch (c_clock cfg (r_readings s)) (root_node s))"
  have P: "0 < ?P" using assms(1) by (simp add: active_def)
  have wf: "wf_tree ?P ?b" using assms(2) by (simp add: radix_wf_def)
  have dv: "?P dvd key_len k" using assms(3) by (simp add: whole_key_def)
  have st: "lookup ?P ?b = stored cfg s" by (simp add: fun_eq_iff)
  obtain m b' where h: "insert_helper ?P (node_maker cfg s) prio ?b k val =
        (Inr (length (lookup ?P ?b (extra_key k) (token_ids k)), key_len k - length (lookup ?P ?b (extra_key k) (token_ids k)), m), b')"
      "wf_tree ?P b'" "\<And>y us. ?P dvd length us \<Longrightarrow> lookup ?P b' y us = inserted ?P ?b (extra_key k) (token_ids k) val y us"
    using insert_helper_spec[OF P wf dv assms(4), of "node_maker cfg s" prio] by auto
  show ?thesis
    using h assms(1) whole_key_convert[OF assms(3), of val]
    by (simp add: radix_insert_def Let_def active_def radix_wf_def inserted_store st)
qed

text \<open>The calls as functions from states to states.\<close>

definition radix_find :: "radix_config \<Rightarrow> radix \<Rightarrow> radix_key \<Rightarrow> int list \<times> radix" where
  "radix_find cfg s k = (case match_prefix cfg k s of (Inr (v, _), s') \<Rightarrow> (v, s') | (Inl _, s') \<Rightarrow> ([], s'))"

definition radix_add :: "radix_config \<Rightarrow> int \<Rightarrow> radix \<Rightarrow> radix_key \<Rightarrow> int list \<Rightarrow> nat \<times> radix" where
  "radix_add cfg prio s k val = (case radix_insert cfg k val prio s of (Inr n, s') \<Rightarrow> (n, s') | (Inl _, s') \<Rightarrow> (0, s'))"

interpretation rstore: prefix_store "c_page_size cfg" "\<lambda>s. active cfg \<and> radix_wf cfg s" "stored cfg" "radix_find cfg" "radix_add cfg prio" "whole_key cfg"
  for cfg prio
proof (unfold_locales, goal_cases)
  case (1 s)
  then show ?case by (simp add: active_def)
next
  case (2 k)
  then show ?case by (simp add: whole_key_def key_len_def)
next
  case (3 s ts x)
  then show ?case using length_lookup[of "c_page_size cfg" "root_node s" ts x] by (simp add: active_def radix_wf_def)
next
  case (4 s k)
  then show ?case using match_prefix_spec[of cfg s k] by (auto simp: radix_find_def)
next
  case (5 s k)
  then show ?case using match_prefix_spec[of cfg s k] by (auto simp: radix_find_def)
next
  case (6 s k ts x)
  then show ?case using match_prefix_spec[of cfg s k] by (auto simp: radix_find_def)
next
  case (7 s k val)
  then show ?case using radix_insert_spec[of cfg s k val prio] by (auto simp: radix_add_def key_len_def)
next
  case (8 s k val)
  then show ?case using radix_insert_spec[of cfg s k val prio] by (auto simp: radix_add_def key_len_def)
next
  case (9 s k val ts x)
  then show ?case using radix_insert_spec[of cfg s k val prio] by (auto simp: radix_add_def key_len_def)
qed

text \<open>
  C10: A match returns the slots of the longest cached prefix of the key in its namespace, for
  a key in whole pages, and leaves what is cached as it is, although it may split a node.
\<close>

theorem match_prefix_returns_stored:
  assumes "active cfg" "radix_wf cfg s" "whole_key cfg k"
  shows "\<exists>l s'. match_prefix cfg k s = (Inr (stored cfg s (extra_key k) (token_ids k), l), s')
      \<and> radix_wf cfg s' \<and> (\<forall>x ts. c_page_size cfg dvd length ts \<longrightarrow> stored cfg s' x ts = stored cfg s x ts)"
  by (rule match_prefix_spec[OF assms])

text \<open>
  C11: An insertion returns the length of the prefix that was cached, adds exactly the rest of
  the key with its slots (a match of the key then returns all of it, the old slots first), adds
  the new tokens to the evictable size, inserting the same key again changes nothing, and no
  other namespace sees it.
\<close>

theorem insert_extends_stored:
  assumes "active cfg" "radix_wf cfg s" "whole_key cfg k" "length val = length (token_ids k)"
  shows "\<exists>s'. radix_insert cfg k val prio s = (Inr (length (stored cfg s (extra_key k) (token_ids k))), s')
      \<and> radix_wf cfg s'
      \<and> (\<forall>x ts. c_page_size cfg dvd length ts \<longrightarrow>
           stored cfg s' x ts = store_insert (c_page_size cfg) (stored cfg s) (extra_key k) (token_ids k) val x ts)
      \<and> evictable_size s' = evictable_size s + int (length (token_ids k) - length (stored cfg s (extra_key k) (token_ids k)))
      \<and> fst (radix_find cfg s' k) = stored cfg s (extra_key k) (token_ids k)
            @ drop (length (stored cfg s (extra_key k) (token_ids k))) val
      \<and> fst (radix_add cfg prio' s' k val) = length (token_ids k)"
proof -
  obtain s' where s': "radix_insert cfg k val prio s = (Inr (length (stored cfg s (extra_key k) (token_ids k))), s')"
    "radix_wf cfg s'" "\<forall>x ts. c_page_size cfg dvd length ts \<longrightarrow>
           stored cfg s' x ts = store_insert (c_page_size cfg) (stored cfg s) (extra_key k) (token_ids k) val x ts"
    "evictable_size s' = evictable_size s + int (key_len k - length (stored cfg s (extra_key k) (token_ids k)))"
    using radix_insert_spec[OF assms(1-3), of val prio] assms(4) by (auto simp: key_len_def)
  have a: "snd (radix_add cfg prio s k val) = s'" "fst (radix_add cfg prio s k val) = length (stored cfg s (extra_key k) (token_ids k))"
    using s'(1) by (simp_all add: radix_add_def)
  show ?thesis
    using s' a rstore.add_then_find(1)[of cfg s k val prio] rstore.add_then_find(2)[of cfg s k val prio] assms
      rstore.find[of cfg s' k] rstore.add[of cfg s' k val prio']
    by (auto simp: key_len_def)
qed

section \<open>A small cache\<close>

definition demo_cfg :: radix_config where
  "demo_cfg = \<lparr>c_page_size = 1, c_disable = False, c_is_eagle = False, c_disable_finished_insert = False,
               c_policy = LRU, c_clock = real, c_pick = (\<lambda>_. 0)\<rparr>"

definition demo_key :: "int list \<Rightarrow> radix_key" where
  "demo_key ts = \<lparr>token_ids = map Tok ts, extra_key = None, is_bigram = False\<rparr>"

definition demo_start :: radix where
  "demo_start = reset demo_cfg \<lparr>root_node = RNode (new_info \<lparr>clock = real, readings = 0, counter = 0\<rparr> 0 0 (demo_key []) [] 0) [],
     evictable_size = 0, protected_size = 0, r_readings = 0, r_counter = 0,
     r_alloc = tok_init 8 False, r_rows = req_pool_init 2 8\<rparr>"

text \<open>The cache with slots 1, 2, 3 for the tokens 5, 6, 7.\<close>

definition demo_full :: radix where
  "demo_full = snd (radix_insert demo_cfg (demo_key [5, 6, 7]) [1, 2, 3] 0 demo_start)"

lemma demo_facts:
  "active demo_cfg" "radix_wf demo_cfg demo_start" "radix_wf demo_cfg demo_full"
  "whole_key demo_cfg (demo_key ts)"
  by (code_simp, code_simp, code_simp) (simp add: whole_key_def demo_cfg_def)

theorem match_prefix_returns_stored_witness:
  "\<exists>l s'. match_prefix demo_cfg (demo_key [5, 6, 8]) demo_full = (Inr ([1, 2], l), s')"
proof -
  have "stored demo_cfg demo_full (extra_key (demo_key [5, 6, 8])) (token_ids (demo_key [5, 6, 8])) = [1, 2]"
    by code_simp
  then show ?thesis using match_prefix_returns_stored[OF demo_facts(1,3,4), of "[5, 6, 8]"] by auto
qed

theorem insert_extends_stored_witness:
  "\<exists>s'. radix_insert demo_cfg (demo_key [5, 6, 8]) [4, 5, 6] 0 demo_full = (Inr 2, s')
     \<and> fst (radix_find demo_cfg s' (demo_key [5, 6, 8])) = [1, 2, 6]"
proof -
  have "stored demo_cfg demo_full (extra_key (demo_key [5, 6, 8])) (token_ids (demo_key [5, 6, 8])) = [1, 2]"
    by code_simp
  then show ?thesis
    using insert_extends_stored[OF demo_facts(1,3,4), of "[4, 5, 6]" "[5, 6, 8]" 0 0]
    by (auto simp: demo_key_def)
qed

end
