(* ===== verification/RadixGrow.thy ===== *)
theory RadixGrow
  imports RadixStore
begin

text \<open>
  How matching and insertion change the tree, as a relation between the trees before and after:
  access times and priorities along a path, at most one split, at most one new leaf. Sums over
  the nodes of a tree follow from it: the slots it holds, its locked and unlocked tokens, the
  numbers of its nodes.
\<close>

section \<open>One change of the tree\<close>

definition retouched :: "node_info \<Rightarrow> node_info \<Rightarrow> bool" where
  "retouched i j \<longleftrightarrow> j = i\<lparr>last_access_time := last_access_time j, priority := priority j\<rparr>"

inductive grow :: "nat \<Rightarrow> maker \<Rightarrow> rnode \<Rightarrow> rnode \<Rightarrow> bool \<Rightarrow> node_info option \<Rightarrow> bool" for P mk where
  same: "retouched i j \<Longrightarrow> grow P mk (RNode i ks) (RNode j ks) False None"
| leaf: "retouched i j \<Longrightarrow> map_of ks (get_child_key P (nkey l)) = None \<Longrightarrow> node_id l = counter mk \<Longrightarrow> lock_ref l = 0 \<Longrightarrow>
    grow P mk (RNode i ks) (RNode j (AList.update (get_child_key P (nkey l)) (RNode l []) ks)) False (Some l)"
| below: "retouched i j \<Longrightarrow> map_of ks ck = Some c \<Longrightarrow> grow P mk c c' b lf \<Longrightarrow>
    grow P mk (RNode i ks) (RNode j (AList.update ck c' ks)) b lf"
| split: "retouched i j \<Longrightarrow> map_of ks ck = Some c \<Longrightarrow> P dvd p \<Longrightarrow> 0 < p \<Longrightarrow> p < key_len (nkey (info c)) \<Longrightarrow>
    retouched (info c) (info d) \<Longrightarrow> kids d = kids c \<Longrightarrow>
    retouched (info (split_node P mk d p)) u \<Longrightarrow>
    grow P mk (RNode i ks) (RNode j (AList.update ck (RNode u (kids (split_node P mk d p))) ks)) True None"
| split_leaf: "retouched i j \<Longrightarrow> map_of ks ck = Some c \<Longrightarrow> P dvd p \<Longrightarrow> 0 < p \<Longrightarrow> p < key_len (nkey (info c)) \<Longrightarrow>
    retouched (info c) (info d) \<Longrightarrow> kids d = kids c \<Longrightarrow>
    retouched (info (split_node P mk d p)) u \<Longrightarrow>
    get_child_key P (nkey l) \<noteq> get_child_key P (key_drop p (nkey (info c))) \<Longrightarrow>
    node_id l = counter mk + 1 \<Longrightarrow> lock_ref l = 0 \<Longrightarrow>
    grow P mk (RNode i ks) (RNode j (AList.update ck
       (RNode u (kids (split_node P mk d p) @ [(get_child_key P (nkey l), RNode l [])])) ks)) True (Some l)"

lemma retouched_refl [simp]: "retouched i i"
  by (simp add: retouched_def)

lemma retouchedD:
  assumes "retouched i j"
  shows "node_id j = node_id i" "nkey j = nkey i" "nvalue j = nvalue i" "lock_ref j = lock_ref i"
    "hit_count j = hit_count i" "creation_time j = creation_time i"
proof -
  have "j = i\<lparr>last_access_time := last_access_time j, priority := priority j\<rparr>" using assms by (simp add: retouched_def)
  then show "node_id j = node_id i" "nkey j = nkey i" "nvalue j = nvalue i" "lock_ref j = lock_ref i"
    "hit_count j = hit_count i" "creation_time j = creation_time i"
    by (metis node_info.select_convs node_info.surjective node_info.update_convs)+
qed

lemma retouched_touch: "retouched (info n) (info (touch t n))" "retouched (info n) (info (raise_priority q n))"
  by (simp_all add: touch_def raise_priority_def retouched_def)

lemma retouched_trans: "retouched i j \<Longrightarrow> retouched j k \<Longrightarrow> retouched i k"
  by (cases i; cases j; cases k) (simp add: retouched_def)

lemma grow_info: "grow P mk n n' b lf \<Longrightarrow> retouched (info n) (info n')"
  by (induction rule: grow.induct) simp_all

text \<open>A further touch of the changed node.\<close>

lemma grow_retouch:
  assumes "grow P mk n n' b lf" "retouched (info n') j"
  shows "grow P mk n (RNode j (kids n')) b lf"
  using assms
proof (cases rule: grow.cases)
  case (same i j')
  then show ?thesis using assms(2) by (auto intro: grow.same retouched_trans)
next
  case (leaf i j' ks l)
  then show ?thesis using assms(2) by (auto intro!: grow.leaf elim: retouched_trans)
next
  case (below i j' ks ck c c')
  then show ?thesis using assms(2) by (auto intro!: grow.below elim: retouched_trans)
next
  case (split i j' ks ck c p d u)
  then show ?thesis using assms(2) grow.split[of i j ks ck c P p d mk u] retouched_trans[of i j' j] by auto
next
  case (split_leaf i j' ks ck c p d u l)
  then show ?thesis using assms(2) grow.split_leaf[of i j ks ck c P p d mk u l] retouched_trans[of i j' j] by auto
qed

lemma match_prefix_helper_grow:
  assumes "0 < P" "wf_tree P n" "P dvd key_len key" "match_prefix_helper P mk n key = (Inr (v, l, s), n')"
  shows "grow P mk n n' s None"
  using assms
proof (induction P mk n key arbitrary: v l s n' rule: match_prefix_helper.induct)
  case (1 P mk n key)
  let ?ts = "token_ids key" and ?x = "extra_key key" and ?t = "clock mk (readings mk)"
  obtain i ks where n: "n = RNode i ks" by (cases n)
  show ?case
  proof (cases "key_len key = 0 \<or> map_of (kids n) (get_child_key P key) = None")
    case True
    then have "n' = n" "s = False" using "1.prems"(4)
      by (auto simp: match_prefix_helper.simps[of P mk n key] split: option.splits)
    then show ?thesis by (simp add: n grow.same)
  next
    case False
    then obtain c where kne: "key_len key \<noteq> 0" and Some: "map_of (kids n) (get_child_key P key) = Some c" by auto
    have ne: "?ts \<noteq> []" using kne by (auto simp: key_len_def)
    have ck: "get_child_key P key = (?x, take P ?ts)" by (simp add: get_child_key_def)
    have dts: "P dvd length ?ts" using "1.prems"(3) by (simp add: key_len_def)
    note cm = child_match[OF "1.prems"(1,2) Some[unfolded ck] ne dts]
    note w = wf_child[OF "1.prems"(2) Some]
    define p where "p = match_tokens P (token_ids (nkey (info c))) ?ts"
    have km: "key_match P (nkey (info c)) key = Inr p" using cm(3) by (simp add: key_match_def p_def)
    note pr = match_tokens_props[OF "1.prems"(1) cm(1) dts, folded p_def]
    have pP: "0 < p" using cm(2) "1.prems"(1) by (simp add: p_def)
    have ckc: "get_child_key P (nkey (info c)) = get_child_key P key" using w(1) by simp
    show ?thesis
    proof (cases "p < key_len (nkey (info c))")
      case True
      let ?new = "split_node P mk (touch ?t c) p"
      have "n' = RNode (info n) (AList.update (get_child_key P key) ?new (kids n))" "s = True"
        using "1.prems"(4) kne Some km True ckc by (simp_all add: match_prefix_helper.simps[of P mk n key] Let_def)
      moreover have "RNode (info ?new) (kids ?new) = ?new" by simp
      moreover have "grow P mk (RNode i ks) (RNode i (AList.update (get_child_key P key) (RNode (info ?new) (kids ?new)) ks)) True None"
        using Some True pr(3) pP by (intro grow.split) (simp_all add: n retouched_touch)
      ultimately show ?thesis by (simp add: n)
    next
      case False
      have kd: "P dvd key_len (key_drop p key)" using "1.prems"(3) pr(3) by (simp add: key_len_def key_drop_def dvd_diff_nat)
      obtain v1 l1 s1 c' where rec: "match_prefix_helper P mk c (key_drop p key) = (Inr (v1, l1, s1), c')"
        using match_prefix_helper_spec[OF "1.prems"(1) w(3) kd] by blast
      have res: "n' = RNode (info n) (AList.update (get_child_key P key) (touch ?t c') (kids n))" "s = s1"
        using "1.prems"(4) kne Some km False rec by (simp_all add: match_prefix_helper.simps[of P mk n key] Let_def)
      have "grow P mk c c' s1 None"
        using "1.IH"[OF kne Some refl refl km False "1.prems"(1) w(3) kd rec] .
      from grow_retouch[OF this retouched_touch(1)[of c' ?t]] have "grow P mk c (touch ?t c') s1 None"
        by (simp add: touch_def)
      then show ?thesis using res Some by (auto simp: n intro: grow.below)
    qed
  qed
qed

lemma insert_helper_grow:
  assumes "0 < P" "wf_tree P n" "P dvd key_len key" "length val = key_len key"
    and "insert_helper P mk prio n key val = (Inr (q, l, m), n')"
  shows "\<exists>b lf. grow P mk n n' b lf \<and> m = of_bool b + of_bool (lf \<noteq> None) \<and> (lf = None) = (l = 0)
      \<and> (\<forall>i. lf = Some i \<longrightarrow> token_ids (nkey i) = drop q (token_ids key) \<and> nvalue i = drop q val)"
  using assms
proof (induction P mk prio n key val arbitrary: q l m n' rule: insert_helper.induct)
  case (1 P mk prio n key val)
  let ?ts = "token_ids key" and ?x = "extra_key key" and ?t = "clock mk (readings mk)"
  obtain i ks where n: "n = RNode i ks" by (cases n)
  show ?case
  proof (cases "key_len key = 0")
    case True
    then have "n' = n" "q = 0" "l = 0" "m = 0" using "1.prems"(5) by (simp_all add: insert_helper.simps[of P mk prio "RNode i ks" key val] n)
    then show ?thesis using grow.same[of i i P mk ks] by (auto simp: n)
  next
    case kne: False
    then have ne: "?ts \<noteq> []" by (auto simp: key_len_def)
    have ck: "get_child_key P key = (?x, take P ?ts)" by (simp add: get_child_key_def)
    have dts: "P dvd length ?ts" using "1.prems"(3) by (simp add: key_len_def)
    show ?thesis
    proof (cases "map_of (kids n) (get_child_key P key)")
      case None
      let ?l = "new_info mk 0 prio key val 0"
      have r: "q = 0" "l = key_len key" "m = 1" "n' = RNode i (AList.update (get_child_key P key) (RNode ?l []) ks)"
        using "1.prems"(5) kne None by (simp_all add: insert_helper.simps[of P mk prio "RNode i ks" key val] attach_leaf_def n)
      have "grow P mk (RNode i ks) (RNode i (AList.update (get_child_key P (nkey ?l)) (RNode ?l []) ks)) False (Some ?l)"
        using None by (intro grow.leaf) (simp_all add: n)
      then show ?thesis using r kne by (intro exI[of _ False] exI[of _ "Some ?l"]) (simp add: n)
    next
      case (Some c)
      note cm = child_match[OF "1.prems"(1,2) Some[unfolded ck] ne dts]
      note w = wf_child[OF "1.prems"(2) Some]
      define p where "p = match_tokens P (token_ids (nkey (info c))) ?ts"
      have km: "key_match P (nkey (info c)) key = Inr p" using cm(3) by (simp add: key_match_def p_def)
      note pr = match_tokens_props[OF "1.prems"(1) cm(1) dts, folded p_def]
      have pP: "0 < p" using cm(2) "1.prems"(1) by (simp add: p_def)
      have ckc: "get_child_key P (nkey (info c)) = get_child_key P key" using w(1) by simp
      have kd: "P dvd key_len (key_drop p key)" "length (drop p val) = key_len (key_drop p key)"
        "token_ids (key_drop p key) = drop p ?ts"
        using "1.prems"(3,4) pr(3) by (simp_all add: key_len_def key_drop_def dvd_diff_nat)
      show ?thesis
      proof (cases "p < key_len (nkey (info c))")
        case True
        let ?d = "touch ?t c"
        let ?u = "info (raise_priority prio (split_node P mk ?d p))"
        let ?sk = "kids (split_node P mk ?d p)"
        have u: "retouched (info (split_node P mk ?d p)) ?u" by (rule retouched_touch)
        show ?thesis
        proof (cases "key_len (key_drop p key) = 0")
          case z: True
          have "n' = RNode i (AList.update (get_child_key P key) (RNode ?u ?sk) ks)" "q = p" "l = 0" "m = 1"
            using "1.prems"(5) kne Some km True ckc z
            by (auto simp: insert_helper.simps[of P mk prio "RNode i ks" key val] Let_def attach_leaf_def n raise_priority_def)
          moreover have "grow P mk (RNode i ks) (RNode i (AList.update (get_child_key P key) (RNode ?u ?sk) ks)) True None"
            using Some True pr(3) pP u by (intro grow.split) (simp_all add: n retouched_touch)
          ultimately show ?thesis by (intro exI[of _ True] exI[of _ None]) (simp add: n)
        next
          case nz: False
          let ?l = "new_info mk 1 prio (key_drop p key) (drop p val) 0"
          have apart: "get_child_key P (key_drop p key) \<noteq> get_child_key P (key_drop p (nkey (info c)))"
            using match_tokens_max[OF "1.prems"(1) cm(1) dts p_def] True cm(5) nz
            by (auto simp: get_child_key_def key_drop_def key_len_def)
          have up: "AList.update (get_child_key P (key_drop p key)) (RNode ?l []) ?sk = ?sk @ [(get_child_key P (key_drop p key), RNode ?l [])]"
            using apart by (auto simp: split_node_simps)
          have "n' = RNode i (AList.update (get_child_key P key) (RNode ?u (?sk @ [(get_child_key P (nkey ?l), RNode ?l [])])) ks)"
            "q = p" "l = key_len (key_drop p key)" "m = 2"
            using "1.prems"(5) kne Some km True ckc nz up
            by (auto simp: insert_helper.simps[of P mk prio "RNode i ks" key val] Let_def attach_leaf_def n raise_priority_def)
          moreover have "grow P mk (RNode i ks)
              (RNode i (AList.update (get_child_key P key) (RNode ?u (?sk @ [(get_child_key P (nkey ?l), RNode ?l [])])) ks)) True (Some ?l)"
            using Some True pr(3) pP u apart by (intro grow.split_leaf) (simp_all add: n retouched_touch)
          ultimately show ?thesis using nz kd(3) by (intro exI[of _ True] exI[of _ "Some ?l"]) (simp add: n)
        qed
      next
        case False
        obtain m1 c' where rec: "insert_helper P mk prio c (key_drop p key) (drop p val) =
            (Inr (length (lookup P c (extra_key (key_drop p key)) (token_ids (key_drop p key))),
              key_len (key_drop p key) - length (lookup P c (extra_key (key_drop p key)) (token_ids (key_drop p key))), m1), c')"
          using insert_helper_spec[OF "1.prems"(1) w(3) kd(1,2)] by blast
        let ?c' = "raise_priority prio (touch ?t c')"
        define q1 where "q1 = length (lookup P c (extra_key (key_drop p key)) (token_ids (key_drop p key)))"
        define l1 where "l1 = key_len (key_drop p key) - q1"
        note rec' = rec[folded q1_def, folded l1_def]
        have res: "n' = RNode i (AList.update (get_child_key P key) ?c' ks)" "q = p + q1" "l = l1" "m = m1"
          using "1.prems"(5) kne Some km False rec' by (simp_all add: insert_helper.simps[of P mk prio "RNode i ks" key val] Let_def n)
        obtain b lf where g: "grow P mk c c' b lf" "m1 = of_bool b + of_bool (lf \<noteq> None)" "(lf = None) = (l1 = 0)"
          "\<forall>i. lf = Some i \<longrightarrow> token_ids (nkey i) = drop q1 (token_ids (key_drop p key)) \<and> nvalue i = drop q1 (drop p val)"
          using "1.IH"[OF kne Some refl refl km refl refl False "1.prems"(1) w(3) kd(1,2) rec'] by blast
        have rt: "retouched (info c') (info ?c')"
          by (rule retouched_trans[OF retouched_touch(1)[of c' ?t] retouched_touch(2)])
        from grow_retouch[OF g(1) rt] have "grow P mk c ?c' b lf" by (simp add: raise_priority_def touch_def)
        then have "grow P mk (RNode i ks) (RNode i (AList.update (get_child_key P key) ?c' ks)) b lf"
          using Some by (intro grow.below) (simp_all add: n)
        then show ?thesis using res g(2-4) kd(3)
          by (intro exI[of _ b] exI[of _ lf]) (simp add: n add.commute)
      qed
    qed
  qed
qed

end
