(* ===== verification/RadixSums.thy ===== *)
theory RadixSums
  imports RadixGrow
begin

text \<open>
  Quantities summed over the nodes of the radix tree, and how matching and insertion change them:
  the tokens that are locked and that are not, the slots, and the numbers of the nodes.
\<close>

section \<open>Sums over the nodes below the root\<close>

fun below_sum :: "(node_info \<Rightarrow> 'b) \<Rightarrow> rnode \<Rightarrow> 'b::comm_monoid_add" where
  "below_sum f (RNode i ks) = sum_list (map (\<lambda>(ck, c). f (info c) + below_sum f c) ks)"

definition node_sum :: "(node_info \<Rightarrow> 'b) \<Rightarrow> rnode \<Rightarrow> 'b::comm_monoid_add" where
  "node_sum f n = f (info n) + below_sum f n"

lemma below_sum_node_sum: "below_sum f (RNode i ks) = sum_list (map (node_sum f \<circ> snd) ks)"
  by (simp add: node_sum_def case_prod_unfold comp_def)

lemma below_sum_update:
  assumes "distinct (map fst ks)" "map_of ks ck = Some c"
  shows "\<exists>R. below_sum f (RNode i ks) = node_sum f c + R
      \<and> (\<forall>j c'. below_sum f (RNode j (AList.update ck c' ks)) = node_sum f c' + R)"
  using assms
proof (induction ks)
  case (Cons a ks)
  obtain k d where a: "a = (k, d)" by (cases a)
  show ?case
  proof (cases "k = ck")
    case True
    then have "c = d" using Cons.prems a by simp
    then show ?thesis using True a
      by (intro exI[of _ "below_sum f (RNode i ks)"]) (simp del: below_sum.simps add: below_sum_node_sum)
  next
    case False
    then have "map_of ks ck = Some c" "distinct (map fst ks)" using Cons.prems a by simp_all
    then obtain R where R: "below_sum f (RNode i ks) = node_sum f c + R"
      "\<And>j c'. below_sum f (RNode j (AList.update ck c' ks)) = node_sum f c' + R"
      using Cons.IH by blast
    show ?thesis using R False a
      by (intro exI[of _ "node_sum f d + R"]) (simp del: below_sum.simps add: below_sum_node_sum ac_simps)
  qed
qed simp

lemma below_sum_new:
  "map_of ks ck = None \<Longrightarrow> below_sum f (RNode j (AList.update ck c ks)) = below_sum f (RNode i ks) + node_sum f c"
  by (induction ks) (auto simp: node_sum_def ac_simps split: if_splits)

lemma sum_list_concat: "sum_list (map h (concat xss)) = sum_list (map (sum_list \<circ> map h) xss)"
  for h :: "'a \<Rightarrow> 'b::comm_monoid_add"
  by (induction xss) simp_all

lemma sum_nodes: "sum_list (map (f \<circ> info) (nodes n)) = node_sum f n"
proof (induction n rule: nodes.induct)
  case (1 i ks)
  have "sum_list (map (f \<circ> info) (nodes c)) = node_sum f c" if "(ck, c) \<in> set ks" for ck c
    using 1 that by blast
  then have "map (sum_list \<circ> map (f \<circ> info) \<circ> (\<lambda>(ck, c). nodes c)) ks = map (node_sum f \<circ> snd) ks" by auto
  then have "sum_list (map (f \<circ> info) (concat (map (\<lambda>(ck, c). nodes c) ks))) = below_sum f (RNode i ks)"
    unfolding sum_list_concat below_sum_node_sum map_map by (rule arg_cong)
  then show ?case by (simp add: node_sum_def comp_def)
qed

lemma mset_tree_ids: "mset (tree_ids n) = node_sum (\<lambda>i. {#node_id i#}) n"
proof -
  have "mset xs = sum_list (map (\<lambda>x. {#x#}) xs)" for xs :: "nat list" by (induction xs) simp_all
  from this[of "tree_ids n"] show ?thesis
    by (simp add: tree_ids_def sum_nodes[symmetric] comp_def)
qed

text \<open>
  A quantity of nodes that does not look at access times and priorities, and that a split
  divides between the two parts, up to a contribution of the new number.
\<close>

locale node_measure =
  fixes f :: "node_info \<Rightarrow> 'b::comm_monoid_add" and born :: "nat \<Rightarrow> 'b"
  assumes touch: "retouched i j \<Longrightarrow> f j = f i"
    and divide: "p < key_len (nkey i) \<Longrightarrow> length (nvalue i) = key_len (nkey i) \<Longrightarrow>
      f (new_info mk 0 q (key_take p (nkey i)) (take p (nvalue i)) (lock_ref i))
      + f (i\<lparr>nkey := key_drop p (nkey i), nvalue := drop p (nvalue i)\<rparr>) = f i + born (counter mk)"
begin

lemma split_sum:
  assumes "p < key_len (nkey (info c))" "good_node P (info c)" "retouched (info c) (info d)" "kids d = kids c"
    and "retouched (info (split_node P mk d p)) u"
  shows "f u + below_sum f (RNode u (kids (split_node P mk d p))) = node_sum f c + born (counter mk)"
proof -
  note r = retouchedD[OF assms(3)]
  have "f (info (split_node P mk d p)) + f (info (lower_part p d)) = f (info d) + born (counter mk)"
    using divide[of p "info d" mk "priority (info d)"] assms(1,2) r
    by (simp add: split_node_def Let_def lower_part_def good_node_def)
  moreover have "below_sum f (lower_part p d) = below_sum f c"
    using assms(4) by (cases c) (simp add: lower_part_def)
  ultimately show ?thesis using touch[OF assms(5)] touch[OF assms(3)]
    by (simp add: split_node_simps node_sum_def add.assoc[symmetric]) (metis add.assoc add.commute)
qed

lemma grow_sum:
  assumes "grow P mk n n' b lf" "wf_tree P n"
  shows "below_sum f n' = below_sum f n + (if b then born (counter mk) else 0) + (case lf of None \<Rightarrow> 0 | Some l \<Rightarrow> f l)"
  using assms
proof (induction rule: grow.induct)
  case (leaf i j ks l)
  then show ?case using below_sum_new[OF leaf(2), of f j _ i] by (simp add: node_sum_def)
next
  case (below i j ks ck c c' b lf)
  have w: "wf_tree P c" using wf_child(3)[OF below.prems] below.hyps(2) by simp
  have "node_sum f c' = node_sum f c + (if b then born (counter mk) else 0) + (case lf of None \<Rightarrow> 0 | Some l \<Rightarrow> f l)"
    using below.IH[OF w] touch[OF grow_info[OF below.hyps(3)]] by (simp add: node_sum_def ac_simps)
  then show ?case using below_sum_update[of ks ck c f i] below.prems below.hyps(2) by (auto simp: ac_simps simp del: below_sum.simps)
next
  case (split i j ks ck c p d u)
  have g: "good_node P (info c)" using wf_child(2)[OF split.prems] split.hyps(2) by simp
  show ?case using split_sum[OF split.hyps(5) g split.hyps(6-8)] below_sum_update[of ks ck c f i] split.prems split.hyps(2)
    by (auto simp: node_sum_def ac_simps simp del: below_sum.simps)
next
  case (split_leaf i j ks ck c p d u l)
  have g: "good_node P (info c)" using wf_child(2)[OF split_leaf.prems] split_leaf.hyps(2) by simp
  have "below_sum f (RNode u (kids (split_node P mk d p) @ [(get_child_key P (nkey l), RNode l [])])) =
      below_sum f (RNode u (kids (split_node P mk d p))) + f l"
    by (simp add: below_sum_node_sum node_sum_def)
  then show ?case
    using split_sum[OF split_leaf.hyps(5) g split_leaf.hyps(6-8)] below_sum_update[of ks ck c f i] split_leaf.prems split_leaf.hyps(2)
    by (auto simp: node_sum_def ac_simps simp del: below_sum.simps)
qed simp_all

end

definition unlocked_tokens :: "node_info \<Rightarrow> int" where
  "unlocked_tokens i = (if lock_ref i = 0 then int (key_len (nkey i)) else 0)"

definition locked_tokens :: "node_info \<Rightarrow> int" where
  "locked_tokens i = (if lock_ref i = 0 then 0 else int (key_len (nkey i)))"

definition node_slots :: "node_info \<Rightarrow> int multiset" where
  "node_slots i = mset (nvalue i)"

interpretation unlocked: node_measure unlocked_tokens "\<lambda>_. 0"
  by unfold_locales (auto simp: unlocked_tokens_def key_len_def key_take_def key_drop_def dest: retouchedD)

interpretation locked: node_measure locked_tokens "\<lambda>_. 0"
  by unfold_locales (auto simp: locked_tokens_def key_len_def key_take_def key_drop_def dest: retouchedD)

interpretation slots: node_measure node_slots "\<lambda>_. {#}"
  by unfold_locales (auto simp: node_slots_def simp flip: mset_append dest: retouchedD)

interpretation ids: node_measure "\<lambda>i. {#node_id i#}" "\<lambda>c. {#c#}"
  by unfold_locales (auto dest: retouchedD)

end
