(* ===== verification/RadixLocks.thy ===== *)
theory RadixLocks
  imports RadixSums
begin

text \<open>
  The reference locks of the radix tree. Running requests hold nodes; the counter of a node is
  the number of holders at or below it. From this follow the two sizes that the cache keeps.
\<close>

section \<open>Holders\<close>

text \<open>The holders, with their multiplicity, at or below a node.\<close>

definition held :: "nat multiset \<Rightarrow> rnode \<Rightarrow> nat" where
  "held H n = size {#h \<in># H. h \<in> set (tree_ids n)#}"

fun locks_ok :: "nat multiset \<Rightarrow> rnode \<Rightarrow> bool" where
  "locks_ok H (RNode i ks) \<longleftrightarrow> list_all (\<lambda>(ck, c). lock_ref (info c) = int (held H c) \<and> locks_ok H c) ks"

lemma tree_ids_RNode: "tree_ids (RNode i ks) = node_id i # concat (map (tree_ids \<circ> snd) ks)"
  by (simp add: tree_ids_def map_concat comp_def case_prod_unfold)

lemma tree_ids_info: "node_id (info n) \<in> set (tree_ids n)"
  by (cases n) (simp add: tree_ids_RNode)

lemma held_cong: "set (tree_ids n) \<inter> set_mset H = set (tree_ids m) \<inter> set_mset H \<Longrightarrow> held H n = held H m"
  unfolding held_def by (metis (no_types, lifting) Int_iff filter_mset_cong)

lemma tree_ids_child: "(ck, c) \<in> set ks \<Longrightarrow> h \<in> set (tree_ids c) \<Longrightarrow> h \<in> set (tree_ids (RNode i ks))"
  by (fastforce simp: tree_ids_RNode)

lemma held_child: "(ck, c) \<in> set ks \<Longrightarrow> held H c \<le> held H (RNode i ks)"
  unfolding held_def by (intro size_mset_mono filter_mset_mono_strong multiset_filter_mono) (auto intro: tree_ids_child)

lemma held_add: "held (add_mset h H) n = held H n + of_bool (h \<in> set (tree_ids n))"
  by (simp add: held_def)

lemma locks_ok_kids: "locks_ok H (RNode i ks) = locks_ok H (RNode j ks)"
  by simp

lemma locks_ok_update:
  assumes "locks_ok H (RNode i ks)" "lock_ref (info c) = int (held H c)" "locks_ok H c"
  shows "locks_ok H (RNode j (AList.update ck c ks))"
proof -
  have "(k, d) \<in> set (AList.update ck c ks) \<Longrightarrow> (k, d) = (ck, c) \<or> (k, d) \<in> set ks" for k d
    by (induction ks) (auto split: if_splits)
  then show ?thesis using assms by (fastforce simp: list_all_iff)
qed

text \<open>Matching and insertion keep the counters right: a new node has no holder of its own.\<close>

lemma grow_ids:
  assumes "grow P mk n n' b lf" "wf_tree P n"
  shows "mset (tree_ids n') = mset (tree_ids n) + (if b then {#counter mk#} else {#})
      + (case lf of None \<Rightarrow> {#} | Some l \<Rightarrow> {#node_id l#})"
  using ids.grow_sum[OF assms] retouchedD(1)[OF grow_info[OF assms(1)]]
  by (cases lf) (simp_all add: mset_tree_ids node_sum_def)

lemma grow_leaf_id:
  "grow P mk n n' b lf \<Longrightarrow> lf = Some l \<Longrightarrow> node_id l = counter mk + of_bool b \<and> lock_ref l = 0"
  by (induction rule: grow.induct) auto

lemma grow_held:
  assumes "grow P mk n n' b lf" "wf_tree P n" "\<And>h. h \<in># H \<Longrightarrow> h < counter mk"
  shows "held H n' = held H n"
proof (rule held_cong)
  have "set (tree_ids n') = set (tree_ids n) \<union> (if b then {counter mk} else {}) \<union>
      (case lf of None \<Rightarrow> {} | Some l \<Rightarrow> {node_id l})"
    using arg_cong[OF grow_ids[OF assms(1,2)], of set_mset] by (cases lf; cases b) simp_all
  then show "set (tree_ids n') \<inter> set_mset H = set (tree_ids n) \<inter> set_mset H"
    using grow_leaf_id[OF assms(1)] assms(3) by (cases lf) (fastforce split: if_splits)+
qed

lemma held_new_leaf: "\<forall>h. h \<in># H \<longrightarrow> h < counter mk \<Longrightarrow> counter mk \<le> node_id l \<Longrightarrow> held H (RNode l []) = 0"
  by (auto simp: held_def tree_ids_RNode filter_mset_eq_mempty_iff)

lemma split_locks:
  assumes "retouched (info c) (info d)" "kids d = kids c" "retouched (info (split_node P mk d p)) u"
    and "lock_ref (info c) = int (held H c)" "locks_ok H c" "\<And>h. h \<in># H \<Longrightarrow> h < counter mk"
    and "es = [] \<or> (\<exists>ck l. es = [(ck, RNode l [])] \<and> lock_ref l = 0 \<and> counter mk \<le> node_id l)"
  defines "n \<equiv> RNode u (kids (split_node P mk d p) @ es)"
  shows "lock_ref (info n) = int (held H n)" "locks_ok H n"
proof -
  let ?low = "lower_part p d"
  note r = retouchedD[OF assms(1)] and ru = retouchedD[OF assms(3)]
  obtain i ks where c: "c = RNode i ks" by (cases c)
  have low: "tree_ids ?low = tree_ids c" "locks_ok H ?low" "lock_ref (info ?low) = lock_ref (info c)"
    using assms(2,5) r by (simp_all add: lower_part_def tree_ids_RNode c)
  have hlow: "held H ?low = held H c" by (simp add: held_def low(1))
  have es: "\<And>ck e h. (ck, e) \<in> set es \<Longrightarrow> h \<in># H \<Longrightarrow> h \<notin> set (tree_ids e)"
    "list_all (\<lambda>(ck, c). lock_ref (info c) = int (held H c) \<and> locks_ok H c) es"
    using assms(6,7) held_new_leaf[of H mk] by (fastforce simp: tree_ids_RNode)+
  have new: "node_id u = counter mk" "lock_ref u = lock_ref (info c)" using ru r(4) by (simp_all add: split_node_def Let_def)
  have "held H n = held H c"
    by (rule held_cong) (use es(1) assms(6) new(1) low(1) in \<open>fastforce simp: n_def tree_ids_RNode split_node_simps\<close>)
  then show "lock_ref (info n) = int (held H n)" using new(2) assms(4) by (simp add: n_def)
  show "locks_ok H n" using es(2) low(2,3) hlow assms(4) by (simp add: n_def split_node_simps)
qed

lemma grow_locks:
  assumes "grow P mk n n' b lf" "wf_tree P n" "locks_ok H n" "\<And>h. h \<in># H \<Longrightarrow> h < counter mk"
  shows "locks_ok H n'"
  using assms(1-3)
proof (induction rule: grow.induct)
  case (leaf i j ks l)
  then show ?case using held_new_leaf[of H mk l] assms(4) by (intro locks_ok_update) auto
next
  case (below i j ks ck c c' b lf)
  have m: "(ck, c) \<in> set ks" using map_of_SomeD[OF below.hyps(2)] .
  have w: "wf_tree P c" using wf_child(3)[OF below.prems(1)] below.hyps(2) by simp
  have c: "lock_ref (info c) = int (held H c)" "locks_ok H c" using below.prems(2) m by (auto simp: list_all_iff)
  show ?case using locks_ok_update[OF below.prems(2), of c' j ck] below.IH[OF w c(2)] c(1)
      grow_held[OF below.hyps(3) w assms(4)] retouchedD(4)[OF grow_info[OF below.hyps(3)]] by simp
next
  case (split i j ks ck c p d u)
  have "(ck, c) \<in> set ks" using map_of_SomeD[OF split.hyps(2)] .
  then have c: "lock_ref (info c) = int (held H c)" "locks_ok H c" using split.prems(2) by (auto simp: list_all_iff)
  show ?case using locks_ok_update[OF split.prems(2)] split_locks[OF split.hyps(6-8) c assms(4), of "[]"] by simp
next
  case (split_leaf i j ks ck c p d u l)
  have "(ck, c) \<in> set ks" using map_of_SomeD[OF split_leaf.hyps(2)] .
  then have c: "lock_ref (info c) = int (held H c)" "locks_ok H c" using split_leaf.prems(2) by (auto simp: list_all_iff)
  show ?case using split_leaf.hyps(10,11)
    by (intro locks_ok_update[OF split_leaf.prems(2)] split_locks[OF split_leaf.hyps(6-8) c assms(4)]) auto
qed simp_all

section \<open>The walk of a lock\<close>

lemma rnode_induct [case_names RNode]:
  assumes "\<And>i ks. (\<And>ck c. (ck, c) \<in> set ks \<Longrightarrow> Q c) \<Longrightarrow> Q (RNode i ks)"
  shows "Q n"
  by (induction n rule: nodes.induct) (auto intro: assms)

definition lock_kid :: "nat \<Rightarrow> int \<Rightarrow> int \<Rightarrow> rnode \<Rightarrow> rnode" where
  "lock_kid t d L c =
     (if t \<in> set (tree_ids c)
      then RNode ((info c)\<lparr>lock_ref := lock_ref (info c) + d\<rparr>) (kids (fst (lock_path t d L c))) else c)"

definition lock_tokens :: "nat \<Rightarrow> int \<Rightarrow> int \<Rightarrow> rnode \<Rightarrow> nat" where
  "lock_tokens t d L c =
     (if t \<in> set (tree_ids c)
      then snd (lock_path t d L c) + (if lock_ref (info c) = L then key_len (nkey (info c)) else 0) else 0)"

lemma lock_path_info [simp]: "info (fst (lock_path t d L n)) = info n"
  by (cases n) (simp add: Let_def)

lemma lock_path_kids:
  "fst (lock_path t d L (RNode i ks)) = RNode i (map (\<lambda>(ck, c). (ck, lock_kid t d L c)) ks)"
  "snd (lock_path t d L (RNode i ks)) = sum_list (map (lock_tokens t d L \<circ> snd) ks)"
  by (auto simp: Let_def lock_kid_def lock_tokens_def case_prod_unfold intro!: arg_cong[where f = sum_list])

declare lock_path.simps [simp del]

lemma lock_kid_simps:
  "node_id (info (lock_kid t d L c)) = node_id (info c)" "nkey (info (lock_kid t d L c)) = nkey (info c)"
  "nvalue (info (lock_kid t d L c)) = nvalue (info c)"
  "lock_ref (info (lock_kid t d L c)) = lock_ref (info c) + (if t \<in> set (tree_ids c) then d else 0)"
  by (simp_all add: lock_kid_def)

lemma kids_lock_kid: "kids (lock_kid t d L c) = (if t \<in> set (tree_ids c) then kids (fst (lock_path t d L c)) else kids c)"
  by (simp add: lock_kid_def)

lemma wf_tree_kids: "kids n = kids m \<Longrightarrow> wf_tree P n = wf_tree P m"
  by (cases n; cases m) simp

lemma tree_ids_kids: "kids n = kids m \<Longrightarrow> node_id (info n) = node_id (info m) \<Longrightarrow> tree_ids n = tree_ids m"
  by (cases n; cases m) (simp add: tree_ids_RNode)

lemma lock_path_ids: "tree_ids (fst (lock_path t d L n)) = tree_ids n"
proof (induction n rule: rnode_induct)
  case (RNode i ks)
  have "tree_ids (lock_kid t d L c) = tree_ids c" if "(ck, c) \<in> set ks" for ck c
    using RNode[OF that] tree_ids_kids[of "lock_kid t d L c" "fst (lock_path t d L c)"]
      tree_ids_kids[of "lock_kid t d L c" c] by (cases "t \<in> set (tree_ids c)") (simp_all add: kids_lock_kid lock_kid_simps)
  then show ?case by (auto simp: lock_path_kids tree_ids_RNode intro!: arg_cong[where f = concat])
qed

lemma lock_kid_ids [simp]: "tree_ids (lock_kid t d L c) = tree_ids c"
  using tree_ids_kids[of "lock_kid t d L c" "fst (lock_path t d L c)"]
    tree_ids_kids[of "lock_kid t d L c" c] by (cases "t \<in> set (tree_ids c)") (simp_all add: kids_lock_kid lock_kid_simps lock_path_ids)

lemma lock_path_wf: "wf_tree P n \<Longrightarrow> wf_tree P (fst (lock_path t d L n))"
proof (induction n rule: rnode_induct)
  case (RNode i ks)
  have "wf_tree P (lock_kid t d L c)" if "(ck, c) \<in> set ks" for ck c
  proof -
    have "wf_tree P c" using RNode.prems that by (auto simp: list_all_iff)
    then show ?thesis using RNode.IH[OF that] wf_tree_kids[of "lock_kid t d L c" "fst (lock_path t d L c)"]
      wf_tree_kids[of "lock_kid t d L c" c] by (cases "t \<in> set (tree_ids c)") (simp_all add: kids_lock_kid)
  qed
  moreover have "good_node P (info (lock_kid t d L c)) = good_node P (info c)" for c by (simp add: good_node_def lock_kid_simps)
  ultimately show ?case using RNode.prems
    by (auto simp: lock_path_kids list_all_iff lock_kid_simps comp_def case_prod_unfold)
qed

lemma map_of_map_snd: "map_of (map (\<lambda>(k, v). (k, f v)) xs) k = map_option f (map_of xs k)"
  by (induction xs) auto

lemma lock_path_lookup: "lookup P (fst (lock_path t d L n)) x ts = lookup P n x ts"
proof (induction n arbitrary: ts rule: rnode_induct)
  case (RNode i ks)
  show ?case
  proof (cases "map_of ks (x, take P ts)")
    case None
    then show ?thesis by (simp add: lookup_None lock_path_kids map_of_map_snd)
  next
    case (Some c)
    have "lookup P (lock_kid t d L c) x us = lookup P c x us" for us
      using RNode[OF map_of_SomeD[OF Some], of us] lookup_kids_cong[of "lock_kid t d L c" x P us]
      by (cases "t \<in> set (tree_ids c)") (simp_all add: kids_lock_kid)
    then show ?thesis
      by (intro lookup_child_cong[of _ x P ts "lock_kid t d L c" _ c]) (simp_all add: lock_path_kids map_of_map_snd Some lock_kid_simps)
  qed
qed

text \<open>A walk moves the counters as one holder more, or one less, does.\<close>

lemma locks_ok_absent: "t \<notin> set (tree_ids n) \<Longrightarrow> locks_ok (add_mset t H) n = locks_ok H n"
proof (induction n rule: rnode_induct)
  case (RNode i ks)
  have "t \<notin> set (tree_ids c)" if "(ck, c) \<in> set ks" for ck c using RNode.prems tree_ids_child[OF that] by blast
  then show ?case using RNode.IH by (auto simp: list_all_iff held_add)
qed

lemma locks_ok_kid:
  assumes "locks_ok G (fst (lock_path t d L c)) " "t \<notin> set (tree_ids c) \<Longrightarrow> locks_ok G c"
  shows "locks_ok G (lock_kid t d L c)"
  using assms by (cases "fst (lock_path t d L c)") (auto simp: lock_kid_def)

lemma lock_path_inc:
  "locks_ok H n \<Longrightarrow> locks_ok (add_mset t H) (fst (lock_path t 1 L n))"
proof (induction n rule: rnode_induct)
  case (RNode i ks)
  have "locks_ok (add_mset t H) (lock_kid t 1 L c) \<and> lock_ref (info (lock_kid t 1 L c)) = int (held (add_mset t H) (lock_kid t 1 L c))"
    if "(ck, c) \<in> set ks" for ck c
  proof -
    have "locks_ok H c" "lock_ref (info c) = int (held H c)" using RNode.prems that by (auto simp: list_all_iff)
    moreover have "held (add_mset t H) (lock_kid t 1 L c) = held (add_mset t H) c" by (simp add: held_def)
    ultimately show ?thesis using RNode.IH[OF that] locks_ok_kid[of "add_mset t H" t 1 L c] locks_ok_absent[of t c H]
      by (simp add: lock_kid_simps held_add)
  qed
  then show ?case by (auto simp: lock_path_kids list_all_iff)
qed

lemma lock_path_dec:
  "locks_ok (add_mset t H) n \<Longrightarrow> locks_ok H (fst (lock_path t (- 1) L n))"
proof (induction n rule: rnode_induct)
  case (RNode i ks)
  have "locks_ok H (lock_kid t (- 1) L c) \<and> lock_ref (info (lock_kid t (- 1) L c)) = int (held H (lock_kid t (- 1) L c))"
    if "(ck, c) \<in> set ks" for ck c
  proof -
    have "locks_ok (add_mset t H) c" "lock_ref (info c) = int (held (add_mset t H) c)" using RNode.prems that by (auto simp: list_all_iff)
    moreover have "held H (lock_kid t (- 1) L c) = held H c" by (simp add: held_def)
    ultimately show ?thesis using RNode.IH[OF that] locks_ok_kid[of H t "- 1" L c] locks_ok_absent[of t c H]
      by (simp add: lock_kid_simps held_add)
  qed
  then show ?case by (auto simp: lock_path_kids list_all_iff)
qed

text \<open>What the walk counts is what changes from unlocked to locked, and back.\<close>

lemma below_sum_kids: "kids n = kids m \<Longrightarrow> below_sum f n = below_sum f m"
  by (cases n; cases m) simp

lemma sum_list_scaled: "sum_list (map (\<lambda>x. g x + a * int (h x)) xs) = sum_list (map g xs) + a * int (sum_list (map h xs))"
  by (induction xs) (simp_all add: algebra_simps)

lemma lock_path_sum:
  fixes f :: "node_info \<Rightarrow> int"
  assumes "locks_ok H n"
    and "\<And>c. lock_ref (info c) = int (held H c) \<Longrightarrow> t \<in> set (tree_ids c) \<Longrightarrow>
      f ((info c)\<lparr>lock_ref := lock_ref (info c) + d\<rparr>) = f (info c) + a * (if lock_ref (info c) = L then int (key_len (nkey (info c))) else 0)"
  shows "below_sum f (fst (lock_path t d L n)) = below_sum f n + a * int (snd (lock_path t d L n))"
  using assms(1)
proof (induction n rule: rnode_induct)
  case (RNode i ks)
  have "node_sum f (lock_kid t d L c) = node_sum f c + a * int (lock_tokens t d L c)" if "(ck, c) \<in> set ks" for ck c
  proof -
    have c: "locks_ok H c" "lock_ref (info c) = int (held H c)" using RNode.prems that by (auto simp: list_all_iff)
    show ?thesis using RNode.IH[OF that c(1)] assms(2)[OF c(2)]
      below_sum_kids[of "RNode ((info c)\<lparr>lock_ref := lock_ref (info c) + d\<rparr>) (kids (fst (lock_path t d L c)))" "fst (lock_path t d L c)" f]
      by (simp add: node_sum_def lock_kid_def lock_tokens_def algebra_simps del: below_sum.simps)
  qed
  then have m: "map (node_sum f \<circ> snd) (map (\<lambda>(ck, c). (ck, lock_kid t d L c)) ks) =
      map (\<lambda>x. node_sum f (snd x) + a * int (lock_tokens t d L (snd x))) ks" by auto
  then show ?case
    unfolding lock_path_kids below_sum_node_sum m sum_list_scaled by (simp add: comp_def)
qed

lemma lock_path_slots: "below_sum node_slots (fst (lock_path t d L n)) = below_sum node_slots n"
proof (induction n rule: rnode_induct)
  case (RNode i ks)
  have i: "node_slots (info (lock_kid t d L c)) = node_slots (info c)" for c by (simp add: node_slots_def lock_kid_simps)
  have "node_sum node_slots (lock_kid t d L c) = node_sum node_slots c" if "(ck, c) \<in> set ks" for ck c
    using RNode[OF that] below_sum_kids[of "lock_kid t d L c" "fst (lock_path t d L c)" node_slots]
      below_sum_kids[of "lock_kid t d L c" c node_slots]
    by (cases "t \<in> set (tree_ids c)") (simp_all add: node_sum_def kids_lock_kid i)
  then have m: "map (node_sum node_slots \<circ> snd) (map (\<lambda>(ck, c). (ck, lock_kid t d L c)) ks) = map (node_sum node_slots \<circ> snd) ks"
    by auto
  show ?case unfolding lock_path_kids below_sum_node_sum m ..
qed

section \<open>The invariant of the cache\<close>

text \<open>
  The tree is well formed, its nodes have different numbers from before the next one, the counters
  are the numbers of holders, every holder's node is in the tree, and the two sizes are the numbers
  of unlocked and of locked tokens.
\<close>

definition radix_ok :: "radix_config \<Rightarrow> nat multiset \<Rightarrow> radix \<Rightarrow> bool" where
  "radix_ok cfg H s \<longleftrightarrow>
     radix_wf cfg s \<and> distinct (tree_ids (root_node s)) \<and> (\<forall>i \<in> set (tree_ids (root_node s)). i < r_counter s)
     \<and> lock_ref (info (root_node s)) = 1 \<and> locks_ok H (root_node s) \<and> set_mset H \<subseteq> set (tree_ids (root_node s))
     \<and> evictable_size s = below_sum unlocked_tokens (root_node s)
     \<and> protected_size s = below_sum locked_tokens (root_node s)"

text \<open>The slots that the tree holds.\<close>

definition cached_slots :: "radix \<Rightarrow> int multiset" where
  "cached_slots s = mset (tree_slots (root_node s))"

lemma cached_slots_sum: "cached_slots s = below_sum node_slots (root_node s)"
proof -
  obtain i ks where r: "root_node s = RNode i ks" by (cases "root_node s")
  have "mset (concat xss) = sum_list (map mset xss)" for xss :: "int list list" by (induction xss) simp_all
  then have "cached_slots s = sum_list (map (node_slots \<circ> info) (tl (nodes (root_node s))))"
    by (simp add: cached_slots_def tree_slots_def node_slots_def comp_def)
  moreover have "sum_list (map (node_slots \<circ> info) (nodes (root_node s))) =
      node_slots i + sum_list (map (node_slots \<circ> info) (tl (nodes (root_node s))))" by (simp add: r)
  ultimately show ?thesis using sum_nodes[of node_slots "root_node s"] by (simp add: node_sum_def r)
qed

lemma radix_ok_grow:
  assumes "radix_ok cfg H s" "grow (c_page_size cfg) (node_maker cfg s) (root_node s) n' b lf"
    and "radix_wf cfg s'" "root_node s' = n'" "r_counter s' = r_counter s + of_bool b + of_bool (lf \<noteq> None)"
    and "evictable_size s' = evictable_size s + (case lf of None \<Rightarrow> 0 | Some l \<Rightarrow> int (key_len (nkey l)))"
    and "protected_size s' = protected_size s"
  shows "radix_ok cfg H s'"
    and "cached_slots s' = cached_slots s + (case lf of None \<Rightarrow> {#} | Some l \<Rightarrow> mset (nvalue l))"
proof -
  have w: "wf_tree (c_page_size cfg) (root_node s)" using assms(1) by (simp add: radix_ok_def radix_wf_def)
  have ctr: "counter (node_maker cfg s) = r_counter s" by (simp add: node_maker_def)
  have ids: "mset (tree_ids n') = mset (tree_ids (root_node s)) + (if b then {#r_counter s#} else {#})
      + (case lf of None \<Rightarrow> {#} | Some l \<Rightarrow> {#node_id l#})" using grow_ids[OF assms(2) w] ctr by simp
  have lid: "node_id l = r_counter s + of_bool b" "lock_ref l = 0" if "lf = Some l" for l
    using grow_leaf_id[OF assms(2) that] ctr by simp_all
  have old: "\<And>i. i \<in> set (tree_ids (root_node s)) \<Longrightarrow> i < r_counter s" using assms(1) by (simp add: radix_ok_def)
  have set: "set (tree_ids n') = set (tree_ids (root_node s)) \<union> (if b then {r_counter s} else {}) \<union>
      (case lf of None \<Rightarrow> {} | Some l \<Rightarrow> {node_id l})"
    using arg_cong[OF ids, of set_mset] by (cases lf; cases b) simp_all
  let ?new = "(if b then [r_counter s] else []) @ (case lf of None \<Rightarrow> [] | Some l \<Rightarrow> [node_id l])"
  have "mset (tree_ids n') = mset (tree_ids (root_node s) @ ?new)" using ids by (cases lf) simp_all
  moreover have "distinct ?new" "\<forall>i \<in> set ?new. r_counter s \<le> i" using lid(1) by (cases lf; cases b; simp)+
  then have "distinct (tree_ids (root_node s) @ ?new)" using old assms(1) by (force simp: radix_ok_def simp del: set_append)
  ultimately have dist: "distinct (tree_ids n')" using mset_eq_imp_distinct_iff by blast
  have hb: "\<And>h. h \<in># H \<Longrightarrow> h < counter (node_maker cfg s)" using assms(1) old ctr by (auto simp: radix_ok_def)
  have lk: "locks_ok H n'" using grow_locks[OF assms(2) w _ hb] assms(1) by (simp add: radix_ok_def)
  have r1: "lock_ref (info n') = 1" using retouchedD(4)[OF grow_info[OF assms(2)]] assms(1) by (simp add: radix_ok_def)
  have sz: "below_sum unlocked_tokens n' = evictable_size s'" "below_sum locked_tokens n' = protected_size s'"
    using unlocked.grow_sum[OF assms(2) w] locked.grow_sum[OF assms(2) w] assms(1,6,7) lid(2)
    by (cases lf; simp add: radix_ok_def unlocked_tokens_def locked_tokens_def)+
  have bd: "\<And>i. i \<in> set (tree_ids n') \<Longrightarrow> i < r_counter s'" using old lid assms(5) set
    by (cases lf; cases b) (auto simp: less_Suc_eq)
  show "radix_ok cfg H s'" using assms(1,3,4) dist lk r1 sz bd set by (auto simp: radix_ok_def)
  show "cached_slots s' = cached_slots s + (case lf of None \<Rightarrow> {#} | Some l \<Rightarrow> mset (nvalue l))"
    using slots.grow_sum[OF assms(2) w] assms(4) by (cases lf) (simp_all add: cached_slots_sum node_slots_def)
qed

end
