(* ===== verification/RadixOps.thy ===== *)
theory RadixOps
  imports RadixLocks
begin

text \<open>
  The operations of the prefix cache keep its invariant, with the holders they add or take.
\<close>

lemma grow_pretouch:
  assumes "grow P mk n n' b lf" "retouched i (info n)"
  shows "grow P mk (RNode i (kids n)) n' b lf"
  using assms
proof (cases rule: grow.cases)
  case (same i' j)
  then show ?thesis using assms(2) by (auto intro: grow.same retouched_trans)
next
  case (leaf i' j ks l)
  then show ?thesis using assms(2) by (auto intro!: grow.leaf elim: retouched_trans)
next
  case (below i' j ks ck c c')
  then show ?thesis using assms(2) by (auto intro!: grow.below elim: retouched_trans)
next
  case (split i' j ks ck c p d u)
  then show ?thesis using assms(2) grow.split[of i j ks ck c P p d mk u] retouched_trans[of i i' j] by auto
next
  case (split_leaf i' j ks ck c p d u l)
  then show ?thesis using assms(2) grow.split_leaf[of i j ks ck c P p d mk u l] retouched_trans[of i i' j] by auto
qed

lemma grow_refl: "grow P mk n n False None"
  by (cases n) (auto intro: grow.same)

lemma match_prefix_grow:
  assumes "active cfg" "radix_wf cfg s" "whole_key cfg k"
  shows "\<exists>l s' b. match_prefix cfg k s = (Inr (stored cfg s (extra_key k) (token_ids k), l), s')
      \<and> grow (c_page_size cfg) (node_maker cfg s) (root_node s) (root_node s') b None
      \<and> s' = s\<lparr>root_node := root_node s', r_readings := r_readings s', r_counter := r_counter s + of_bool b\<rparr>
      \<and> radix_wf cfg s'"
proof (cases "key_len k = 0")
  case True
  then show ?thesis using assms(2,3) whole_key_convert[OF assms(3)] grow_refl
    by (intro exI[of _ "node_id (info (root_node s))"] exI[of _ s] exI[of _ False])
      (simp add: match_prefix_def Let_def key_len_def key_take_def)
next
  case False
  let ?P = "c_page_size cfg"
  define k' where "k' = (if ?P \<noteq> 1 then key_take (key_len k div ?P * ?P) k else k)"
  have al: "key_len k div ?P * ?P = key_len k" using assms(3) by (simp add: whole_key_def)
  have k': "token_ids k' = token_ids k" "extra_key k' = extra_key k" "key_len k' = key_len k"
    using al by (simp_all add: k'_def key_take_def key_len_def)
  let ?b = "touch (c_clock cfg (r_readings s)) (root_node s)"
  have P: "0 < ?P" using assms(1) by (simp add: active_def)
  have wf: "wf_tree ?P ?b" using assms(2) by (simp add: radix_wf_def)
  have dv: "?P dvd key_len k'" using assms(3) k'(3) by (simp add: whole_key_def)
  obtain l sp b' where h: "match_prefix_helper ?P (node_maker cfg s) ?b k' =
        (Inr (lookup ?P ?b (extra_key k') (token_ids k'), l, sp), b')" "wf_tree ?P b'"
    using match_prefix_helper_spec[OF P wf dv, of "node_maker cfg s"] by auto
  let ?s' = "s\<lparr>root_node := b', r_readings := r_readings s + (if sp then 3 else 1), r_counter := r_counter s + of_bool sp\<rparr>"
  have "match_prefix cfg k s = (Inr (stored cfg s (extra_key k) (token_ids k), l), ?s')"
    unfolding match_prefix_def Let_def whole_key_convert[OF assms(3)] fst_conv k'_def[symmetric] k'(3)
    using h(1) False assms(1) k'(1,2) by (simp add: active_def)
  moreover have "grow ?P (node_maker cfg s) (root_node s) b' sp None"
    using grow_pretouch[OF match_prefix_helper_grow[OF P wf dv h(1)], of "info (root_node s)"] retouched_touch(1)[of "root_node s"]
    by simp
  ultimately show ?thesis using h(2) by (intro exI[of _ l] exI[of _ ?s'] exI[of _ sp]) (simp add: radix_wf_def)
qed

lemma radix_insert_grow:
  assumes "active cfg" "radix_wf cfg s" "whole_key cfg k" "length val = key_len k"
  defines "q \<equiv> length (stored cfg s (extra_key k) (token_ids k))"
  shows "\<exists>s' b lf. radix_insert cfg k val prio s = (Inr q, s')
      \<and> grow (c_page_size cfg) (node_maker cfg s) (root_node s) (root_node s') b lf
      \<and> s' = s\<lparr>root_node := root_node s', r_readings := r_readings s',
              r_counter := r_counter s + of_bool b + of_bool (lf \<noteq> None), evictable_size := evictable_size s + int (key_len k - q)\<rparr>
      \<and> radix_wf cfg s'
      \<and> (case lf of None \<Rightarrow> key_len k = q | Some i \<Rightarrow> key_len (nkey i) = key_len k - q \<and> nvalue i = drop q val)"
proof -
  let ?P = "c_page_size cfg"
  let ?b = "raise_priority prio (touch (c_clock cfg (r_readings s)) (root_node s))"
  have P: "0 < ?P" using assms(1) by (simp add: active_def)
  have wf: "wf_tree ?P ?b" using assms(2) by (simp add: radix_wf_def)
  have dv: "?P dvd key_len k" using assms(3) by (simp add: whole_key_def)
  have q: "q = length (lookup ?P ?b (extra_key k) (token_ids k))" by (simp add: q_def)
  have ql: "q \<le> key_len k" using length_lookup[OF P wf, of "token_ids k" "extra_key k"] dv by (simp add: q key_len_def)
  obtain m b' where h: "insert_helper ?P (node_maker cfg s) prio ?b k val = (Inr (q, key_len k - q, m), b')" "wf_tree ?P b'"
    using insert_helper_spec[OF P wf dv assms(4), of "node_maker cfg s" prio] by (auto simp: q)
  obtain b lf where g: "grow ?P (node_maker cfg s) ?b b' b lf" "m = of_bool b + of_bool (lf \<noteq> None)" "(lf = None) = (key_len k - q = 0)"
      "\<forall>i. lf = Some i \<longrightarrow> token_ids (nkey i) = drop q (token_ids k) \<and> nvalue i = drop q val"
    using insert_helper_grow[OF P wf dv assms(4) h(1)] by (elim exE conjE)
  have "retouched (info (root_node s)) (info ?b)" by (rule retouched_trans[OF retouched_touch(1) retouched_touch(2)])
  then have g': "grow ?P (node_maker cfg s) (root_node s) b' b lf"
    using grow_pretouch[OF g(1), of "info (root_node s)"] by simp
  let ?s' = "s\<lparr>root_node := b', evictable_size := evictable_size s + int (key_len k - q),
      r_readings := r_readings s + 1 + 2 * m, r_counter := r_counter s + m\<rparr>"
  have "radix_insert cfg k val prio s = (Inr q, ?s')"
    using h(1) assms(1) whole_key_convert[OF assms(3), of val] by (simp add: radix_insert_def Let_def active_def)
  then show ?thesis using g(2-4) g' h(2) ql
    by (intro exI[of _ ?s'] exI[of _ b] exI[of _ lf]) (auto simp: radix_wf_def key_len_def split: option.splits)
qed

section \<open>The operations keep the invariant\<close>

lemma match_prefix_ok:
  assumes "active cfg" "radix_ok cfg H s" "whole_key cfg k"
  shows "\<exists>l s'. match_prefix cfg k s = (Inr (stored cfg s (extra_key k) (token_ids k), l), s')
      \<and> radix_ok cfg H s' \<and> cached_slots s' = cached_slots s
      \<and> r_alloc s' = r_alloc s \<and> r_rows s' = r_rows s"
proof -
  have w: "radix_wf cfg s" using assms(2) by (simp add: radix_ok_def)
  obtain l s' b where s': "match_prefix cfg k s = (Inr (stored cfg s (extra_key k) (token_ids k), l), s')"
      "grow (c_page_size cfg) (node_maker cfg s) (root_node s) (root_node s') b None"
      "s' = s\<lparr>root_node := root_node s', r_readings := r_readings s', r_counter := r_counter s + of_bool b\<rparr>" "radix_wf cfg s'"
    using match_prefix_grow[OF assms(1) w assms(3)] by blast
  have f: "r_counter s' = r_counter s + of_bool b" "evictable_size s' = evictable_size s" "protected_size s' = protected_size s"
      "r_alloc s' = r_alloc s" "r_rows s' = r_rows s"
    by (subst s'(3), simp)+
  have "radix_ok cfg H s'" "cached_slots s' = cached_slots s"
    using radix_ok_grow[OF assms(2) s'(2,4) refl] f by simp_all
  then show ?thesis using s'(1) f by blast
qed

lemma radix_insert_ok:
  assumes "active cfg" "radix_ok cfg H s" "whole_key cfg k" "length val = key_len k"
  shows "\<exists>s'. radix_insert cfg k val prio s = (Inr (length (stored cfg s (extra_key k) (token_ids k))), s')
      \<and> radix_ok cfg H s'
      \<and> cached_slots s' = cached_slots s + mset (drop (length (stored cfg s (extra_key k) (token_ids k))) val)
      \<and> r_alloc s' = r_alloc s \<and> r_rows s' = r_rows s"
proof -
  have w: "radix_wf cfg s" using assms(2) by (simp add: radix_ok_def)
  define q where "q = length (stored cfg s (extra_key k) (token_ids k))"
  obtain s' b lf where s': "radix_insert cfg k val prio s = (Inr q, s')"
      "grow (c_page_size cfg) (node_maker cfg s) (root_node s) (root_node s') b lf"
      "s' = s\<lparr>root_node := root_node s', r_readings := r_readings s',
              r_counter := r_counter s + of_bool b + of_bool (lf \<noteq> None), evictable_size := evictable_size s + int (key_len k - q)\<rparr>"
      "radix_wf cfg s'"
      "case lf of None \<Rightarrow> key_len k = q | Some i \<Rightarrow> key_len (nkey i) = key_len k - q \<and> nvalue i = drop q val"
    using radix_insert_grow[OF assms(1) w assms(3,4)] unfolding q_def by blast
  have f: "r_counter s' = r_counter s + of_bool b + of_bool (lf \<noteq> None)" "evictable_size s' = evictable_size s + int (key_len k - q)"
      "protected_size s' = protected_size s" "r_alloc s' = r_alloc s" "r_rows s' = r_rows s"
    by (subst s'(3), simp)+
  have e: "evictable_size s' = evictable_size s + (case lf of None \<Rightarrow> 0 | Some l \<Rightarrow> int (key_len (nkey l)))"
      "(case lf of None \<Rightarrow> {#} | Some l \<Rightarrow> mset (nvalue l)) = mset (drop q val)"
    using f(2) s'(5) assms(4) by (auto split: option.splits)
  have "radix_ok cfg H s'" "cached_slots s' = cached_slots s + mset (drop q val)"
    using radix_ok_grow[OF assms(2) s'(2,4) refl f(1) e(1) f(3)] e(2) by simp_all
  then show ?thesis using s'(1) f unfolding q_def by blast
qed

lemma root_lock_path: "lock_ref (info (fst (lock_path t d L n))) = lock_ref (info n)"
  by simp

lemma inc_lock_ref_ok:
  assumes "active cfg" "radix_ok cfg H s" "h \<in> set (tree_ids (root_node s))"
  shows "\<exists>d s'. inc_lock_ref cfg h s = (Inr (- d), s') \<and> 0 \<le> d \<and> radix_ok cfg (add_mset h H) s'
      \<and> evictable_size s' = evictable_size s - d \<and> protected_size s' = protected_size s + d
      \<and> stored cfg s' = stored cfg s \<and> cached_slots s' = cached_slots s
      \<and> tree_ids (root_node s') = tree_ids (root_node s) \<and> r_alloc s' = r_alloc s \<and> r_rows s' = r_rows s"
proof -
  let ?r = "root_node s"
  define d where "d = int (snd (lock_path h 1 0 ?r))"
  let ?s' = "s\<lparr>root_node := fst (lock_path h 1 0 ?r), evictable_size := evictable_size s - d, protected_size := protected_size s + d\<rparr>"
  have lk: "locks_ok H ?r" using assms(2) by (simp add: radix_ok_def)
  have "below_sum unlocked_tokens (fst (lock_path h 1 0 ?r)) = below_sum unlocked_tokens ?r + (- 1) * d"
    unfolding d_def by (rule lock_path_sum[OF lk]) (auto simp: unlocked_tokens_def)
  moreover have "below_sum locked_tokens (fst (lock_path h 1 0 ?r)) = below_sum locked_tokens ?r + 1 * d"
    unfolding d_def by (rule lock_path_sum[OF lk]) (auto simp: locked_tokens_def)
  ultimately have ok: "radix_ok cfg (add_mset h H) ?s'"
    using assms(2,3) lock_path_inc[OF lk, of h 0] lock_path_wf[of "c_page_size cfg" ?r h 1 0]
    by (simp add: radix_ok_def radix_wf_def lock_path_ids)
  have "inc_lock_ref cfg h s = (Inr (- d), ?s')"
    using assms(1,3) by (simp add: inc_lock_ref_def active_def d_def case_prod_unfold)
  then show ?thesis using ok
    by (intro exI[of _ d] exI[of _ ?s']) (simp add: d_def fun_eq_iff lock_path_lookup cached_slots_sum lock_path_slots lock_path_ids)
qed

lemma dec_lock_ref_ok:
  assumes "active cfg" "radix_ok cfg (add_mset h H) s"
  shows "\<exists>d s'. dec_lock_ref cfg h s = (Inr d, s') \<and> 0 \<le> d \<and> radix_ok cfg H s'
      \<and> evictable_size s' = evictable_size s + d \<and> protected_size s' = protected_size s - d
      \<and> stored cfg s' = stored cfg s \<and> cached_slots s' = cached_slots s
      \<and> tree_ids (root_node s') = tree_ids (root_node s) \<and> r_alloc s' = r_alloc s \<and> r_rows s' = r_rows s"
proof -
  let ?r = "root_node s"
  define d where "d = int (snd (lock_path h (- 1) 1 ?r))"
  let ?s' = "s\<lparr>root_node := fst (lock_path h (- 1) 1 ?r), evictable_size := evictable_size s + d, protected_size := protected_size s - d\<rparr>"
  have lk: "locks_ok (add_mset h H) ?r" using assms(2) by (simp add: radix_ok_def)
  have hr: "h \<in> set (tree_ids ?r)" using assms(2) by (simp add: radix_ok_def)
  have "below_sum unlocked_tokens (fst (lock_path h (- 1) 1 ?r)) = below_sum unlocked_tokens ?r + 1 * d"
    unfolding d_def by (rule lock_path_sum[OF lk]) (auto simp: unlocked_tokens_def held_add)
  moreover have "below_sum locked_tokens (fst (lock_path h (- 1) 1 ?r)) = below_sum locked_tokens ?r + (- 1) * d"
    unfolding d_def by (rule lock_path_sum[OF lk]) (auto simp: locked_tokens_def held_add)
  ultimately have ok: "radix_ok cfg H ?s'"
    using assms(2) lock_path_dec[OF lk, of 1] lock_path_wf[of "c_page_size cfg" ?r h "- 1" 1]
    by (simp add: radix_ok_def radix_wf_def lock_path_ids)
  have "dec_lock_ref cfg h s = (Inr d, ?s')"
    using assms(1) hr by (simp add: dec_lock_ref_def active_def d_def case_prod_unfold)
  then show ?thesis using ok
    by (intro exI[of _ d] exI[of _ ?s']) (simp add: d_def fun_eq_iff lock_path_lookup cached_slots_sum lock_path_slots lock_path_ids)
qed

lemma reset_ok: "radix_ok cfg {#} (reset cfg s)" "cached_slots (reset cfg s) = {#}"
  by (simp_all add: radix_ok_def reset_def radix_wf_def tree_ids_RNode cached_slots_sum)

end
