(* ===== verification/RadixPath.thy ===== *)
theory RadixPath
  imports RadixOps
begin

text \<open>
  The path of a key in the tree: a request holds the node at the end of the path of its cached
  prefix. Paths outlive every operation, up to the eviction of their last node, which a lock rules out.
\<close>

inductive at_node :: "string option \<Rightarrow> rnode \<Rightarrow> tok list \<Rightarrow> nat \<Rightarrow> bool" for x where
  here: "at_node x n [] (node_id (info n))"
| down: "map_of (kids n) ck = Some c \<Longrightarrow> extra_key (nkey (info c)) = x \<Longrightarrow> at_node x c us h \<Longrightarrow>
    at_node x n (token_ids (nkey (info c)) @ us) h"

inductive_simps at_node_simps: "at_node x n us h"

lemma at_node_down:
  "map_of (kids n) ck = Some c \<Longrightarrow> extra_key (nkey (info c)) = x \<Longrightarrow> at_node x c vs h \<Longrightarrow>
    us = token_ids (nkey (info c)) @ vs \<Longrightarrow> at_node x n us h"
  using at_node.down by blast

lemma at_node_ids: "at_node x n us h \<Longrightarrow> h \<in> set (tree_ids n)"
proof (induction rule: at_node.induct)
  case (down n ck c us h)
  then show ?case using tree_ids_child[of ck c "kids n" h "info n"] map_of_SomeD[OF down.hyps(1)] by simp
qed (rule tree_ids_info)

lemma at_node_pages:
  assumes "at_node x n us h" "wf_tree P n"
  shows "P dvd length us"
  using assms
proof (induction rule: at_node.induct)
  case (down n ck c us h)
  then show ?case using wf_child[OF down.prems down.hyps(1)] by (simp add: good_node_def key_len_def)
qed simp

text \<open>The path of a prefix of a key is part of what a lookup of the key finds.\<close>

lemma at_node_lookup:
  assumes "at_node x n us h" "wf_tree P n" "0 < P" "P dvd length vs"
  shows "length us \<le> length (lookup P n x (us @ vs))"
  using assms
proof (induction rule: at_node.induct)
  case (down n ck c us h)
  note w = wf_child[OF down.prems(1) down.hyps(1)]
  let ?k = "token_ids (nkey (info c))"
  have us: "P dvd length us" by (rule at_node_pages[OF down.hyps(3) w(3)])
  have k: "P dvd length ?k" "?k \<noteq> []" "length (nvalue (info c)) = length ?k" "key_len (nkey (info c)) = length ?k"
    using w(2) by (auto simp: good_node_def key_len_def)
  have "P \<le> length ?k" using k(1,2) by (simp add: dvd_imp_le)
  then have ck: "(x, take P ((?k @ us) @ vs)) = ck" using w(1) down.hyps(2) by (simp add: get_child_key_def)
  have m: "match_tokens P ?k ((?k @ us) @ vs) = length ?k"
    by (rule match_tokens_eqI[OF down.prems(2) k(1)]) (use k us down.prems(3) in simp_all)
  have "lookup P n x ((?k @ us) @ vs) = nvalue (info c) @ lookup P c x (us @ vs)"
    using lookup_Some[OF _ _ m[symmetric], of n x] down.hyps(1) k(2,4) unfolding ck by simp
  then show ?case using down.IH[OF w(3) down.prems(2,3)] k(3) by simp
qed simp

lemma at_node_kids: "kids n = kids m \<Longrightarrow> node_id (info n) = node_id (info m) \<Longrightarrow> at_node x n us h = at_node x m us h"
  by (subst (1 2) at_node_simps) simp

lemma at_node_update:
  assumes "at_node x (RNode i ks) us h" "node_id j = node_id i" "map_of ks ck = Some c"
    and "\<And>us. extra_key (nkey (info c)) = x \<Longrightarrow> at_node x c us h \<Longrightarrow> at_node x (RNode j (AList.update ck c' ks)) (token_ids (nkey (info c)) @ us) h"
  shows "at_node x (RNode j (AList.update ck c' ks)) us h"
  using assms(1)
proof (cases rule: at_node.cases)
  case here
  then show ?thesis using at_node.here[of x "RNode j (AList.update ck c' ks)"] assms(2) by simp
next
  case (down ck' d vs)
  show ?thesis
  proof (cases "ck' = ck")
    case True
    then show ?thesis using down assms(3,4) by simp
  next
    case False
    then show ?thesis using down at_node_down[of "RNode j (AList.update ck c' ks)" ck' d x vs h us] by (simp add: update_conv')
  qed
qed

lemma at_node_split:
  assumes "at_node x c us h" "extra_key (nkey (info c)) = x" "retouched (info c) (info d)" "kids d = kids c"
    and "retouched (info (split_node P mk d p)) u" "map_of (kids n) ck = Some (RNode u (kids (split_node P mk d p) @ es))"
  shows "at_node x n (token_ids (nkey (info c)) @ us) h"
proof -
  note r = retouchedD[OF assms(3)] and ru = retouchedD[OF assms(5)]
  let ?k = "token_ids (nkey (info c))"
  have "at_node x (lower_part p d) us h" using assms(1,4) r(1) at_node_kids[of "lower_part p d" c x us h] by (simp add: lower_part_def)
  then have "at_node x (RNode u (kids (split_node P mk d p) @ es)) (drop p ?k @ us) h"
    using assms(2) r(2) at_node_down[of "RNode u (kids (split_node P mk d p) @ es)" "get_child_key P (key_drop p (nkey (info d)))"
        "lower_part p d" x us h "drop p ?k @ us"]
    by (simp add: split_node_simps lower_part_def key_drop_def)
  then show ?thesis using assms(2) r(2) ru(2) at_node_down[OF assms(6), of x "drop p ?k @ us" h "?k @ us"]
    by (simp add: split_node_simps key_take_def flip: append_assoc)
qed

lemma at_node_grow:
  assumes "grow P mk n n' b lf" "at_node x n us h"
  shows "at_node x n' us h"
  using assms
proof (induction arbitrary: us rule: grow.induct)
  case (same i j ks)
  then show ?case using at_node_kids[of "RNode i ks" "RNode j ks"] retouchedD(1) by simp
next
  case (leaf i j ks l)
  from leaf.prems show ?case
  proof (cases rule: at_node.cases)
    case here
    then show ?thesis using at_node.here[of x "RNode j (AList.update (get_child_key P (nkey l)) (RNode l []) ks)"]
      retouchedD(1)[OF leaf.hyps(1)] by simp
  next
    case (down ck d vs)
    moreover have "ck \<noteq> get_child_key P (nkey l)" using leaf.hyps(2) down(2) by auto
    ultimately show ?thesis
      using at_node_down[of "RNode j (AList.update (get_child_key P (nkey l)) (RNode l []) ks)" ck d x vs h us]
      by (simp add: update_conv')
  qed
next
  case (below i j ks ck c c' b lf)
  note r = retouchedD[OF grow_info[OF below.hyps(3)]]
  show ?case
  proof (rule at_node_update[OF below.prems retouchedD(1)[OF below.hyps(1)] below.hyps(2)])
    fix vs
    assume "extra_key (nkey (info c)) = x" "at_node x c vs h"
    then show "at_node x (RNode j (AList.update ck c' ks)) (token_ids (nkey (info c)) @ vs) h"
      using below.IH[of vs] r(2) at_node_down[of "RNode j (AList.update ck c' ks)" ck c' x vs h] by (simp add: update_conv')
  qed
next
  case (split i j ks ck c p d u)
  show ?case
    by (rule at_node_update[OF split.prems retouchedD(1)[OF split.hyps(1)] split.hyps(2)],
        rule at_node_split[OF _ _ split.hyps(6-8), of _ _ _ _ ck "[]"]) (simp_all add: update_conv')
next
  case (split_leaf i j ks ck c p d u l)
  show ?case
    by (rule at_node_update[OF split_leaf.prems retouchedD(1)[OF split_leaf.hyps(1)] split_leaf.hyps(2)],
        rule at_node_split[OF _ _ split_leaf.hyps(6-8), of _ _ _ _ ck "[(get_child_key P (nkey l), RNode l [])]"]) (simp_all add: update_conv')
qed

lemma at_node_lock_path: "at_node x n us h \<Longrightarrow> at_node x (fst (lock_path t d L n)) us h"
proof (induction n arbitrary: us rule: rnode_induct)
  case (RNode i ks)
  from RNode.prems show ?case
  proof (cases rule: at_node.cases)
    case here
    then show ?thesis using at_node.here[of x "fst (lock_path t d L (RNode i ks))"] by simp
  next
    case (down ck c vs)
    have "at_node x (lock_kid t d L c) vs h"
      using down RNode.IH[of ck c vs] map_of_SomeD[of ks ck c] at_node_kids[of "lock_kid t d L c" "fst (lock_path t d L c)" x vs h]
        at_node_kids[of "lock_kid t d L c" c x vs h]
      by (cases "t \<in> set (tree_ids c)") (simp_all add: kids_lock_kid lock_kid_simps)
    then show ?thesis using down at_node_down[of "fst (lock_path t d L (RNode i ks))" ck "lock_kid t d L c" x vs h us]
      by (simp add: lock_path_kids map_of_map_snd lock_kid_simps)
  qed
qed

text \<open>The node that a match returns is the end of the path of what it found.\<close>

lemma match_prefix_helper_at:
  assumes "0 < P" "wf_tree P n" "P dvd key_len key" "match_prefix_helper P mk n key = (Inr (v, l, s), n')"
  shows "at_node (extra_key key) n' (take (length v) (token_ids key)) l"
  using assms
proof (induction P mk n key arbitrary: v l s n' rule: match_prefix_helper.induct)
  case (1 P mk n key)
  let ?ts = "token_ids key" and ?x = "extra_key key" and ?t = "clock mk (readings mk)"
  show ?case
  proof (cases "key_len key = 0 \<or> map_of (kids n) (get_child_key P key) = None")
    case True
    then have "n' = n" "v = []" "l = node_id (info n)" using "1.prems"(4)
      by (auto simp: match_prefix_helper.simps[of P mk n key] split: option.splits)
    then show ?thesis by (simp add: at_node.here)
  next
    case False
    then obtain c where kne: "key_len key \<noteq> 0" and Some: "map_of (kids n) (get_child_key P key) = Some c" by auto
    have ne: "?ts \<noteq> []" using kne by (auto simp: key_len_def)
    have ck: "get_child_key P key = (?x, take P ?ts)" by (simp add: get_child_key_def)
    have dts: "P dvd length ?ts" using "1.prems"(3) by (simp add: key_len_def)
    note cm = child_match[OF "1.prems"(1,2) Some[unfolded ck] ne dts]
    note w = wf_child[OF "1.prems"(2) Some]
    define p where "p = match_tokens P (token_ids (nkey (info c))) ?ts"
    have km: "key_match P (nkey (info c)) key = Inr p" using cm(3) by (simp add: key_match_def p_def)
    note pr = match_tokens_props[OF "1.prems"(1) cm(1) dts, folded p_def]
    have ckc: "get_child_key P (nkey (info c)) = get_child_key P key" using w(1) by simp
    have lv: "length (nvalue (info c)) = key_len (nkey (info c))" using w(2) by (simp add: good_node_def)
    show ?thesis
    proof (cases "p < key_len (nkey (info c))")
      case True
      let ?new = "split_node P mk (touch ?t c) p"
      have r: "n' = RNode (info n) (AList.update (get_child_key P key) ?new (kids n))" "v = nvalue (info ?new)" "l = node_id (info ?new)"
        using "1.prems"(4) kne Some km True ckc by (simp_all add: match_prefix_helper.simps[of P mk n key] Let_def)
      have "take (length v) ?ts = token_ids (nkey (info ?new))"
        using r(2) True lv pr by (simp add: split_node_simps key_take_def touch_def)
      then show ?thesis using r(1,3) cm(3) at_node.here[of ?x ?new]
          at_node_down[of n' "get_child_key P key" ?new ?x "[]" "node_id (info ?new)"]
        by (simp add: update_conv' split_node_simps key_take_def touch_def)
    next
      case False
      have kd: "P dvd key_len (key_drop p key)" using "1.prems"(3) pr(3) by (simp add: key_len_def key_drop_def dvd_diff_nat)
      obtain v1 l1 s1 c' where rec: "match_prefix_helper P mk c (key_drop p key) = (Inr (v1, l1, s1), c')"
        using match_prefix_helper_spec[OF "1.prems"(1) w(3) kd] by blast
      have res: "n' = RNode (info n) (AList.update (get_child_key P key) (touch ?t c') (kids n))" "v = nvalue (info c) @ v1" "l = l1"
        using "1.prems"(4) kne Some km False rec by (simp_all add: match_prefix_helper.simps[of P mk n key] Let_def)
      have "at_node ?x c' (take (length v1) (drop p ?ts)) l1"
        using "1.IH"[OF kne Some refl refl km False "1.prems"(1) w(3) kd rec] by (simp add: key_drop_def)
      then have "at_node ?x (touch ?t c') (take (length v1) (drop p ?ts)) l1"
        using at_node_kids[of "touch ?t c'" c'] by (simp add: touch_def)
      moreover have i: "nkey (info (touch ?t c')) = nkey (info c)"
        using retouchedD(2)[OF grow_info[OF match_prefix_helper_grow[OF "1.prems"(1) w(3) kd rec]]] by (simp add: touch_def)
      moreover have pl: "p = length (token_ids (nkey (info c)))" using False pr by (simp add: key_len_def)
      moreover have "take p ?ts = token_ids (nkey (info c))" using pr pl by simp
      then have "take (length v) ?ts = token_ids (nkey (info c)) @ take (length v1) (drop p ?ts)"
        using res(2) lv pl by (simp add: key_len_def take_add)
      ultimately show ?thesis using res(1,3) cm(3)
          at_node_down[of n' "get_child_key P key" "touch ?t c'" ?x "take (length v1) (drop p ?ts)" l1 "take (length v) ?ts"]
        by (simp add: update_conv')
    qed
  qed
qed

lemma match_prefix_at:
  assumes "active cfg" "radix_wf cfg s" "whole_key cfg k" "match_prefix cfg k s = (Inr (v, l), s')"
  shows "at_node (extra_key k) (root_node s') (take (length v) (token_ids k)) l"
proof (cases "key_len k = 0")
  case True
  then have "v = []" "l = node_id (info (root_node s))" "s' = s"
    using assms(4) whole_key_convert[OF assms(3)] by (auto simp: match_prefix_def Let_def key_len_def key_take_def)
  then show ?thesis by (simp add: at_node.here)
next
  case False
  let ?P = "c_page_size cfg"
  define k' where "k' = (if ?P \<noteq> 1 then key_take (key_len k div ?P * ?P) k else k)"
  have al: "key_len k div ?P * ?P = key_len k" using assms(3) by (simp add: whole_key_def)
  have k': "token_ids k' = token_ids k" "extra_key k' = extra_key k" "key_len k' = key_len k"
    using al by (simp_all add: k'_def key_take_def key_len_def)
  let ?b = "touch (c_clock cfg (r_readings s)) (root_node s)"
  have P: "0 < ?P" using assms(1) by (simp add: active_def)
  have wf: "wf_tree ?P ?b" using assms(2) by (simp add: radix_wf_def)
  have dv: "?P dvd key_len k'" using assms(3) k'(3) by (simp add: whole_key_def)
  obtain l' sp b' where h: "match_prefix_helper ?P (node_maker cfg s) ?b k' =
        (Inr (lookup ?P ?b (extra_key k') (token_ids k'), l', sp), b')"
    using match_prefix_helper_spec[OF P wf dv, of "node_maker cfg s"] by auto
  have "v = lookup ?P ?b (extra_key k') (token_ids k')" "l = l'" "root_node s' = b'"
    using assms(4) unfolding match_prefix_def Let_def whole_key_convert[OF assms(3)] fst_conv k'_def[symmetric] k'(3)
    using h False assms(1) k'(1,2) by (auto simp: active_def)
  then show ?thesis using match_prefix_helper_at[OF P wf dv h] k' by simp
qed

end
