(* ===== verification/RadixEvict.thy ===== *)
theory RadixEvict
  imports RadixPath
begin

text \<open>
  Eviction: the loop takes leaves without locks, in the order of the policy, until enough tokens
  are freed or none is left. It ends, it frees the slots of exactly the nodes it deletes, and the
  nodes that requests hold stay.
\<close>

section \<open>Cutting a leaf off\<close>

text \<open>A tree and the same tree without one leaf; the parent of the leaf and the leaf.\<close>

inductive cut :: "rnode \<Rightarrow> rnode \<Rightarrow> rnode \<Rightarrow> node_info \<Rightarrow> bool" where
  here: "map_of ks ck = Some (RNode l []) \<Longrightarrow> cut (RNode i ks) (RNode i (AList.delete ck ks)) (RNode i ks) l"
| below: "map_of ks ck = Some c \<Longrightarrow> cut c c' p l \<Longrightarrow> cut (RNode i ks) (RNode i (AList.update ck c' ks)) p l"

lemma nodes_self: "n \<in> set (nodes n)"
  by (cases n) simp

lemma nodes_child: "(ck, c) \<in> set ks \<Longrightarrow> m \<in> set (nodes c) \<Longrightarrow> m \<in> set (nodes (RNode i ks))"
  by (cases ck, simp, rule disjI2, rule bexI[of _ "(ck, c)"]) auto

lemma cut_info: "cut n n' p l \<Longrightarrow> info n' = info n"
  by (induction rule: cut.induct) simp_all

lemma cut_leaf: "cut n n' p l \<Longrightarrow> RNode l [] \<in> set (nodes n) \<and> p \<in> set (nodes n)"
proof (induction rule: cut.induct)
  case (here ks ck l i)
  then show ?case using nodes_child[OF map_of_SomeD[OF here] nodes_self] nodes_self by blast
next
  case (below ks ck c c' p l i)
  then show ?case using nodes_child[OF map_of_SomeD[OF below.hyps(1)]] by blast
qed

lemma below_sum_delete:
  assumes "map_of ks ck = Some c" "distinct (map fst ks)"
  shows "below_sum f (RNode i ks) = below_sum f (RNode i (AList.delete ck ks)) + node_sum f c"
  using assms
proof (induction ks)
  case (Cons a ks)
  obtain k d where a: "a = (k, d)" by (cases a)
  show ?case
  proof (cases "k = ck")
    case True
    then have "AList.delete ck ks = ks" using Cons.prems(2) a by (force simp: AList.delete_eq filter_id_conv)
    then show ?thesis using True Cons.prems a by (simp add: node_sum_def ac_simps)
  next
    case False
    then show ?thesis using Cons a by (simp add: ac_simps)
  qed
qed simp

lemma cut_sum:
  assumes "cut n n' p l" "wf_tree P n"
  shows "below_sum f n = below_sum f n' + f l"
  using assms
proof (induction rule: cut.induct)
  case (here ks ck l i)
  then show ?case using below_sum_delete[OF here.hyps] here.prems by (simp add: node_sum_def)
next
  case (below ks ck c c' p l i)
  have w: "wf_tree P c" using wf_child(3)[OF below.prems] below.hyps(1) by simp
  have "node_sum f c = node_sum f c' + f l" using below.IH[OF w] cut_info[OF below.hyps(2)] by (simp add: node_sum_def ac_simps)
  then show ?case using below_sum_update[of ks ck c f i] below.prems below.hyps(1)
    by (auto simp: ac_simps simp del: below_sum.simps)
qed

lemma cut_ids:
  assumes "cut n n' p l" "wf_tree P n"
  shows "mset (tree_ids n) = mset (tree_ids n') + {#node_id l#}"
  using cut_sum[OF assms, of "\<lambda>i. {#node_id i#}"] cut_info[OF assms(1)] by (simp add: mset_tree_ids node_sum_def)

lemma list_all_delete: "list_all Q ks \<Longrightarrow> list_all Q (AList.delete ck ks)"
  by (auto simp: list_all_iff AList.delete_eq)

lemma cut_wf:
  assumes "cut n n' p l" "wf_tree P n"
  shows "wf_tree P n'"
  using assms
proof (induction rule: cut.induct)
  case (here ks ck l i)
  then show ?case by (auto simp: list_all_delete distinct_delete)
next
  case (below ks ck c c' p l i)
  have w: "wf_tree P c" using wf_child(3)[OF below.prems] below.hyps(1) by simp
  have "map_of (kids (RNode i ks)) ck = Some c" using below.hyps(1) by simp
  note wc = wf_child[OF below.prems this]
  show ?case using wf_update[OF below.prems, of ck c'] wc below.IH[OF w] cut_info[OF below.hyps(2)] by simp
qed

lemma cut_locks:
  assumes "cut n n' p l" "wf_tree P n" "locks_ok H n" "lock_ref l = 0"
  shows "locks_ok H n' \<and> node_id l \<notin># H"
  using assms
proof (induction rule: cut.induct)
  case (here ks ck l i)
  have "(ck, RNode l []) \<in> set ks" using map_of_SomeD[OF here.hyps] .
  then have "held H (RNode l []) = 0" using here.prems by (auto simp: list_all_iff)
  then have "node_id l \<notin># H" by (auto simp: held_def tree_ids_RNode filter_mset_eq_mempty_iff)
  then show ?case using here.prems by (simp add: list_all_delete)
next
  case (below ks ck c c' p l i)
  have w: "wf_tree P c" using wf_child(3)[OF below.prems(1)] below.hyps(1) by simp
  have m: "(ck, c) \<in> set ks" using map_of_SomeD[OF below.hyps(1)] .
  have c: "lock_ref (info c) = int (held H c)" "locks_ok H c" using below.prems(2) m by (auto simp: list_all_iff)
  note IH = below.IH[OF w c(2) below.prems(3)]
  have "set (tree_ids c) = insert (node_id l) (set (tree_ids c'))"
    using arg_cong[OF cut_ids[OF below.hyps(2) w], of set_mset] by simp
  then have "held H c' = held H c" using IH by (intro held_cong) auto
  then show ?case using IH locks_ok_update[OF below.prems(2), of c' i ck] c(1) cut_info[OF below.hyps(2)] by simp
qed

text \<open>The paths to other nodes stay, and no key finds more than before.\<close>

lemma at_node_cut:
  assumes "cut n n' p l" "at_node x n us h" "h \<noteq> node_id l"
  shows "at_node x n' us h"
  using assms
proof (induction arbitrary: us rule: cut.induct)
  case (here ks ck l i)
  from here.prems(1) show ?case
  proof (cases rule: at_node.cases)
    case here
    then show ?thesis using at_node.here[of x "RNode i (AList.delete ck ks)"] by simp
  next
    case (down ck' d vs)
    have "ck' \<noteq> ck"
    proof
      assume "ck' = ck"
      then have "d = RNode l []" using down(2) here.hyps by simp
      then show False using down(4) here.prems(2) by (auto elim: at_node.cases)
    qed
    then show ?thesis using down at_node_down[of "RNode i (AList.delete ck ks)" ck' d x vs h us]
      by (simp add: AList.delete_conv')
  qed
next
  case (below ks ck c c' p l i)
  show ?case
  proof (rule at_node_update[OF below.prems(1) refl below.hyps(1)])
    fix vs
    assume "extra_key (nkey (info c)) = x" "at_node x c vs h"
    then show "at_node x (RNode i (AList.update ck c' ks)) (token_ids (nkey (info c)) @ vs) h"
      using below.IH[OF _ below.prems(2), of vs] cut_info[OF below.hyps(2)]
        at_node_down[of "RNode i (AList.update ck c' ks)" ck c' x vs h] by (simp add: update_conv')
  qed
qed

lemma cut_lookup:
  assumes "cut n n' p l"
  shows "\<exists>rest. lookup P n x ts = lookup P n' x ts @ rest"
  using assms
proof (induction arbitrary: ts rule: cut.induct)
  case (here ks ck l i)
  show ?case
  proof (cases "(x, take P ts) = ck")
    case True
    then have "lookup P (RNode i (AList.delete ck ks)) x ts = []" by (intro lookup_None) (simp add: AList.delete_conv')
    then show ?thesis by simp
  next
    case False
    then have "lookup P (RNode i (AList.delete ck ks)) x ts = lookup P (RNode i ks) x ts"
      by (intro lookup_kids_cong) (simp add: AList.delete_conv')
    then show ?thesis by simp
  qed
next
  case (below ks ck c c' p l i)
  let ?n' = "RNode i (AList.update ck c' ks)"
  show ?case
  proof (cases "(x, take P ts) = ck \<and> ts \<noteq> []")
    case True
    let ?p = "match_tokens P (token_ids (nkey (info c))) ts"
    have "map_of (kids (RNode i ks)) (x, take P ts) = Some c" "map_of (kids ?n') (x, take P ts) = Some c'"
      using True below.hyps(1) by (simp_all add: update_conv')
    from lookup_Some[OF _ this(1) refl] lookup_Some[OF _ this(2) refl] True show ?thesis
      using below.IH[of "drop ?p ts"] cut_info[OF below.hyps(2)] by auto
  next
    case False
    then have "lookup P ?n' x ts = lookup P (RNode i ks) x ts"
      by (cases "ts = []") (auto intro!: lookup_kids_cong simp: update_conv')
    then show ?thesis by simp
  qed
qed

section \<open>Deleting a leaf by its number\<close>

lemma find_unique:
  assumes "distinct (tree_ids n)" "m \<in> set (nodes n)"
  shows "find_node (node_id (info m)) n = Some m"
proof -
  have "List.find (\<lambda>a. g a = g m) xs = Some m" if "distinct (map g xs)" "m \<in> set xs" for g :: "rnode \<Rightarrow> nat" and xs
    using that by (induction xs) (auto simp: image_iff)
  from this[of "node_id \<circ> info"] show ?thesis using assms by (simp add: find_node_def tree_ids_def)
qed

lemma tree_ids_nodes: "m \<in> set (nodes n) \<Longrightarrow> set (tree_ids m) \<subseteq> set (tree_ids n)"
proof (induction n rule: rnode_induct)
  case (RNode i ks)
  show ?case
  proof (cases "m = RNode i ks")
    case False
    then obtain ck c where c: "(ck, c) \<in> set ks" "m \<in> set (nodes c)" using RNode.prems by auto
    show ?thesis using RNode.IH[OF c] tree_ids_child[OF c(1)] by blast
  qed simp
qed

definition kid_ids :: "rnode \<Rightarrow> nat list" where
  "kid_ids n = map (node_id \<circ> info \<circ> snd) (kids n)"

lemma kid_ids_RNode: "kid_ids (RNode i ks) = map (node_id \<circ> info \<circ> snd) ks"
  by (simp add: kid_ids_def)

lemma concat_unique:
  "distinct (concat (map f xs)) \<Longrightarrow> a \<in> set xs \<Longrightarrow> b \<in> set xs \<Longrightarrow> h \<in> set (f a) \<Longrightarrow> h \<in> set (f b) \<Longrightarrow> a = b"
  by (induction xs) auto

lemma kid_ids_mset: "mset (concat (map kid_ids (nodes n))) + {#node_id (info n)#} = mset (tree_ids n)"
proof (induction n rule: rnode_induct)
  case (RNode i ks)
  have "mset (map (node_id \<circ> info \<circ> snd) ks) + mset (concat (map kid_ids (concat (map (\<lambda>(ck, c). nodes c) ks))))
      = mset (concat (map (tree_ids \<circ> snd) ks))"
    using RNode
  proof (induction ks)
    case (Cons a ks)
    have e: "mset (tree_ids (snd a)) = add_mset (node_id (info (snd a))) (mset (concat (map kid_ids (nodes (snd a)))))"
      using Cons.prems[of "fst a" "snd a"] by simp
    have r: "mset (map (node_id \<circ> info \<circ> snd) ks) + mset (concat (map kid_ids (concat (map (\<lambda>(ck, c). nodes c) ks))))
      = mset (concat (map (tree_ids \<circ> snd) ks))"
      by (rule Cons.IH, rule Cons.prems, rule list.set_intros(2))
    show ?case using r by (simp add: e case_prod_unfold comp_def)
  qed simp
  then show ?case by (simp add: kid_ids_RNode tree_ids_RNode)
qed

lemma parent_unique:
  assumes "distinct (tree_ids n)" "p \<in> set (nodes n)" "x \<in> set (kid_ids p)"
  shows "parent_of x n = Some p"
proof -
  have "mset (concat (map kid_ids (nodes n)) @ [node_id (info n)]) = mset (tree_ids n)" using kid_ids_mset[of n] by simp
  then have "distinct (concat (map kid_ids (nodes n)))" using assms(1) mset_eq_imp_distinct_iff[of _ "tree_ids n"] by (metis distinct_append)
  moreover have "List.find (\<lambda>m. x \<in> set (kid_ids m)) xs = Some p" if "distinct (concat (map kid_ids xs))" "p \<in> set xs" for xs
    using that assms(3) by (induction xs) auto
  ultimately show ?thesis using assms(2) by (simp add: parent_of_def kid_ids_def)
qed

lemma cut_parent_good:
  assumes "cut n n' p l" "wf_tree P n"
  shows "map_of (kids p) (get_child_key P (nkey l)) = Some (RNode l []) \<and> good_node P l"
  using assms
proof (induction rule: cut.induct)
  case (here ks ck l i)
  have "map_of (kids (RNode i ks)) ck = Some (RNode l [])" using here.hyps by simp
  from wf_child[OF here.prems this] show ?case using here.hyps by simp
next
  case (below ks ck c c' p l i)
  have "map_of (kids (RNode i ks)) ck = Some c" using below.hyps(1) by simp
  from wf_child(3)[OF below.prems this] show ?case by (rule below.IH)
qed

lemmas cut_parent = cut_parent_good[THEN conjunct1] cut_parent_good[THEN conjunct2]

lemma pop_child_absent: "pid \<notin> set (tree_ids n) \<Longrightarrow> pop_child pid ck n = n"
proof (induction n rule: rnode_induct)
  case (RNode i ks)
  have "pop_child pid ck c = c" if "(k, c) \<in> set ks" for k c
    using RNode.IH[OF that] RNode.prems tree_ids_child[OF that] by blast
  then show ?case using RNode.prems by (auto simp: tree_ids_RNode intro!: map_idI)
qed

lemma distinct_kids:
  assumes "distinct (tree_ids (RNode i ks))" "(ck, c) \<in> set ks" "h \<in> set (tree_ids c)"
  shows "distinct (tree_ids c)" "h \<noteq> node_id i" "\<And>k d. (k, d) \<in> set ks \<Longrightarrow> h \<in> set (tree_ids d) \<Longrightarrow> k = ck \<and> d = c"
proof -
  show "distinct (tree_ids c)" "h \<noteq> node_id i" using assms by (auto simp: tree_ids_RNode distinct_concat_iff)
  fix k d assume "(k, d) \<in> set ks" "h \<in> set (tree_ids d)"
  then show "k = ck \<and> d = c" using concat_unique[of "tree_ids \<circ> snd" ks "(k, d)" "(ck, c)" h] assms by (simp add: tree_ids_RNode)
qed

lemma map_update:
  assumes "distinct (map fst ks)" "map_of ks ck = Some c" "\<And>k d. (k, d) \<in> set ks \<Longrightarrow> k \<noteq> ck \<Longrightarrow> f d = d"
  shows "map (\<lambda>(k, d). (k, f d)) ks = AList.update ck (f c) ks"
  using assms
proof (induction ks)
  case (Cons a ks)
  obtain k d where a: "a = (k, d)" by (cases a)
  show ?case
  proof (cases "k = ck")
    case True
    have "f d' = d'" if "(k', d') \<in> set ks" for k' d'
      using Cons.prems(3)[of k' d'] that Cons.prems(1) a True by force
    then have "map (\<lambda>(k, d). (k, f d)) ks = ks" by (intro map_idI) auto
    then show ?thesis using True a Cons.prems(2) by simp
  next
    case False
    have "\<And>k d. (k, d) \<in> set ks \<Longrightarrow> k \<noteq> ck \<Longrightarrow> f d = d" by (rule Cons.prems(3)) auto
    then have "map (\<lambda>(k, d). (k, f d)) ks = AList.update ck (f c) ks"
      using Cons.prems(1,2) a False by (intro Cons.IH) simp_all
    then show ?thesis using a False Cons.prems(3)[of k d] by simp
  qed
qed simp

lemma cut_pop:
  assumes "cut n n' p l" "wf_tree P n" "distinct (tree_ids n)"
  shows "pop_child (node_id (info p)) (get_child_key P (nkey l)) n = n'"
  using assms
proof (induction rule: cut.induct)
  case (here ks ck l i)
  have "map_of (kids (RNode i ks)) ck = Some (RNode l [])" using here.hyps by simp
  from wf_child(1)[OF here.prems(1) this] show ?case by simp
next
  case (below ks ck c c' p l i)
  have mo: "map_of (kids (RNode i ks)) ck = Some c" using below.hyps(1) by simp
  have m: "(ck, c) \<in> set ks" using map_of_SomeD[OF below.hyps(1)] .
  have pc: "node_id (info p) \<in> set (tree_ids c)"
    using cut_leaf[OF below.hyps(2)] tree_ids_nodes[of p c] tree_ids_info[of p] by blast
  note dk = distinct_kids[OF below.prems(2) m pc]
  have dm: "distinct (map fst ks)" using below.prems(1) by simp
  have "map (\<lambda>(k, d). (k, pop_child (node_id (info p)) (get_child_key P (nkey l)) d)) ks
      = AList.update ck (pop_child (node_id (info p)) (get_child_key P (nkey l)) c) ks"
    by (rule map_update[OF dm below.hyps(1)]) (use dk(3) pop_child_absent in blast)
  then show ?case using below.IH[OF wf_child(3)[OF below.prems(1) mo] dk(1)] dk(2) by simp
qed

text \<open>\<open>_delete_leaf\<close> finds the leaf, passes its check and cuts it off.\<close>

lemma delete_leaf_cut:
  assumes "cut n n' p l" "wf_tree P n" "distinct (tree_ids n)"
  shows "find_node (node_id l) n = Some (RNode l [])" "parent_of (node_id l) n = Some p"
    "delete_leaf P (node_id l) n = (Inr (), n')"
proof -
  note leaf = cut_leaf[OF assms(1)] and kid = cut_parent(1)[OF assms(1,2)]
  show f: "find_node (node_id l) n = Some (RNode l [])" using find_unique[OF assms(3), of "RNode l []"] leaf by simp
  have "node_id l \<in> set (kid_ids p)" using map_of_SomeD[OF kid] by (force simp: kid_ids_def)
  then show q: "parent_of (node_id l) n = Some p" using parent_unique[OF assms(3)] leaf by blast
  show "delete_leaf P (node_id l) n = (Inr (), n')"
    using f q kid cut_pop[OF assms] by (simp add: delete_leaf_def Let_def)
qed

section \<open>The leaves of a tree\<close>

fun leaf_infos :: "rnode \<Rightarrow> node_info multiset" where
  "leaf_infos (RNode i ks) =
     sum_list (map (\<lambda>(ck, c). if kids c = [] then {#info c#} else leaf_infos c) ks)"

definition leaves_at :: "rnode \<Rightarrow> node_info multiset" where
  "leaves_at c = (if kids c = [] then {#info c#} else leaf_infos c)"

lemma leaf_infos_at: "leaf_infos (RNode i ks) = sum_list (map (leaves_at \<circ> snd) ks)"
  by (simp add: leaves_at_def case_prod_unfold comp_def)

declare leaf_infos.simps [simp del]

definition evictable_leaves :: "rnode \<Rightarrow> node_info multiset" where
  "evictable_leaves n = {#i \<in># leaf_infos n. lock_ref i = 0#}"

lemma leaves_update:
  assumes "distinct (map fst ks)" "map_of ks ck = Some c"
  shows "leaf_infos (RNode i ks) + leaves_at c' = leaf_infos (RNode j (AList.update ck c' ks)) + leaves_at c"
  using assms by (induction ks) (auto simp: leaf_infos_at ac_simps)

lemma leaves_delete:
  assumes "distinct (map fst ks)" "map_of ks ck = Some c"
  shows "leaf_infos (RNode i ks) = leaf_infos (RNode j (AList.delete ck ks)) + leaves_at c"
  using assms
proof (induction ks)
  case (Cons a ks)
  obtain k d where a: "a = (k, d)" by (cases a)
  show ?case
  proof (cases "k = ck")
    case True
    then have "AList.delete ck ks = ks" using Cons.prems(1) a by (force simp: AList.delete_eq filter_id_conv)
    then show ?thesis using True Cons.prems a by (simp add: leaf_infos_at ac_simps)
  next
    case False
    then show ?thesis using Cons a by (simp add: leaf_infos_at ac_simps)
  qed
qed simp

lemma cut_kids: "cut n n' p l \<Longrightarrow> kids n \<noteq> [] \<and> (kids n' = [] \<longrightarrow> p = n)"
proof (induction rule: cut.induct)
  case (below ks ck c c' p l i)
  have "AList.update ck c' ks \<noteq> []" by (cases ks) auto
  then show ?case using below.hyps(1) by auto
qed auto

lemma exchange:
  fixes N :: "'a multiset"
  assumes "N + X' = N' + X" "X' + L = X + E"
  shows "N' + L = N + E"
proof -
  have "(N' + X) + L = N + (X' + L)" unfolding assms(1)[symmetric] by (rule add.assoc)
  then have "(N' + L) + X = (N + E) + X" unfolding assms(2) by (metis add.assoc add.commute)
  then show ?thesis by (rule add_right_imp_eq)
qed

text \<open>A cut takes the leaf away and makes its parent a leaf when it was the only child.\<close>

lemma cut_leaves:
  assumes "cut n n' p l" "wf_tree P n" "distinct (tree_ids n)"
  shows "\<exists>p'. p' \<in> set (nodes n') \<and> info p' = info p \<and> (p' = n' \<longleftrightarrow> p = n) \<and>
     leaf_infos n' + {#l#} = leaf_infos n + (if kids p' = [] \<and> p \<noteq> n then {#info p#} else {#})"
  using assms
proof (induction rule: cut.induct)
  case (here ks ck l i)
  have "leaf_infos (RNode i ks) = leaf_infos (RNode i (AList.delete ck ks)) + leaves_at (RNode l [])"
    using leaves_delete[OF _ here.hyps, of i i] here.prems by simp
  then show ?case by (intro exI[of _ "RNode i (AList.delete ck ks)"]) (simp add: leaves_at_def)
next
  case (below ks ck c c' p l i)
  let ?n = "RNode i ks" and ?n' = "RNode i (AList.update ck c' ks)"
  have mo: "map_of (kids ?n) ck = Some c" using below.hyps(1) by simp
  have m: "(ck, c) \<in> set ks" using map_of_SomeD[OF below.hyps(1)] .
  have w: "wf_tree P c" by (rule wf_child(3)[OF below.prems(1) mo])
  have dc: "distinct (tree_ids c)" by (rule distinct_kids(1)[OF below.prems(2) m tree_ids_info])
  obtain p' where p': "p' \<in> set (nodes c')" "info p' = info p" "p' = c' \<longleftrightarrow> p = c"
    "leaf_infos c' + {#l#} = leaf_infos c + (if kids p' = [] \<and> p \<noteq> c then {#info p#} else {#})"
    using below.IH[OF w dc] by blast
  have pid: "node_id (info p) \<in> set (tree_ids c)"
    using cut_leaf[OF below.hyps(2)] tree_ids_nodes[of p c] tree_ids_info[of p] by blast
  have "node_id (info p) \<noteq> node_id i" by (rule distinct_kids(2)[OF below.prems(2) m pid])
  then have pn: "p \<noteq> ?n" "p' \<noteq> ?n'" using p'(2) by auto
  have "(ck, c') \<in> set (AList.update ck c' ks)" using map_of_SomeD[of "AList.update ck c' ks" ck c'] by (simp add: update_conv')
  then have in': "p' \<in> set (nodes ?n')" by (rule nodes_child[OF _ p'(1)])
  have up: "leaf_infos ?n + leaves_at c' = leaf_infos ?n' + leaves_at c"
    using leaves_update[OF _ below.hyps(1)] below.prems(1) by simp
  have kc: "kids c \<noteq> []" "kids c' = [] \<longrightarrow> p = c" using cut_kids[OF below.hyps(2)] by blast+
  have at: "leaves_at c' + {#l#} = leaves_at c + (if kids p' = [] then {#info p#} else {#})"
  proof (cases "p = c")
    case True
    then have "p' = c'" using p'(3) by simp
    moreover have "leaf_infos c' = {#}" if "kids c' = []" using that by (cases c') (simp add: leaf_infos_at)
    ultimately show ?thesis using kc p' True cut_info[OF below.hyps(2)] by (auto simp: leaves_at_def)
  next
    case False
    then show ?thesis using kc p' by (simp add: leaves_at_def)
  qed
  have "leaf_infos ?n' + {#l#} = leaf_infos ?n + (if kids p' = [] then {#info p#} else {#})"
    by (rule exchange[OF up at])
  then show ?case using in' p'(2) pn by (intro exI[of _ p']) simp
qed

lemma leaf_cut:
  assumes "wf_tree P n" "l \<in># leaf_infos n"
  shows "\<exists>n' p. cut n n' p l"
  using assms
proof (induction n rule: rnode_induct)
  case (RNode i ks)
  have "\<exists>a \<in> set ks. l \<in># leaves_at (snd a)"
    using RNode.prems(2) unfolding leaf_infos_at by (induction ks) auto
  then obtain ck c where c: "(ck, c) \<in> set ks" "l \<in># leaves_at c" by auto
  have mo: "map_of ks ck = Some c" using RNode.prems(1) c(1) by simp
  show ?case
  proof (cases "kids c = []")
    case True
    then have "c = RNode l []" using c(2) by (cases c) (simp add: leaves_at_def)
    then show ?thesis using cut.here[of ks ck l i] mo by blast
  next
    case False
    have "wf_tree P c" using RNode.prems(1) c(1) by (auto simp: list_all_iff)
    then obtain c' p where "cut c c' p l" using RNode.IH[OF c(1)] c(2) False by (auto simp: leaves_at_def)
    then show ?thesis using cut.below[OF mo] by blast
  qed
qed

lemma leaf_infos_none: "kids n = [] \<Longrightarrow> leaf_infos n = {#}"
  by (cases n) (simp add: leaf_infos_at)

text \<open>\<open>_collect_leaves\<close> has enough fuel and finds the leaves without locks.\<close>

lemma collect_loop_leaves:
  "sum_list (map (length \<circ> nodes) stack) \<le> fuel \<Longrightarrow>
     mset (map info (collect_loop fuel stack)) = {#i \<in># sum_list (map leaves_at stack). lock_ref i = 0#}"
proof (induction fuel stack rule: collect_loop.induct)
  case (1 stack)
  have "length (nodes n) \<noteq> 0" for n by (cases n) simp
  then have "stack = []" using 1 by (cases stack) auto
  then show ?case by simp
next
  case (2 fuel stack)
  show ?case
  proof (cases "stack = []")
    case False
    let ?c = "last stack" and ?r = "butlast stack"
    have st: "stack = ?r @ [?c]" using False by simp
    obtain i ks where c: "?c = RNode i ks" by (cases ?c)
    have len: "sum_list (map (length \<circ> nodes) stack) = sum_list (map (length \<circ> nodes) ?r) + length (nodes ?c)"
      by (subst st) simp
    have fr: "sum_list (map (length \<circ> nodes) ?r) \<le> fuel" using "2.prems" unfolding len by (simp add: c)
    have sm: "sum_list (map leaves_at stack) = sum_list (map leaves_at ?r) + leaves_at ?c" by (subst st) simp
    show ?thesis
    proof (cases "kids ?c = []")
      case True
      then have "mset (map info (collect_loop fuel ?r)) = {#i \<in># sum_list (map leaves_at ?r). lock_ref i = 0#}"
        using "2.IH"(1)[OF False refl refl True _ fr] "2.IH"(2)[OF False refl refl True _ fr] by blast
      moreover have "leaves_at ?c = {#info ?c#}" using True by (simp add: leaves_at_def)
      ultimately show ?thesis using False True sm by (simp add: Let_def)
    next
      case nk: False
      have n: "length (nodes ?c) = Suc (sum_list (map (length \<circ> nodes \<circ> snd) ks))"
        by (simp add: c length_concat comp_def case_prod_unfold)
      have "mset (map info (collect_loop fuel (?r @ map snd (kids ?c)))) =
          {#i \<in># sum_list (map leaves_at (?r @ map snd (kids ?c))). lock_ref i = 0#}"
        using "2.prems" unfolding len n by (intro "2.IH"(3)[OF False refl refl nk]) (simp add: c comp_def)
      moreover have "sum_list (map leaves_at (?r @ map snd (kids ?c))) = sum_list (map leaves_at stack)"
        using nk by (simp add: sm leaves_at_def c leaf_infos_at comp_def)
      ultimately have "mset (map info (collect_loop fuel (?r @ map snd (kids ?c)))) =
          {#i \<in># sum_list (map leaves_at stack). lock_ref i = 0#}" by (simp only:)
      then show ?thesis using False nk by (simp add: Let_def)
    qed
  qed simp
qed

lemma collect_leaves_evictable: "mset (map info (collect_leaves n)) = evictable_leaves n"
proof -
  obtain i ks where n: "n = RNode i ks" by (cases n)
  have "sum_list (map (length \<circ> nodes) (map snd ks)) \<le> length (nodes n)"
    by (simp add: n length_concat comp_def case_prod_unfold)
  from collect_loop_leaves[OF this] show ?thesis
    by (simp add: collect_leaves_def evictable_leaves_def n leaf_infos_at)
qed

text \<open>When no leaf can be evicted, every node is locked.\<close>

lemma all_locked:
  assumes "locks_ok H n" "evictable_leaves n = {#}"
  shows "below_sum unlocked_tokens n = 0 \<and> (\<forall>(ck, c) \<in> set (kids n). lock_ref (info c) > 0)"
  using assms
proof (induction n rule: rnode_induct)
  case (RNode i ks)
  have c: "lock_ref (info c) > 0 \<and> below_sum unlocked_tokens c = 0" if k: "(ck, c) \<in> set ks" for ck c
  proof -
    have l: "lock_ref (info c) = int (held H c)" "locks_ok H c" using RNode.prems(1) k by (auto simp: list_all_iff)
    have sub: "leaves_at c \<subseteq># leaf_infos (RNode i ks)"
      using k unfolding leaf_infos_at by (induction ks) (auto simp: subset_mset.add_increasing subset_mset.add_increasing2)
    then have no: "lock_ref j \<noteq> 0" if "j \<in># leaves_at c" for j
      using RNode.prems(2) that by (auto simp: evictable_leaves_def filter_mset_eq_mempty_iff dest: mset_subset_eqD)
    show ?thesis
    proof (cases "kids c = []")
      case True
      then show ?thesis using no[of "info c"] l(1) by (cases c) (simp add: leaves_at_def)
    next
      case False
      then have IH: "below_sum unlocked_tokens c = 0" "\<forall>(ck, d) \<in> set (kids c). lock_ref (info d) > 0"
        using RNode.IH[OF k l(2)] no by (auto simp: evictable_leaves_def filter_mset_eq_mempty_iff leaves_at_def)
      obtain ck' d where d: "(ck', d) \<in> set (kids c)" using False by (cases "kids c") auto
      have "lock_ref (info d) = int (held H d)" using l(2) d by (cases c) (auto simp: list_all_iff)
      then have "0 < held H d" using IH(2) d by auto
      then show ?thesis using held_child[OF d, of H "info c"] l(1) IH(1) by simp
    qed
  qed
  then have "node_sum unlocked_tokens c = 0" if "(ck, c) \<in> set ks" for ck c
    using that by (fastforce simp: node_sum_def unlocked_tokens_def)
  then have m: "map (node_sum unlocked_tokens \<circ> snd) ks = map (\<lambda>_. 0) ks" by auto
  have "below_sum unlocked_tokens (RNode i ks) = 0" unfolding below_sum_node_sum m by simp
  then show ?case using c by auto
qed

section \<open>The eviction loop\<close>

text \<open>The slots that are free, or that are freed at the end of a group of frees.\<close>

definition spare_slots :: "radix \<Rightarrow> int multiset" where
  "spare_slots s = mset (tok_slots (r_alloc s)) + mset (concat (free_group (r_alloc s)))"

lemma radix_free_spare:
  assumes "page_size (r_alloc s) = 1"
  shows "\<exists>a. radix_free xs s = (Inr (), s\<lparr>r_alloc := a\<rparr>) \<and> page_size a = 1
      \<and> spare_slots (s\<lparr>r_alloc := a\<rparr>) = spare_slots s + mset xs"
  using assms by (intro exI[of _ "tok_free (r_alloc s) xs"]) (auto simp: radix_free_def tok_free_def spare_slots_def tok_slots_def)

text \<open>
  What an eviction of \<open>n\<close> tokens may do: the invariant and the holders stay, the tokens leave the
  evictable size only, slots of the tree become free slots, paths to held nodes stay and every
  key finds a prefix of what it found.
\<close>

definition evicted :: "radix_config \<Rightarrow> nat multiset \<Rightarrow> nat \<Rightarrow> radix \<Rightarrow> radix \<Rightarrow> bool" where
  "evicted cfg H n s s' \<longleftrightarrow>
     radix_ok cfg H s' \<and> page_size (r_alloc s') = 1
     \<and> evictable_size s' = evictable_size s - int n \<and> protected_size s' = protected_size s
     \<and> spare_slots s' + cached_slots s' = spare_slots s + cached_slots s
     \<and> size (spare_slots s') = size (spare_slots s) + n
     \<and> r_rows s' = r_rows s \<and> r_counter s' = r_counter s
     \<and> (\<forall>x us h. h \<in># H \<longrightarrow> at_node x (root_node s) us h \<longrightarrow> at_node x (root_node s') us h)
     \<and> (\<forall>x ts. \<exists>rest. stored cfg s x ts = stored cfg s' x ts @ rest)"

lemma evicted_refl: "radix_ok cfg H s \<Longrightarrow> page_size (r_alloc s) = 1 \<Longrightarrow> evicted cfg H 0 s s"
  by (simp add: evicted_def)

lemma evicted_trans: "evicted cfg H n s t \<Longrightarrow> evicted cfg H m t u \<Longrightarrow> evicted cfg H (n + m) s u"
  unfolding evicted_def by (elim conjE, intro conjI) (simp_all, metis append_assoc)

text \<open>The heap gives out one of its entries, as \<open>heapq.heappop\<close> does.\<close>

definition pick_ok :: "radix_config \<Rightarrow> bool" where
  "pick_ok cfg \<longleftrightarrow> (\<forall>heap. heap \<noteq> [] \<longrightarrow> c_pick cfg heap < length heap)"

definition heap_ids :: "((real \<times> real) \<times> real \<times> nat) list \<Rightarrow> nat multiset" where
  "heap_ids heap = mset (map (snd \<circ> snd) heap)"

lemma length_nodes: "length (nodes n) = size (mset (tree_ids n))"
  by (simp add: tree_ids_def)

text \<open>One round of the loop.\<close>

lemma evict_step:
  assumes ok: "active cfg" "radix_ok cfg H s" "page_size (r_alloc s) = 1"
    and x: "x \<in># image_mset node_id (evictable_leaves (root_node s))"
  defines "P \<equiv> c_page_size cfg"
  shows "\<exists>l p p' a r s'. find_node x (root_node s) = Some (RNode l []) \<and> parent_of x (root_node s) = Some p
      \<and> radix_free (nvalue l) s = (Inr (), s\<lparr>r_alloc := a\<rparr>) \<and> delete_leaf P x (root_node s) = (Inr (), r)
      \<and> s' = s\<lparr>r_alloc := a, root_node := r, evictable_size := evictable_size s - int (key_len (nkey l))\<rparr>
      \<and> find_node (node_id (info p)) r = Some p'
      \<and> evicted cfg H (length (nvalue l)) s s'
      \<and> Suc (length (nodes r)) = length (nodes (root_node s))
      \<and> image_mset node_id (evictable_leaves r) = image_mset node_id (evictable_leaves (root_node s)) - {#x#}
          + (if kids p' = [] \<and> lock_ref (info p') = 0 then {#node_id (info p')#} else {#})"
proof -
  let ?n = "root_node s"
  have w: "wf_tree P ?n" and di: "distinct (tree_ids ?n)" and lk: "locks_ok H ?n" and r1: "lock_ref (info ?n) = 1"
    using ok(2) by (simp_all add: radix_ok_def radix_wf_def P_def)
  obtain l where l: "l \<in># leaf_infos ?n" "lock_ref l = 0" "x = node_id l" using x by (auto simp: evictable_leaves_def)
  obtain r p where cut: "cut ?n r p l" using leaf_cut[OF w l(1)] by blast
  note dl = delete_leaf_cut[OF cut w di]
  obtain p' where p': "p' \<in> set (nodes r)" "info p' = info p" "p' = r \<longleftrightarrow> p = ?n"
      "leaf_infos r + {#l#} = leaf_infos ?n + (if kids p' = [] \<and> p \<noteq> ?n then {#info p#} else {#})"
    using cut_leaves[OF cut w di] by (elim exE conjE)
  have ids: "mset (tree_ids ?n) = mset (tree_ids r) + {#node_id l#}" by (rule cut_ids[OF cut w])
  have di': "distinct (tree_ids r)" using di ids mset_eq_imp_distinct_iff[of "node_id l # tree_ids r" "tree_ids ?n"] by simp
  have fp: "find_node (node_id (info p)) r = Some p'" using find_unique[OF di' p'(1)] p'(2) by simp
  obtain a where a: "radix_free (nvalue l) s = (Inr (), s\<lparr>r_alloc := a\<rparr>)" "page_size a = 1"
      "spare_slots (s\<lparr>r_alloc := a\<rparr>) = spare_slots s + mset (nvalue l)"
    using radix_free_spare[OF ok(3)] by blast
  define s' where "s' = s\<lparr>r_alloc := a, root_node := r, evictable_size := evictable_size s - int (key_len (nkey l))\<rparr>"
  note ck = cut_locks[OF cut w lk l(2)]
  have gl: "length (nvalue l) = key_len (nkey l)" using cut_parent(2)[OF cut w] by (simp add: good_node_def)
  have sub: "set_mset H \<subseteq> set (tree_ids r)"
    using ok(2) ck arg_cong[OF ids, of set_mset] by (auto simp: radix_ok_def)
  have ok': "radix_ok cfg H s'"
    using ok(2) cut_wf[OF cut w] di' ck cut_info[OF cut] sub arg_cong[OF ids, of set_mset] cut_sum[OF cut w, of unlocked_tokens]
      cut_sum[OF cut w, of locked_tokens] l(2)
    by (simp add: radix_ok_def radix_wf_def s'_def P_def unlocked_tokens_def locked_tokens_def)
  have ev: "evicted cfg H (length (nvalue l)) s s'"
    using ok' a(2,3) gl cut_sum[OF cut w, of node_slots] at_node_cut[OF cut] ck cut_lookup[OF cut]
    by (auto simp: evicted_def s'_def cached_slots_sum node_slots_def spare_slots_def ac_simps)
  have "evictable_leaves r + {#l#} = evictable_leaves ?n + (if kids p' = [] \<and> lock_ref (info p') = 0 then {#info p'#} else {#})"
    using arg_cong[OF p'(4), of "filter_mset (\<lambda>i. lock_ref i = 0)"] l(2) r1 p'(2) by (auto simp: evictable_leaves_def split: if_splits)
  from arg_cong[OF this, of "image_mset node_id"]
  have lv: "image_mset node_id (evictable_leaves r) + {#x#} = image_mset node_id (evictable_leaves ?n)
      + (if kids p' = [] \<and> lock_ref (info p') = 0 then {#node_id (info p')#} else {#})"
    by (simp add: l(3) split: if_splits)
  have "image_mset node_id (evictable_leaves r) = image_mset node_id (evictable_leaves ?n) - {#x#}
      + (if kids p' = [] \<and> lock_ref (info p') = 0 then {#node_id (info p')#} else {#})"
    using arg_cong[OF lv, of "\<lambda>M. M - {#x#}"] x by (simp add: multiset_diff_union_assoc split: if_splits)
  moreover have "Suc (length (nodes r)) = length (nodes ?n)" unfolding length_nodes ids by simp
  ultimately show ?thesis using dl l(3) fp a(1) ev unfolding s'_def
    by (intro exI[of _ l] exI[of _ p] exI[of _ p'] exI[of _ a] exI[of _ r] exI[of _ s'] conjI) (simp_all add: s'_def)
qed

lemma heap_ids_pick:
  assumes "i < length heap"
  shows "heap_ids heap = add_mset (snd (snd (heap ! i))) (heap_ids (take i heap @ drop (Suc i) heap))"
proof -
  have "mset heap = add_mset (heap ! i) (mset (take i heap @ drop (Suc i) heap))"
    using arg_cong[OF id_take_nth_drop[OF assms], of mset] by simp
  then show ?thesis by (simp add: heap_ids_def)
qed

lemma evict_loop_spec:
  assumes "active cfg" "radix_ok cfg H s" "page_size (r_alloc s) = 1" "pick_ok cfg"
    and "heap_ids heap = image_mset node_id (evictable_leaves (root_node s))" "length (nodes (root_node s)) < fuel"
  shows "\<exists>n s'. evict_loop cfg fuel num heap acc s = Some (Inr (acc + n), s') \<and> evicted cfg H n s s'
      \<and> (num \<le> acc + n \<or> evictable_size s' = 0)"
  using assms
proof (induction fuel arbitrary: heap acc s)
  case (Suc fuel)
  show ?case
  proof (cases "num \<le> acc \<or> heap = []")
    case True
    have "evictable_size s = 0" if "heap = []"
    proof -
      have "evictable_leaves (root_node s) = {#}" using Suc.prems(5) that by (simp add: heap_ids_def)
      then show ?thesis using all_locked[of H "root_node s"] Suc.prems(2) by (simp add: radix_ok_def)
    qed
    then show ?thesis using True evicted_refl[OF Suc.prems(2,3)] by (intro exI[of _ 0] exI[of _ s]) auto
  next
    case False
    let ?i = "c_pick cfg heap" and ?P = "c_page_size cfg"
    let ?x = "snd (snd (heap ! ?i))" and ?rest = "take ?i heap @ drop (Suc ?i) heap"
    have i: "?i < length heap" using Suc.prems(4) False by (simp add: pick_ok_def)
    note hp = heap_ids_pick[OF i]
    have "?x \<in># image_mset node_id (evictable_leaves (root_node s))" using hp Suc.prems(5) by simp
    from evict_step[OF Suc.prems(1-3) this]
    obtain l p p' a r s1 where st: "find_node ?x (root_node s) = Some (RNode l [])" "parent_of ?x (root_node s) = Some p"
      "radix_free (nvalue l) s = (Inr (), s\<lparr>r_alloc := a\<rparr>)" "delete_leaf ?P ?x (root_node s) = (Inr (), r)"
      "s1 = s\<lparr>r_alloc := a, root_node := r, evictable_size := evictable_size s - int (key_len (nkey l))\<rparr>"
      "find_node (node_id (info p)) r = Some p'" "evicted cfg H (length (nvalue l)) s s1"
      "Suc (length (nodes r)) = length (nodes (root_node s))"
      "image_mset node_id (evictable_leaves r) = image_mset node_id (evictable_leaves (root_node s)) - {#?x#}
          + (if kids p' = [] \<and> lock_ref (info p') = 0 then {#node_id (info p')#} else {#})"
      by (elim exE conjE)
    let ?heap = "if kids p' = [] \<and> lock_ref (info p') = 0 then ?rest @ [heap_entry cfg p'] else ?rest"
    have "image_mset node_id (evictable_leaves (root_node s)) - {#?x#} = heap_ids ?rest" using hp Suc.prems(5) by simp
    then have hs: "heap_ids ?heap = image_mset node_id (evictable_leaves (root_node s1))"
      using st(5,9) by (simp add: heap_ids_def heap_entry_def)
    have ok1: "radix_ok cfg H s1" "page_size (r_alloc s1) = 1" using st(7) by (simp_all add: evicted_def)
    have fl: "length (nodes (root_node s1)) < fuel" using st(5,8) Suc.prems(6) by simp
    obtain n s' where rec: "evict_loop cfg fuel num ?heap (acc + length (nvalue l)) s1 = Some (Inr (acc + length (nvalue l) + n), s')"
      "evicted cfg H n s1 s'" "num \<le> acc + length (nvalue l) + n \<or> evictable_size s' = 0"
      using Suc.IH[OF Suc.prems(1) ok1 Suc.prems(4) hs fl, of "acc + length (nvalue l)"] by (elim exE conjE)
    have s1: "s1 = (s\<lparr>r_alloc := a\<rparr>)\<lparr>root_node := r, evictable_size := evictable_size s - int (key_len (nkey l))\<rparr>" using st(5) by simp
    have "evict_loop cfg (Suc fuel) num heap acc s = evict_loop cfg fuel num ?heap (acc + length (nvalue l)) s1"
      unfolding evict_loop.simps(2) Let_def st(1,2,3,4) using False st(4,6) by (simp add: s1 st(3))
    then show ?thesis using rec evicted_trans[OF st(7) rec(2)]
      by (intro exI[of _ "length (nvalue l) + n"] exI[of _ s']) (simp add: add.assoc)
  qed
qed simp

lemma evict_spec:
  assumes "active cfg" "radix_ok cfg H s" "page_size (r_alloc s) = 1" "pick_ok cfg"
  shows "\<exists>n s'. evict cfg num s = Some (Inr n, s') \<and> evicted cfg H n s s' \<and> (num \<le> n \<or> evictable_size s' = 0)"
proof -
  have "heap_ids (map (heap_entry cfg) (collect_leaves (root_node s))) = image_mset node_id (evictable_leaves (root_node s))"
    unfolding heap_ids_def collect_leaves_evictable[symmetric] by (simp add: heap_entry_def image_mset.compositionality comp_def)
  from evict_loop_spec[OF assms this, of "length (nodes (root_node s)) + 1" num 0] show ?thesis
    using assms(1) by (simp add: evict_def active_def)
qed

end
