(* ===== verification/RadixRequests.thy ===== *)
theory RadixRequests
  imports RadixEvict
begin

text \<open>
  Requests and the prefix cache: what happens to the slots of a request when it finishes or is
  put back into the queue. A request owns the slots of its row behind the protected part; the
  protected part belongs to the tree, at the path of the node the request holds.
\<close>

lemma slice_add: "i \<le> j \<Longrightarrow> j \<le> k \<Longrightarrow> slice xs i j @ slice xs j k = slice xs i k"
proof -
  assume a: "i \<le> j" "j \<le> k"
  have "take (k - i) (drop i xs) = take (j - i) (drop i xs) @ take (k - j) (drop (j - i) (drop i xs))"
    using a by (metis Nat.add_diff_assoc2 le_add_diff_inverse take_add)
  then show ?thesis using a by (simp add: slice_def)
qed

lemma slice_take: "slice (take n xs) i j = slice xs i (min n j)"
  by (auto simp: slice_def drop_take min_def) (metis diff_le_mono le_antisym)

lemma drop_take_slice: "drop i (take j xs) = slice xs i j"
  by (simp add: slice_def drop_take)

lemma radix_ok_update [simp]:
  "radix_ok cfg H (s\<lparr>r_alloc := a\<rparr>) = radix_ok cfg H s" "cached_slots (s\<lparr>r_alloc := a\<rparr>) = cached_slots s"
  "radix_ok cfg H (s\<lparr>r_rows := b\<rparr>) = radix_ok cfg H s" "cached_slots (s\<lparr>r_rows := b\<rparr>) = cached_slots s"
  "spare_slots (s\<lparr>r_rows := b\<rparr>) = spare_slots s"
  by (simp_all add: radix_ok_def radix_wf_def cached_slots_def spare_slots_def)

lemma spare_slots_cong: "r_alloc s = r_alloc t \<Longrightarrow> spare_slots s = spare_slots t"
  by (simp add: spare_slots_def)

text \<open>A request that holds a path of its keys.\<close>

definition holds_path :: "radix_req \<Rightarrow> tok list \<Rightarrow> radix \<Rightarrow> bool" where
  "holds_path rq keys s \<longleftrightarrow>
     cache_protected_len rq \<le> length keys
     \<and> at_node (rq_extra_key rq) (root_node s) (take (cache_protected_len rq) keys) (last_node rq)"

lemma holds_path_stored:
  assumes "active cfg" "radix_wf cfg s" "holds_path rq keys s" "c_page_size cfg dvd length keys"
  shows "cache_protected_len rq \<le> length (stored cfg s (rq_extra_key rq) keys)"
    "length (stored cfg s (rq_extra_key rq) keys) \<le> length keys"
proof -
  let ?P = "c_page_size cfg" and ?n = "cache_protected_len rq"
  have P: "0 < ?P" and w: "wf_tree ?P (root_node s)" using assms(1,2) by (simp_all add: active_def radix_wf_def)
  have a: "at_node (rq_extra_key rq) (root_node s) (take ?n keys) (last_node rq)" and le: "?n \<le> length keys"
    using assms(3) by (simp_all add: holds_path_def)
  have "?P dvd ?n" using at_node_pages[OF a w] le by simp
  then have "?P dvd length (drop ?n keys)" using assms(4) by (simp add: dvd_diff_nat)
  from at_node_lookup[OF a w P this] show "?n \<le> length (stored cfg s (rq_extra_key rq) keys)" using le by simp
  show "length (stored cfg s (rq_extra_key rq) keys) \<le> length keys" using length_lookup[OF P w assms(4)] by simp
qed

lemma length_page_align: "length (page_align P xs) = length xs div P * P"
  by (simp add: page_align_def min_absorb2)

lemma request_keys_whole:
  assumes "0 < c_page_size cfg"
  shows "whole_key cfg (request_key cfg rq (request_keys cfg rq limit))"
  using assms by (simp add: whole_key_def request_key_def request_keys_def key_len_def Let_def length_page_align)

section \<open>Finished requests\<close>

definition finish_limit :: "int option \<Rightarrow> radix_req \<Rightarrow> nat option" where
  "finish_limit insert_len rq =
     map_option (\<lambda>n. nat (max 0 (min n (int (min (length (fill_ids rq)) (kv_committed_len rq)))))) insert_len"

text \<open>The part of the row up to the end of the keys: the new part goes to the tree, the rest is freed.\<close>

lemma finish_step:
  fixes cfg ins k
  defines "i \<equiv> ins \<and> \<not> c_disable_finished_insert cfg"
  assumes "active cfg" "radix_ok cfg H s" "page_size (r_alloc s) = 1" "whole_key cfg k" "length (take (key_len k) kv) = key_len k"
  defines "q \<equiv> if i then length (stored cfg s (extra_key k) (token_ids k)) else key_len k"
  assumes "q \<le> key_len k"
  shows "\<exists>s1. (if i then andthen (radix_insert cfg k (take (key_len k) kv) prio) (\<lambda>m. radix_free (slice kv plen m))
         else radix_free (slice kv plen (key_len k))) s = (Inr (), s1)
      \<and> radix_ok cfg H s1 \<and> page_size (r_alloc s1) = 1 \<and> r_rows s1 = r_rows s
      \<and> spare_slots s1 = spare_slots s + mset (slice kv plen q)
      \<and> cached_slots s1 = cached_slots s + mset (slice kv q (key_len k))
      \<and> (\<forall>x us. c_page_size cfg dvd length us \<longrightarrow> stored cfg s1 x us =
           (if i then store_insert (c_page_size cfg) (stored cfg s) (extra_key k) (token_ids k) (take (key_len k) kv) x us
            else stored cfg s x us))"
proof (cases i)
  case True
  have w: "radix_wf cfg s" using assms(3) by (simp add: radix_ok_def)
  obtain s0 where s0: "radix_insert cfg k (take (key_len k) kv) prio s = (Inr q, s0)" "radix_ok cfg H s0"
      "cached_slots s0 = cached_slots s + mset (drop q (take (key_len k) kv))" "r_alloc s0 = r_alloc s" "r_rows s0 = r_rows s"
    using radix_insert_ok[OF assms(2,3,5,6), of prio] True by (auto simp: q_def)
  have st: "\<forall>x us. c_page_size cfg dvd length us \<longrightarrow> stored cfg s0 x us =
      store_insert (c_page_size cfg) (stored cfg s) (extra_key k) (token_ids k) (take (key_len k) kv) x us"
    using radix_insert_spec[OF assms(2) w assms(5,6), of prio] s0(1) by auto
  obtain a where a: "radix_free (slice kv plen q) s0 = (Inr (), s0\<lparr>r_alloc := a\<rparr>)" "page_size a = 1"
      "spare_slots (s0\<lparr>r_alloc := a\<rparr>) = spare_slots s0 + mset (slice kv plen q)"
    using radix_free_spare[of s0] s0(4) assms(4) by auto
  show ?thesis using True s0 st a spare_slots_cong[OF s0(4)]
    by (intro exI[of _ "s0\<lparr>r_alloc := a\<rparr>"]) (simp add: andthen_Inr drop_take_slice)
next
  case False
  obtain a where a: "radix_free (slice kv plen (key_len k)) s = (Inr (), s\<lparr>r_alloc := a\<rparr>)" "page_size a = 1"
      "spare_slots (s\<lparr>r_alloc := a\<rparr>) = spare_slots s + mset (slice kv plen (key_len k))"
    using radix_free_spare[OF assms(4)] by blast
  show ?thesis using False a assms(3) by (intro exI[of _ "s\<lparr>r_alloc := a\<rparr>"]) (simp add: q_def slice_def)
qed

lemma cache_finished_spec:
  fixes insert_len cfg rq s
  defines "keys \<equiv> request_keys cfg rq (finish_limit insert_len rq)" and "n \<equiv> kv_committed_len rq"
    and "row \<equiv> req_to_token (r_rows s) ! req_pool_idx rq"
  assumes "active cfg" "radix_ok cfg (add_mset (last_node rq) H) s" "page_size (r_alloc s) = 1"
    and "\<not> kv_committed_freed rq" "n \<le> length (origin_input_ids rq @ output_ids rq)"
    and "req_pool_idx rq < length (req_to_token (r_rows s))" "n \<le> length row"
    and "holds_path rq keys s" "length keys \<le> n"
  shows "\<exists>s'. cache_finished_req cfg ins insert_len rq s = (Inr (rq\<lparr>kv_committed_freed := True\<rparr>), s')
      \<and> radix_ok cfg H s'
      \<and> spare_slots s' + cached_slots s' = spare_slots s + cached_slots s + mset (slice row (cache_protected_len rq) n)
      \<and> r_rows s' = rp_free_one (r_rows s) (req_pool_idx rq)
      \<and> (\<forall>x us. c_page_size cfg dvd length us \<longrightarrow> stored cfg s' x us =
           (if ins \<and> \<not> c_disable_finished_insert cfg
            then store_insert (c_page_size cfg) (stored cfg s) (rq_extra_key rq) keys (take (length keys) row) x us
            else stored cfg s x us))"
proof -
  let ?rq = "rq\<lparr>kv_committed_freed := True\<rparr>" and ?k = "request_key cfg rq keys"
  let ?kv = "take n row" and ?plen = "cache_protected_len rq" and ?K = "length keys"
  let ?H = "add_mset (last_node rq) H"
  have keys': "request_keys cfg ?rq (finish_limit insert_len rq) = keys" "request_key cfg ?rq keys = ?k"
    by (simp_all add: keys_def request_keys_def request_key_def)
  have P: "0 < c_page_size cfg" using assms(4) by (simp add: active_def)
  have wk: "whole_key cfg ?k" unfolding keys_def by (rule request_keys_whole[OF P])
  have w: "radix_wf cfg s" using assms(5) by (simp add: radix_ok_def)
  have lv: "length (take ?K ?kv) = key_len ?k" using assms(10,12) by (simp add: request_key_def key_len_def)
  have dv: "c_page_size cfg dvd ?K" using wk by (simp add: whole_key_def request_key_def key_len_def)
  note hp = holds_path_stored[OF assms(4) w assms(11) dv]
  define q where "q = (if ins \<and> \<not> c_disable_finished_insert cfg then length (stored cfg s (rq_extra_key rq) keys) else ?K)"
  have q: "?plen \<le> q" "q \<le> ?K" using hp by (simp_all add: q_def)
  have tk: "take ?K ?kv = take ?K row" using assms(12) by (simp add: min_def)
  define act where "act = (if ins \<and> \<not> c_disable_finished_insert cfg
         then andthen (radix_insert cfg ?k (take ?K ?kv) (rq_priority rq)) (\<lambda>m. radix_free (slice ?kv ?plen m))
         else radix_free (slice ?kv ?plen ?K))"
  obtain s1 where s1: "act s = (Inr (), s1)"
      "radix_ok cfg ?H s1" "page_size (r_alloc s1) = 1" "r_rows s1 = r_rows s"
      "spare_slots s1 = spare_slots s + mset (slice row ?plen q)" "cached_slots s1 = cached_slots s + mset (slice row q ?K)"
      "\<forall>x us. c_page_size cfg dvd length us \<longrightarrow> stored cfg s1 x us =
           (if ins \<and> \<not> c_disable_finished_insert cfg
            then store_insert (c_page_size cfg) (stored cfg s) (rq_extra_key rq) keys (take ?K row) x us
            else stored cfg s x us)"
  proof -
    have kk: "key_len ?k = ?K" "token_ids ?k = keys" "extra_key ?k = rq_extra_key rq" by (simp_all add: request_key_def key_len_def)
    have "slice ?kv ?plen q = slice row ?plen q" "slice ?kv q ?K = slice row q ?K" using q(2) assms(12) by (simp_all add: slice_take min_absorb2)
    note sl = this
    have lr: "length (take ?K row) = ?K" using assms(10,12) by simp
    note f = finish_step[OF assms(4,5,6) wk, where kv = ?kv and ins = ins and prio = "rq_priority rq" and plen = ?plen,
        unfolded kk, unfolded q_def[symmetric] tk sl, OF lr q(2)]
    from f show ?thesis by (elim exE conjE) (rule that[unfolded act_def tk])
  qed
  obtain a where a: "radix_free (slice ?kv ?K n) s1 = (Inr (), s1\<lparr>r_alloc := a\<rparr>)" "page_size a = 1"
      "spare_slots (s1\<lparr>r_alloc := a\<rparr>) = spare_slots s1 + mset (slice ?kv ?K n)"
    using radix_free_spare[OF s1(3)] by blast
  let ?s2 = "s1\<lparr>r_alloc := a, r_rows := rp_free_one (r_rows s) (req_pool_idx rq)\<rparr>"
  have ok2: "radix_ok cfg ?H ?s2" using s1(2) by simp
  obtain d s' where s': "dec_lock_ref cfg (last_node rq) ?s2 = (Inr d, s')" "radix_ok cfg H s'"
      "stored cfg s' = stored cfg ?s2" "cached_slots s' = cached_slots ?s2" "r_alloc s' = r_alloc ?s2" "r_rows s' = r_rows ?s2"
    using dec_lock_ref_ok[OF assms(4) ok2] by (elim exE conjE)
  have "spare_slots s' = spare_slots s1 + mset (slice ?kv ?K n)" using spare_slots_cong[OF s'(5)] a(3) by (simp add: spare_slots_def)
  moreover have "slice ?kv ?K n = slice row ?K n" by (simp add: slice_take)
  moreover have "mset (slice row ?plen q) + mset (slice row q ?K) + mset (slice row ?K n) = mset (slice row ?plen n)"
    using slice_add[of ?plen q ?K row] slice_add[of ?plen ?K n row] q assms(12) by (metis mset_append order_trans)
  ultimately have cons: "spare_slots s' + cached_slots s' = spare_slots s + cached_slots s + mset (slice row ?plen n)"
    using s1(5,6) s'(4) by (simp add: ac_simps)
  have "request_row (req_pool_idx rq) n s = Inr ?kv" using assms(9) by (simp add: request_row_def row_def)
  moreover have "length (take n (origin_input_ids rq @ output_ids rq)) = n" using assms(8) by simp
  ultimately have "cache_finished_req cfg ins insert_len rq s = (Inr ?rq, s')"
    using assms(4,7) s1(1,4) a(1) s'(1) keys'
    by (simp del: length_take length_append take_append take_take split del: if_split cong: if_cong
        add: cache_finished_req_def pop_committed_def active_def Let_def n_def[symmetric] finish_limit_def andthen_Inr act_def[symmetric] ret_def)
  then show ?thesis using s' s1(7) cons by simp
qed

section \<open>Unfinished requests\<close>

lemma dec_lock_ref_at: "dec_lock_ref cfg h s = (r, s') \<Longrightarrow> at_node x (root_node s) us g \<Longrightarrow> at_node x (root_node s') us g"
  using at_node_lock_path[of x "root_node s" us g h "- 1" 1] by (auto simp: dec_lock_ref_def split: if_splits prod.splits)

lemma inc_lock_ref_at: "inc_lock_ref cfg h s = (r, s') \<Longrightarrow> at_node x (root_node s) us g \<Longrightarrow> at_node x (root_node s') us g"
  using at_node_lock_path[of x "root_node s" us g h 1 0] by (auto simp: inc_lock_ref_def split: if_splits prod.splits)

lemma length_bigram: "length (convert_to_bigram_key ts) \<le> length ts"
  by (cases ts) (auto simp: convert_to_bigram_key_def split: tok.splits)

lemma length_request_keys: "length (request_keys cfg rq None) \<le> length (fill_ids rq)"
proof -
  show ?thesis using order_trans[OF div_times_less_eq_dividend length_bigram[of "fill_ids rq"]]
    by (simp add: request_keys_def length_page_align Let_def)
qed

text \<open>After an insertion the whole key is stored.\<close>

lemma store_insert_self:
  assumes "active cfg" "radix_wf cfg s" "c_page_size cfg dvd length ts" "length val = length ts"
  shows "store_insert (c_page_size cfg) (stored cfg s) x ts val x ts =
      stored cfg s x ts @ drop (length (stored cfg s x ts)) val"
    "length (stored cfg s x ts @ drop (length (stored cfg s x ts)) val) = length ts"
proof -
  let ?P = "c_page_size cfg"
  have P: "0 < ?P" and w: "wf_tree ?P (root_node s)" using assms(1,2) by (simp_all add: active_def radix_wf_def)
  have l: "length (stored cfg s x ts) \<le> length ts" using length_lookup[OF P w assms(3)] by simp
  have "match_tokens ?P ts ts = length ts" by (rule match_tokens_eqI[OF P assms(3)]) (use assms(3) in simp_all)
  then show "store_insert ?P (stored cfg s) x ts val x ts = stored cfg s x ts @ drop (length (stored cfg s x ts)) val"
    using l assms(4) by (auto simp: store_insert_def Let_def)
  show "length (stored cfg s x ts @ drop (length (stored cfg s x ts)) val) = length ts" using l assms(4) by simp
qed

lemma cache_unfinished_spec:
  fixes cfg rq s
  defines "keys \<equiv> request_keys cfg rq None" and "row \<equiv> req_to_token (r_rows s) ! req_pool_idx rq"
    and "old \<equiv> stored cfg s (rq_extra_key rq) (request_keys cfg rq None)"
  assumes "active cfg" "radix_ok cfg (add_mset (last_node rq) H) s" "page_size (r_alloc s) = 1"
    and "req_pool_idx rq < length (req_to_token (r_rows s))" "length (fill_ids rq) \<le> length row"
    and "holds_path rq keys s"
  shows "\<exists>l s'. let new = old @ slice row (length old) (length keys) in
        cache_unfinished_req cfg rq s = (Inr (rq\<lparr>cache_protected_len := length keys,
           prefix_indices := new @ slice row (length keys) (length (fill_ids rq)), last_node := l\<rparr>), s')
      \<and> radix_ok cfg (add_mset l H) s'
      \<and> at_node (rq_extra_key rq) (root_node s') keys l
      \<and> stored cfg s' (rq_extra_key rq) keys = new
      \<and> spare_slots s' + cached_slots s' = spare_slots s + cached_slots s
           + mset (slice row (cache_protected_len rq) (length keys))
      \<and> r_rows s' = (r_rows s)\<lparr>req_to_token := (req_to_token (r_rows s))[req_pool_idx rq :=
           blit (cache_protected_len rq) (drop (cache_protected_len rq) new) row]\<rparr>"
proof -
  let ?k = "request_key cfg rq keys" and ?x = "rq_extra_key rq" and ?P = "c_page_size cfg"
  let ?kv = "take (length (fill_ids rq)) row" and ?plen = "cache_protected_len rq" and ?K = "length keys"
  let ?H = "add_mset (last_node rq) H"
  define q where "q = length old"
  define new where "new = old @ slice row q ?K"
  have P: "0 < ?P" using assms(4) by (simp add: active_def)
  have wk: "whole_key cfg ?k" unfolding keys_def by (rule request_keys_whole[OF P])
  have w: "radix_wf cfg s" using assms(5) by (simp add: radix_ok_def)
  have Kn: "?K \<le> length (fill_ids rq)" unfolding keys_def by (rule length_request_keys)
  have tk: "take ?K ?kv = take ?K row" using Kn by (simp add: min_def)
  have kk: "key_len ?k = ?K" "token_ids ?k = keys" "extra_key ?k = ?x" by (simp_all add: request_key_def key_len_def)
  have lv: "length (take ?K row) = key_len ?k" "length (take ?K row) = ?K" using assms(8) Kn by (simp_all add: kk)
  have dv: "?P dvd ?K" using wk by (simp add: whole_key_def request_key_def key_len_def)
  have old: "old = stored cfg s ?x keys" by (simp add: old_def keys_def)
  note hp = holds_path_stored[OF assms(4) w assms(9) dv, folded old, folded q_def]
  obtain s0 where s0: "radix_insert cfg ?k (take ?K row) (rq_priority rq) s = (Inr q, s0)" "radix_ok cfg ?H s0"
      "cached_slots s0 = cached_slots s + mset (slice row q ?K)" "r_alloc s0 = r_alloc s" "r_rows s0 = r_rows s"
    using radix_insert_ok[OF assms(4,5) wk lv(1), of "rq_priority rq"] by (auto simp: kk old[symmetric] q_def[symmetric] drop_take_slice)
  have st0: "stored cfg s0 ?x keys = new"
    using radix_insert_spec[OF assms(4) w wk lv(1), of "rq_priority rq"] s0(1) store_insert_self(1)[OF assms(4) w dv lv(2), of ?x] dv
    by (auto simp: kk old[symmetric] q_def[symmetric] new_def drop_take_slice)
  have ln: "length new = ?K"
    using store_insert_self(2)[OF assms(4) w dv lv(2), of ?x] by (simp add: old[symmetric] q_def[symmetric] new_def drop_take_slice)
  obtain a where a: "radix_free (slice ?kv ?plen q) s0 = (Inr (), s0\<lparr>r_alloc := a\<rparr>)" "page_size a = 1"
      "spare_slots (s0\<lparr>r_alloc := a\<rparr>) = spare_slots s0 + mset (slice ?kv ?plen q)"
    using radix_free_spare[of s0] s0(4) assms(6) by auto
  let ?s1 = "s0\<lparr>r_alloc := a\<rparr>"
  have ok1: "radix_ok cfg ?H ?s1" and w1: "radix_wf cfg ?s1" using s0(2) by (simp_all add: radix_ok_def radix_wf_def)
  obtain l s2 where m: "match_prefix cfg ?k ?s1 = (Inr (new, l), s2)" "radix_ok cfg ?H s2" "cached_slots s2 = cached_slots s0"
      "r_alloc s2 = a" "r_rows s2 = r_rows s"
    using match_prefix_ok[OF assms(4) ok1 wk] st0 s0(5) by (auto simp: kk)
  have st2: "stored cfg s2 ?x keys = new" using match_prefix_spec[OF assms(4) w1 wk] m(1) st0 dv by (auto simp: kk)
  have at2: "at_node ?x (root_node s2) keys l" using match_prefix_at[OF assms(4) w1 wk m(1)] ln by (simp add: kk)
  let ?rows = "(r_rows s)\<lparr>req_to_token := (req_to_token (r_rows s))[req_pool_idx rq := blit ?plen (drop ?plen new) row]\<rparr>"
  have wr: "rp_write (req_pool_idx rq) ?plen ?K (drop ?plen new) (r_rows s) = (Inr (), ?rows)"
    using assms(7,8) Kn ln hp by (simp add: rp_write_def Let_def row_def[symmetric] min_def)
  let ?s3 = "s2\<lparr>r_rows := ?rows\<rparr>"
  have ok3: "radix_ok cfg ?H ?s3" using m(2) by simp
  obtain d s4 where s4: "dec_lock_ref cfg (last_node rq) ?s3 = (Inr d, s4)" "radix_ok cfg H s4"
      "stored cfg s4 = stored cfg ?s3" "cached_slots s4 = cached_slots ?s3" "r_alloc s4 = r_alloc ?s3" "r_rows s4 = r_rows ?s3"
    using dec_lock_ref_ok[OF assms(4) ok3] by (elim exE conjE)
  have at4: "at_node ?x (root_node s4) keys l" using dec_lock_ref_at[OF s4(1), of ?x keys l] at2 by simp
  obtain e s' where s': "inc_lock_ref cfg l s4 = (Inr (- e), s')" "radix_ok cfg (add_mset l H) s'"
      "stored cfg s' = stored cfg s4" "cached_slots s' = cached_slots s4" "r_alloc s' = r_alloc s4" "r_rows s' = r_rows s4"
    using inc_lock_ref_ok[OF assms(4) s4(2) at_node_ids[OF at4]] by (elim exE conjE)
  have at': "at_node ?x (root_node s') keys l" by (rule inc_lock_ref_at[OF s'(1) at4])
  have "slice ?kv ?plen q = slice row ?plen q" using hp(2) Kn by (simp add: slice_take min_absorb2)
  moreover have "spare_slots s' = spare_slots ?s1" using m(4) s4(5) s'(5) by (simp add: spare_slots_def)
  moreover have "mset (slice row ?plen q) + mset (slice row q ?K) = mset (slice row ?plen ?K)"
    using slice_add[OF hp, of row] by (metis mset_append)
  ultimately have cons: "spare_slots s' + cached_slots s' = spare_slots s + cached_slots s + mset (slice row ?plen ?K)"
    using a(3) spare_slots_cong[OF s0(4)] s0(3) m(3) s4(4) s'(4) by (simp add: ac_simps)
  have rr: "request_row (req_pool_idx rq) (length (fill_ids rq)) s = Inr ?kv" using assms(7) by (simp add: request_row_def row_def)
  have tail: "(if ?K < length ?kv then new @ drop ?K ?kv else new) = new @ slice row ?K (length (fill_ids rq))"
    using assms(8) Kn by (simp add: drop_take_slice) (simp add: slice_def)
  have "cache_unfinished_req cfg rq s = (Inr (rq\<lparr>cache_protected_len := ?K,
      prefix_indices := new @ slice row ?K (length (fill_ids rq)), last_node := l\<rparr>), s')"
    using assms(4) rr s0(1) a(1) m(1,5) wr s4(1) s'(1) ln
    by (simp add: cache_unfinished_req_def active_def Let_def keys_def[symmetric] tk andthen_Inr ret_def tail[symmetric]
        cong: if_cong split del: if_split del: take_take length_take)
  then show ?thesis unfolding Let_def q_def[symmetric] new_def[symmetric]
    using s' s4(3,6) st2 at' cons m(5) by (intro exI[of _ l] exI[of _ s'] conjI) simp_all
qed

end
