(* ===== verification/RadixProps.thy ===== *)
theory RadixProps
  imports RadixRequests
begin

text \<open>
  The prefix cache under any sequence of operations, eviction, and the life of a request in it.
\<close>

section \<open>Runs of the cache\<close>

text \<open>
  The states that clients can reach from an empty cache, with the nodes that are held. Keys are
  in whole pages; a node is locked only while it is in the tree and unlocked by a holder.
\<close>

inductive cache_run :: "radix_config \<Rightarrow> nat multiset \<Rightarrow> radix \<Rightarrow> bool" for cfg where
  start: "page_size (r_alloc s) = 1 \<Longrightarrow> cache_run cfg {#} (reset cfg s)"
| find: "cache_run cfg H s \<Longrightarrow> whole_key cfg k \<Longrightarrow> match_prefix cfg k s = (r, s') \<Longrightarrow> cache_run cfg H s'"
| insert: "cache_run cfg H s \<Longrightarrow> whole_key cfg k \<Longrightarrow> length val = key_len k \<Longrightarrow>
    radix_insert cfg k val prio s = (r, s') \<Longrightarrow> cache_run cfg H s'"
| lock: "cache_run cfg H s \<Longrightarrow> h \<in> set (tree_ids (root_node s)) \<Longrightarrow> inc_lock_ref cfg h s = (r, s') \<Longrightarrow>
    cache_run cfg (add_mset h H) s'"
| unlock: "cache_run cfg (add_mset h H) s \<Longrightarrow> dec_lock_ref cfg h s = (r, s') \<Longrightarrow> cache_run cfg H s'"
| evict: "cache_run cfg H s \<Longrightarrow> evict cfg num s = Some (r, s') \<Longrightarrow> cache_run cfg H s'"

lemma cache_run_ok:
  assumes "active cfg" "pick_ok cfg" "cache_run cfg H s"
  shows "radix_ok cfg H s \<and> page_size (r_alloc s) = 1"
  using assms(3)
proof (induction rule: cache_run.induct)
  case (start s)
  then show ?case using reset_ok(1)[of cfg s] by (simp add: reset_def)
next
  case (find H s k r s')
  then show ?case using match_prefix_ok[OF assms(1) conjunct1[OF find.IH] find.hyps(2)] by auto
next
  case (insert H s k val prio r s')
  then show ?case using radix_insert_ok[OF assms(1) conjunct1[OF insert.IH] insert.hyps(2,3), of prio] by auto
next
  case (lock H s h r s')
  then show ?case using inc_lock_ref_ok[OF assms(1) conjunct1[OF lock.IH] lock.hyps(2)] by auto
next
  case (unlock h H s r s')
  then show ?case using dec_lock_ref_ok[OF assms(1) conjunct1[OF unlock.IH]] by auto
next
  case (evict H s num r s')
  then show ?case using evict_spec[OF assms(1) _ _ assms(2), of H s num] by (auto simp: evicted_def)
qed

lemma locks_ok_nodes: "locks_ok H n \<Longrightarrow> m \<in> set (tl (nodes n)) \<Longrightarrow> lock_ref (info m) = int (held H m)"
proof (induction n rule: rnode_induct)
  case (RNode i ks)
  obtain ck c where c: "(ck, c) \<in> set ks" "m \<in> set (nodes c)" using RNode.prems(2) by auto
  have l: "lock_ref (info c) = int (held H c)" "locks_ok H c" using RNode.prems(1) c(1) by (auto simp: list_all_iff)
  show ?case
  proof (cases "m = c")
    case False
    then have "m \<in> set (tl (nodes c))" using c(2) by (cases c) auto
    then show ?thesis by (rule RNode.IH[OF c(1) l(2)])
  qed (use l in simp)
qed

lemma below_sum_list: "below_sum f n = sum_list (map (f \<circ> info) (tl (nodes n)))" for f :: "node_info \<Rightarrow> int"
  using sum_nodes[of f n] by (cases n) (simp add: node_sum_def)

lemma tokens_split:
  assumes "wf_tree P n"
  shows "below_sum unlocked_tokens n + below_sum locked_tokens n = int (size (below_sum node_slots n))"
  using assms
proof (induction n rule: rnode_induct)
  case (RNode i ks)
  have "node_sum unlocked_tokens c + node_sum locked_tokens c = int (size (node_sum node_slots c))" if "(ck, c) \<in> set ks" for ck c
  proof -
    have g: "good_node P (info c)" "wf_tree P c" using RNode.prems that by (auto simp: list_all_iff)
    have "unlocked_tokens (info c) + locked_tokens (info c) = int (size (node_slots (info c)))"
      using g(1) by (simp add: unlocked_tokens_def locked_tokens_def node_slots_def good_node_def)
    then show ?thesis using RNode.IH[OF that g(2)] by (simp add: node_sum_def)
  qed
  then have "sum_list (map (node_sum unlocked_tokens \<circ> snd) ks) + sum_list (map (node_sum locked_tokens \<circ> snd) ks)
      = int (size (sum_list (map (node_sum node_slots \<circ> snd) ks)))"
    by (induction ks) (fastforce simp del: split_paired_All)+
  then show ?case unfolding below_sum_node_sum .
qed

text \<open>
  C7: In every reachable state of the cache the counter of a node is the number of holders at or
  below it, every held node is in the tree, \<open>evictable_size\<close> counts the tokens in nodes without a
  lock, \<open>protected_size\<close> those in locked nodes, and together they count the cached slots.
\<close>

theorem cache_run_invariant:
  assumes "active cfg" "pick_ok cfg" "cache_run cfg H s"
  shows "set_mset H \<subseteq> set (tree_ids (root_node s)) \<and> distinct (tree_ids (root_node s))
    \<and> (\<forall>m \<in> set (tl (nodes (root_node s))). lock_ref (info m) = int (size {#h \<in># H. h \<in> set (tree_ids m)#}))
    \<and> evictable_size s = (\<Sum>m \<leftarrow> tl (nodes (root_node s)). if lock_ref (info m) = 0 then int (key_len (nkey (info m))) else 0)
    \<and> protected_size s = (\<Sum>m \<leftarrow> tl (nodes (root_node s)). if lock_ref (info m) = 0 then 0 else int (key_len (nkey (info m))))
    \<and> evictable_size s + protected_size s = int (length (tree_slots (root_node s)))"
proof -
  note ok = conjunct1[OF cache_run_ok[OF assms]]
  have "int (size (cached_slots s)) = evictable_size s + protected_size s"
    using tokens_split[of "c_page_size cfg" "root_node s"] ok by (simp add: radix_ok_def radix_wf_def cached_slots_sum)
  moreover have "\<forall>m \<in> set (tl (nodes (root_node s))). lock_ref (info m) = int (held H m)"
    using locks_ok_nodes[of H "root_node s"] ok by (simp add: radix_ok_def)
  ultimately show ?thesis using ok
    by (simp add: radix_ok_def held_def cached_slots_def below_sum_list comp_def unlocked_tokens_def locked_tokens_def)
qed

lemma length_request_keys_limit: "length (request_keys cfg rq (Some k)) \<le> k"
  using order_trans[OF div_times_less_eq_dividend, of _ k "c_page_size cfg"]
  by (simp add: request_keys_def length_page_align Let_def)

section \<open>Eviction\<close>

text \<open>
  C12: \<open>evict\<close> ends: it frees at least the tokens asked for, or all that no request holds. The
  evicted tokens leave the evictable size only, their slots go from the tree to the free slots and
  no other slot moves, every node that is held stays at the end of its path, and every key finds a
  prefix of what it found before.
\<close>

theorem evict_frees_unlocked:
  assumes "active cfg" "radix_ok cfg H s" "page_size (r_alloc s) = 1" "pick_ok cfg"
  shows "\<exists>n s'. evict cfg num s = Some (Inr n, s') \<and> (num \<le> n \<or> evictable_size s' = 0)
    \<and> radix_ok cfg H s' \<and> evictable_size s' = evictable_size s - int n \<and> protected_size s' = protected_size s
    \<and> spare_slots s' + cached_slots s' = spare_slots s + cached_slots s
    \<and> size (spare_slots s') = size (spare_slots s) + n
    \<and> (\<forall>x us h. h \<in># H \<longrightarrow> at_node x (root_node s) us h \<longrightarrow> at_node x (root_node s') us h)
    \<and> (\<forall>x ts. \<exists>rest. stored cfg s x ts = stored cfg s' x ts @ rest)"
  using evict_spec[OF assms, of num] unfolding evicted_def by blast

section \<open>Requests\<close>

text \<open>
  C13: When a request finishes, its row and its lock are given back, and each slot of the row
  behind the protected part goes either to the free slots or to the tree, none to both and none
  lost. The tree takes the keys up to \<open>insert_len\<close>, so the candidates of a tree-value request,
  which follow its prefix, are never cached.
\<close>

theorem finished_request_conserves_slots:
  fixes insert_len cfg rq s
  defines "keys \<equiv> request_keys cfg rq (finish_limit insert_len rq)" and "n \<equiv> kv_committed_len rq"
    and "row \<equiv> req_to_token (r_rows s) ! req_pool_idx rq"
  assumes "active cfg" "radix_ok cfg (add_mset (last_node rq) H) s" "page_size (r_alloc s) = 1"
    and "\<not> kv_committed_freed rq" "n \<le> length (origin_input_ids rq @ output_ids rq)"
    and "req_pool_idx rq < length (req_to_token (r_rows s))" "n \<le> length row"
    and "holds_path rq keys s" "length keys \<le> n"
  shows "\<exists>s'. cache_finished_req cfg ins insert_len rq s = (Inr (rq\<lparr>kv_committed_freed := True\<rparr>), s')
      \<and> radix_ok cfg H s'
      \<and> spare_slots s' + cached_slots s' = spare_slots s + cached_slots s + mset (slice row (cache_protected_len rq) n)
      \<and> r_rows s' = rp_free_one (r_rows s) (req_pool_idx rq)
      \<and> (\<forall>x us. c_page_size cfg dvd length us \<longrightarrow> stored cfg s' x us =
           (if ins \<and> \<not> c_disable_finished_insert cfg
            then store_insert (c_page_size cfg) (stored cfg s) (rq_extra_key rq) keys (take (length keys) row) x us
            else stored cfg s x us))
      \<and> (\<forall>m. insert_len = Some m \<longrightarrow> int (length keys) \<le> max 0 m)"
proof -
  have lim: "int (length keys) \<le> max 0 m" if "insert_len = Some m" for m
  proof -
    define b where "b = int (min (length (fill_ids rq)) n)"
    have "finish_limit insert_len rq = Some (nat (max 0 (min m b)))" using that by (simp add: finish_limit_def b_def n_def)
    then have "length keys \<le> nat (max 0 (min m b))" using length_request_keys_limit[of cfg rq "nat (max 0 (min m b))"] by (simp add: keys_def)
    then show ?thesis by linarith
  qed
  note f = cache_finished_spec[OF assms(4-6) assms(7-12)[unfolded keys_def n_def row_def], of ins]
  from f show ?thesis using lim unfolding keys_def n_def row_def
    by (elim exE conjE) (intro exI conjI allI impI; (assumption | blast))
qed

text \<open>
  C14: When a running request is put into the cache, the tree takes the slots it does not have yet,
  the slots it has a copy of are freed, the row of the request is redirected to the slots of the
  tree, and the lock moves to the end of the longer path: the request now protects all its keys.
\<close>

theorem unfinished_request_moves_to_tree:
  fixes cfg rq s
  defines "keys \<equiv> request_keys cfg rq None" and "row \<equiv> req_to_token (r_rows s) ! req_pool_idx rq"
    and "old \<equiv> stored cfg s (rq_extra_key rq) (request_keys cfg rq None)"
  assumes "active cfg" "radix_ok cfg (add_mset (last_node rq) H) s" "page_size (r_alloc s) = 1"
    and "req_pool_idx rq < length (req_to_token (r_rows s))" "length (fill_ids rq) \<le> length row"
    and "holds_path rq keys s"
  shows "\<exists>l s'. let new = old @ slice row (length old) (length keys) in
        cache_unfinished_req cfg rq s = (Inr (rq\<lparr>cache_protected_len := length keys,
           prefix_indices := new @ slice row (length keys) (length (fill_ids rq)), last_node := l\<rparr>), s')
      \<and> radix_ok cfg (add_mset l H) s'
      \<and> at_node (rq_extra_key rq) (root_node s') keys l
      \<and> stored cfg s' (rq_extra_key rq) keys = new
      \<and> spare_slots s' + cached_slots s' = spare_slots s + cached_slots s
           + mset (slice row (cache_protected_len rq) (length keys))
      \<and> r_rows s' = (r_rows s)\<lparr>req_to_token := (req_to_token (r_rows s))[req_pool_idx rq :=
           blit (cache_protected_len rq) (drop (cache_protected_len rq) new) row]\<rparr>"
  using cache_unfinished_spec[OF assms(4-6)] assms(7-9) unfolding keys_def row_def old_def by blast

section \<open>A small cache in use\<close>

text \<open>The cache holds the tokens 5, 6, 7; a request has matched 5, 6 and holds the node of the split.\<close>

definition demo_matched :: radix where
  "demo_matched = snd (match_prefix demo_cfg (demo_key [5, 6]) demo_full)"

definition demo_held :: radix where
  "demo_held = snd (inc_lock_ref demo_cfg 2 demo_matched)"

definition demo_serving :: radix where
  "demo_serving = demo_held\<lparr>r_rows := (r_rows demo_held)\<lparr>req_to_token := [[1, 2, 4, 5], [0, 0, 0, 0]]\<rparr>\<rparr>"

definition demo_req :: radix_req where
  "demo_req = \<lparr>req_pool_idx = 0, origin_input_ids = [Tok 5, Tok 6, Tok 8], output_ids = [Tok 9, Tok 1],
     fill_ids = [Tok 5, Tok 6, Tok 8], rq_extra_key = None, last_node = 2, cache_protected_len = 2,
     prefix_indices = [1, 2], rq_priority = 0, kv_committed_len = 4, kv_committed_freed = False\<rparr>"

lemma demo_run: "cache_run demo_cfg {#2#} demo_held"
proof -
  have "cache_run demo_cfg {#} demo_start" unfolding demo_start_def by (rule cache_run.start) code_simp
  then have "cache_run demo_cfg {#} demo_full"
    unfolding demo_full_def by (rule cache_run.insert[OF _ demo_facts(4) _ surjective_pairing]) (simp add: demo_key_def key_len_def)
  then have m: "cache_run demo_cfg {#} demo_matched"
    unfolding demo_matched_def by (rule cache_run.find[OF _ demo_facts(4) surjective_pairing])
  have "2 \<in> set (tree_ids (root_node demo_matched))" by code_simp
  from cache_run.lock[OF m this surjective_pairing] show ?thesis unfolding demo_held_def .
qed

lemma demo_pick: "pick_ok demo_cfg"
  by (simp add: pick_ok_def demo_cfg_def)

lemma demo_ok: "radix_ok demo_cfg {#2#} demo_held" "page_size (r_alloc demo_held) = 1"
  using cache_run_ok[OF demo_facts(1) demo_pick demo_run] by simp_all

lemma demo_path: "at_node None (root_node demo_held) (map Tok [5, 6]) 2"
proof -
  have "fst (match_prefix demo_cfg (demo_key [5, 6]) demo_full) = Inr ([1, 2], 2)" by code_simp
  then have "match_prefix demo_cfg (demo_key [5, 6]) demo_full = (Inr ([1, 2], 2), demo_matched)"
    unfolding demo_matched_def by (metis surjective_pairing)
  from match_prefix_at[OF demo_facts(1,3,4) this] have "at_node None (root_node demo_matched) (map Tok [5, 6]) 2"
    by (simp add: demo_key_def)
  then show ?thesis unfolding demo_held_def by (rule inc_lock_ref_at[OF surjective_pairing])
qed

theorem cache_run_invariant_witness:
  "evictable_size demo_held + protected_size demo_held = int (length (tree_slots (root_node demo_held)))
   \<and> evictable_size demo_held = 1 \<and> protected_size demo_held = 2"
proof -
  have "evictable_size demo_held = 1" "protected_size demo_held = 2" by code_simp+
  then show ?thesis using cache_run_invariant[OF demo_facts(1) demo_pick demo_run] by simp
qed

theorem evict_frees_unlocked_witness:
  "\<exists>n s'. evict demo_cfg 2 demo_held = Some (Inr n, s') \<and> (2 \<le> n \<or> evictable_size s' = 0)
     \<and> protected_size s' = protected_size demo_held \<and> at_node None (root_node s') (map Tok [5, 6]) 2"
  using evict_frees_unlocked[OF demo_facts(1) demo_ok demo_pick, of 2] demo_path by fastforce

lemma demo_serving_facts:
  "radix_ok demo_cfg (add_mset (last_node demo_req) {#}) demo_serving" "page_size (r_alloc demo_serving) = 1"
  "request_keys demo_cfg demo_req (finish_limit None demo_req) = map Tok [5, 6, 8]"
  "request_keys demo_cfg demo_req None = map Tok [5, 6, 8]"
  "holds_path demo_req (map Tok [5, 6, 8]) demo_serving"
  using demo_ok demo_path
  by (simp_all add: demo_serving_def demo_req_def holds_path_def request_keys_def finish_limit_def demo_cfg_def page_align_def)

lemma demo_rows: "req_to_token (r_rows demo_serving) = [[1, 2, 4, 5], [0, 0, 0, 0]]"
  by (simp add: demo_serving_def)

lemma demo_stored: "stored demo_cfg demo_serving None (map Tok [5, 6, 8]) = [1, 2]"
  by code_simp

theorem finished_request_conserves_slots_witness:
  "\<exists>s'. cache_finished_req demo_cfg True None demo_req demo_serving = (Inr (demo_req\<lparr>kv_committed_freed := True\<rparr>), s')
     \<and> radix_ok demo_cfg {#} s'
     \<and> spare_slots s' + cached_slots s' = spare_slots demo_serving + cached_slots demo_serving + {#4, 5#}
     \<and> stored demo_cfg s' None (map Tok [5, 6, 8]) = [1, 2, 4]"
proof -
  have st: "store_insert (c_page_size demo_cfg) (stored demo_cfg demo_serving) None (map Tok [5, 6, 8]) (take 3 [1, 2, 4, 5])
      None (map Tok [5, 6, 8]) = [1, 2, 4]" by code_simp
  note f = finished_request_conserves_slots[OF demo_facts(1) demo_serving_facts(1,2), where insert_len = None and ins = True,
      unfolded demo_serving_facts(3), OF _ _ _ _ demo_serving_facts(5)]
  have r: "rq_extra_key demo_req = None" "req_pool_idx demo_req = 0" "kv_committed_len demo_req = 4" "cache_protected_len demo_req = 2"
    "\<not> kv_committed_freed demo_req" "length (origin_input_ids demo_req @ output_ids demo_req) = 5"
    by (simp_all add: demo_req_def)
  have c: "\<not> c_disable_finished_insert demo_cfg" "c_page_size demo_cfg = 1" by (simp_all add: demo_cfg_def)
  from f[unfolded r demo_rows] obtain s' where
    "cache_finished_req demo_cfg True None demo_req demo_serving = (Inr (demo_req\<lparr>kv_committed_freed := True\<rparr>), s')"
    "radix_ok demo_cfg {#} s'"
    "spare_slots s' + cached_slots s' = spare_slots demo_serving + cached_slots demo_serving + mset (slice [1, 2, 4, 5] 2 4)"
    "\<forall>x us. c_page_size demo_cfg dvd length us \<longrightarrow> stored demo_cfg s' x us =
       store_insert (c_page_size demo_cfg) (stored demo_cfg demo_serving) None (map Tok [5, 6, 8]) (take 3 [1, 2, 4, 5]) x us"
    using r(5) c by auto
  then show ?thesis using st c by (intro exI[of _ s']) (simp add: slice_def)
qed

theorem unfinished_request_moves_to_tree_witness:
  "\<exists>l s'. cache_unfinished_req demo_cfg demo_req demo_serving =
       (Inr (demo_req\<lparr>cache_protected_len := 3, prefix_indices := [1, 2, 4], last_node := l\<rparr>), s')
     \<and> radix_ok demo_cfg {#l#} s' \<and> at_node None (root_node s') (map Tok [5, 6, 8]) l"
proof -
  note f = unfinished_request_moves_to_tree[OF demo_facts(1) demo_serving_facts(1,2),
      unfolded demo_serving_facts(4), OF _ _ demo_serving_facts(5)]
  have r: "rq_extra_key demo_req = None" "req_pool_idx demo_req = 0" "length (fill_ids demo_req) = 3"
    by (simp_all add: demo_req_def)
  from f[unfolded r demo_rows demo_stored] obtain l s' where
    "cache_unfinished_req demo_cfg demo_req demo_serving =
       (Inr (demo_req\<lparr>cache_protected_len := 3, prefix_indices := [1, 2, 4], last_node := l\<rparr>), s')"
    "radix_ok demo_cfg {#l#} s'" "at_node None (root_node s') (map Tok [5, 6, 8]) l"
    by (auto simp: Let_def slice_def numeral_3_eq_3)
  then show ?thesis by blast
qed

end
