(* ===== verification/TreeValueRequests.thy ===== *)
theory TreeValueRequests
  imports RadixCache TreeValueSpec
begin

text \<open>
  Tree-value requests in the serving engine: admission (\<open>handle_tree_value_request\<close> and the waiting
  queue of \<open>managers/scheduler.py\<close>), the prefix match before a prefill (\<open>init_next_round_input\<close> of
  \<open>managers/schedule_batch.py\<close>), the inputs of the mask builder, and the release of the KV cache at the
  end (\<open>managers/scheduler_output_processor_mixin.py\<close>, \<open>mem_cache/common.py\<close>). The server runs without
  disaggregation, hierarchical cache, diffusion models and multimodal positions.
\<close>

section \<open>Requests\<close>

text \<open>\<open>TokenizedTreeValueReqInput\<close>.\<close>

record tv_input =
  in_rid :: string
  in_prefix_ids :: "int list"
  in_candidate_ids :: "int list"
  in_combined_ids :: "int list"
  in_prefix_len :: int
  in_candidate_len :: int
  in_bypass_cache :: bool
  in_priority :: "int option"

text \<open>
  The fields of a request that these functions use, around the fields that the prefix cache reads.
  The held node is \<open>None\<close> before the first match; the model has 0 there, and no function reads it.
\<close>

record tv_req =
  rid :: string
  cached :: radix_req
  sched_priority :: "int option"
  is_tree_value :: bool
  req_prefix_len :: int
  req_candidate_len :: int
  req_bypass_cache :: bool
  return_logprob :: bool
  logprob_start_len :: int
  extend_input_len :: int
  extend_logprob_start_len :: int
  kv_allocated_len :: nat
  kv_overallocated_freed :: bool
  wait_queue_entry_time :: real

definition set_extend_input_len :: "int \<Rightarrow> tv_req \<Rightarrow> tv_req" where
  "set_extend_input_len n t =
     (let pre = int (length (prefix_indices (cached t)));
          start = (if logprob_start_len t = - 1 then int (length (fill_ids (cached t))) - 1
                   else max (logprob_start_len t) pre)
      in t\<lparr>extend_input_len := n, extend_logprob_start_len := min (start - pre) n\<rparr>)"

text \<open>How much of a request may be taken from the prefix cache.\<close>

definition max_prefix_len :: "tv_req \<Rightarrow> int \<Rightarrow> int" where
  "max_prefix_len t input_len =
     (let m0 = input_len - 1;
          m1 = (if is_tree_value t \<and> req_prefix_len t > 0 then min m0 (max (req_prefix_len t - 1) 0) else m0);
          m2 = (if return_logprob t \<and> logprob_start_len t \<ge> 0 then min m1 (logprob_start_len t) else m1)
      in max m2 0)"

definition init_next_round_input :: "radix_config option \<Rightarrow> tv_req \<Rightarrow> (radix, tv_req) run" where
  "init_next_round_input tree_cache t s =
     (let c = cached t; c1 = c\<lparr>fill_ids := origin_input_ids c @ output_ids c\<rparr>;
          ids = take (nat (max_prefix_len t (int (length (fill_ids c1))))) (fill_ids c1);
          done = (\<lambda>c'. set_extend_input_len (int (length (fill_ids c')) - int (length (prefix_indices c'))) (t\<lparr>cached := c'\<rparr>))
      in case tree_cache of
           None \<Rightarrow> (Inr (done c1), s)
         | Some cfg \<Rightarrow>
             andthen (match_prefix cfg \<lparr>token_ids = ids, extra_key = rq_extra_key c, is_bigram = False\<rparr>)
               (\<lambda>(indices, node). ret (done (c1\<lparr>prefix_indices := indices, last_node := node,
                                              cache_protected_len := length indices\<rparr>))) s)"

section \<open>The waiting queue\<close>

record sched_config =
  sc_radix :: radix_config
  enable_priority_scheduling :: bool
  schedule_low_priority_values_first :: bool
  abort_on_priority_when_disabled :: bool
  max_queued_requests :: "nat option"
  max_req_input_len :: nat
  allow_auto_truncate :: bool
  perf_counter :: "nat \<Rightarrow> real"

text \<open>The tree cache, the queue, the requests that were answered with an abort, and the clock readings.\<close>

record sched =
  tree_cache :: radix
  waiting_queue :: "tv_req list"
  aborted :: "tv_req list"
  sc_readings :: nat

definition set_priority :: "int \<Rightarrow> tv_req \<Rightarrow> tv_req" where
  "set_priority p t = t\<lparr>sched_priority := Some p, cached := (cached t)\<lparr>rq_priority := p\<rparr>\<rparr>"

text \<open>\<open>_set_or_validate_priority\<close>: the request to queue, or \<open>None\<close> when it was aborted.\<close>

definition set_or_validate_priority :: "sched_config \<Rightarrow> tv_req \<Rightarrow> (sched, tv_req option) run" where
  "set_or_validate_priority cfg t s =
     (if enable_priority_scheduling cfg \<and> sched_priority t = None
      then (Inr (Some (set_priority (if schedule_low_priority_values_first cfg then 2 ^ 63 - 1 else - (2 ^ 63 - 1) - 1) t)), s)
      else if \<not> enable_priority_scheduling cfg \<and> sched_priority t \<noteq> None \<and> abort_on_priority_when_disabled cfg
      then (Inr None, s\<lparr>aborted := aborted s @ [t]\<rparr>)
      else (Inr (Some t), s))"

text \<open>The first index with the largest key, as Python's \<open>max\<close> over \<open>enumerate\<close> finds it.\<close>

fun max_index :: "(int \<times> real) list \<Rightarrow> nat option" where
  "max_index [] = None"
| "max_index (k # ks) =
     (case max_index ks of
        None \<Rightarrow> Some 0
      | Some j \<Rightarrow> if fst (ks ! j) > fst k \<or> (fst (ks ! j) = fst k \<and> snd (ks ! j) > snd k) then Some (Suc j) else Some 0)"

definition queue_key :: "int \<Rightarrow> tv_req \<Rightarrow> (int \<times> real) res" where
  "queue_key direction t =
     (case sched_priority t of None \<Rightarrow> Inl TypeError | Some p \<Rightarrow> Inr (direction * p, wait_queue_entry_time t))"

text \<open>\<open>_abort_on_queued_limit\<close>: whether the incoming request was aborted.\<close>

definition abort_on_queued_limit :: "sched_config \<Rightarrow> tv_req \<Rightarrow> (sched, bool) run" where
  "abort_on_queued_limit cfg t s =
     (if (case max_queued_requests cfg of None \<Rightarrow> True | Some m \<Rightarrow> length (waiting_queue s) + 1 \<le> m) then (Inr False, s)
      else if \<not> enable_priority_scheduling cfg then (Inr True, s\<lparr>aborted := aborted s @ [t]\<rparr>)
      else
        (let direction = (if schedule_low_priority_values_first cfg then 1 else - 1)
         in case gather_all (queue_key direction) (waiting_queue s) of
              Inl e \<Rightarrow> (Inl e, s)
            | Inr keys \<Rightarrow>
                (case max_index keys of
                   None \<Rightarrow> (Inl ValueError, s)
                 | Some idx \<Rightarrow>
                     (case (sched_priority t, sched_priority (waiting_queue s ! idx)) of
                        (Some p, Some q) \<Rightarrow>
                          (let cand = waiting_queue s ! idx; old = (direction * p < direction * q);
                               x = (if old then cand else t);
                               queue = (if old then take idx (waiting_queue s) @ drop (Suc idx) (waiting_queue s)
                                        else waiting_queue s)
                           in (Inr (rid x = rid t), s\<lparr>waiting_queue := queue, aborted := aborted s @ [x]\<rparr>))
                      | _ \<Rightarrow> (Inl TypeError, s)))))"

text \<open>\<open>_add_request_to_queue\<close>.\<close>

definition add_request_to_queue :: "sched_config \<Rightarrow> tv_req \<Rightarrow> (sched, unit) run" where
  "add_request_to_queue cfg t =
     andthen (set_or_validate_priority cfg t)
       (\<lambda>r. case r of
              None \<Rightarrow> ret ()
            | Some t1 \<Rightarrow>
                andthen (abort_on_queued_limit cfg t1)
                  (\<lambda>stop s. if stop then (Inr (), s)
                            else (Inr (), s\<lparr>waiting_queue := waiting_queue s @ [t1\<lparr>wait_queue_entry_time := perf_counter cfg (sc_readings s)\<rparr>],
                                           sc_readings := sc_readings s + 1\<rparr>)))"

section \<open>Admission\<close>

text \<open>\<open>validate_input_length\<close>: whether there is an error message, and the request.\<close>

definition validate_input_length :: "sched_config \<Rightarrow> tv_req \<Rightarrow> bool \<times> tv_req" where
  "validate_input_length cfg t =
     (let ids = origin_input_ids (cached t)
      in if length ids \<ge> max_req_input_len cfg
         then if allow_auto_truncate cfg
              then (False, t\<lparr>cached := (cached t)\<lparr>origin_input_ids := take (max_req_input_len cfg) ids\<rparr>\<rparr>)
              else (True, t)
         else (False, t))"

definition tv_input_error :: "tv_input \<Rightarrow> bool" where
  "tv_input_error r \<longleftrightarrow>
     in_prefix_len r \<le> 0 \<or> in_candidate_len r \<le> 0
     \<or> in_prefix_len r + in_candidate_len r \<noteq> int (length (in_combined_ids r))
     \<or> (in_prefix_ids r \<noteq> [] \<and> int (length (in_prefix_ids r)) \<noteq> in_prefix_len r)
     \<or> (in_candidate_ids r \<noteq> [] \<and> int (length (in_candidate_ids r)) \<noteq> in_candidate_len r)"

text \<open>The new \<open>Req\<close>.\<close>

definition tv_request :: "tv_input \<Rightarrow> tv_req" where
  "tv_request r =
     \<lparr>rid = in_rid r,
      cached = \<lparr>req_pool_idx = 0, origin_input_ids = map Tok (in_combined_ids r), output_ids = [], fill_ids = [],
                rq_extra_key = None, last_node = 0, cache_protected_len = 0, prefix_indices = [],
                rq_priority = (case in_priority r of None \<Rightarrow> 0 | Some p \<Rightarrow> p), kv_committed_len = 0, kv_committed_freed = False\<rparr>,
      sched_priority = in_priority r, is_tree_value = True, req_prefix_len = in_prefix_len r,
      req_candidate_len = in_candidate_len r, req_bypass_cache = in_bypass_cache r,
      return_logprob = False, logprob_start_len = 0, extend_input_len = 0, extend_logprob_start_len = 0,
      kv_allocated_len = 0, kv_overallocated_freed = False, wait_queue_entry_time = 0\<rparr>"

definition on_cache :: "(radix, 'a) run \<Rightarrow> (sched, 'a) run" where
  "on_cache f s = (case f (tree_cache s) of (r, c) \<Rightarrow> (r, s\<lparr>tree_cache := c\<rparr>))"

definition handle_tree_value_request :: "sched_config \<Rightarrow> tv_input \<Rightarrow> (sched, unit) run" where
  "handle_tree_value_request cfg r =
     (if tv_input_error r then raise ValueError
      else
        andthen (on_cache (init_next_round_input (if in_bypass_cache r then None else Some (sc_radix cfg)) (tv_request r)))
          (\<lambda>t. case validate_input_length cfg t of
                 (True, t1) \<Rightarrow> add_request_to_queue cfg t1
               | (False, t1) \<Rightarrow> add_request_to_queue cfg (t1\<lparr>logprob_start_len := - 1\<rparr>)))"

definition handle_batch_tree_value_request :: "sched_config \<Rightarrow> tv_input list \<Rightarrow> (sched, unit) run" where
  "handle_batch_tree_value_request cfg rs = andthen (run_all (handle_tree_value_request cfg) rs) (\<lambda>_. ret ())"

section \<open>The prefill of a batch\<close>

text \<open>The mask and positions that \<open>prepare_for_extend\<close> builds for a batch of tree-value requests.\<close>

definition tree_value_spec_of :: "(nat \<Rightarrow> int) \<Rightarrow> tv_req list \<Rightarrow> tree_spec res" where
  "tree_value_spec_of uninit ts =
     (let Ls = map req_prefix_len ts; Ns = map req_candidate_len ts;
          Ps = map (\<lambda>t. int (length (prefix_indices (cached t)))) ts
      in bind_res (build_tree_value_custom_mask_and_positions uninit Ls Ns Ps)
           (\<lambda>(m, p). Inr \<lparr>custom_mask = m, positions = p, tree_value_prefix_lens = Ls,
                          tree_value_candidate_lens = Ns, tree_value_cached_prefix_lens = Ps\<rparr>))"

text \<open>The rows of a request after the batch got its slots.\<close>

definition placed :: "nat \<Rightarrow> tv_req \<Rightarrow> tv_req" where
  "placed idx t =
     (let n = length (fill_ids (cached t))
      in t\<lparr>cached := (cached t)\<lparr>req_pool_idx := idx, kv_committed_len := n\<rparr>, kv_allocated_len := n\<rparr>)"

section \<open>Release\<close>

definition release_kv_cache :: "radix_config \<Rightarrow> bool \<Rightarrow> bool \<Rightarrow> int option \<Rightarrow> tv_req \<Rightarrow> (radix, tv_req) run" where
  "release_kv_cache cfg speculative is_insert insert_len t =
     andthen (cache_finished_req cfg is_insert insert_len (cached t))
       (\<lambda>c. if kv_overallocated_freed t then raise AssertionError
            else
              (let t1 = t\<lparr>cached := c, kv_overallocated_freed := True\<rparr>;
                   start_p = kv_committed_len c; end_p = kv_allocated_len t;
                   start_a = (if c_page_size cfg > 1
                              then nat (cdiv (int start_p) (int (c_page_size cfg))) * c_page_size cfg else start_p)
               in if \<not> speculative \<and> start_p \<noteq> end_p then raise AssertionError
                  else if start_a \<ge> end_p then ret t1
                  else (\<lambda>s. case request_row (req_pool_idx c) end_p s of
                              Inl e \<Rightarrow> (Inl e, s)
                            | Inr row \<Rightarrow> andthen (radix_free (drop start_a row)) (\<lambda>_. ret t1) s)))"

text \<open>
  The end of an embedding-style request with \<open>max_new_tokens = 0\<close>: the dummy output token finishes
  it at once.
\<close>

definition finish_embedding :: "radix_config \<Rightarrow> bool \<Rightarrow> tv_req \<Rightarrow> (radix, tv_req) run" where
  "finish_embedding cfg speculative t =
     (let t1 = t\<lparr>cached := (cached t)\<lparr>output_ids := output_ids (cached t) @ [Tok 0]\<rparr>\<rparr>
      in if is_tree_value t1
         then release_kv_cache cfg speculative (\<not> req_bypass_cache t1)
                (if \<not> req_bypass_cache t1 then Some (req_prefix_len t1) else None) t1
         else release_kv_cache cfg speculative True None t1)"

end
