(* ===== verification/TreeValueLife.thy ===== *)
theory TreeValueLife
  imports RadixProps TreeValueRequests
begin

text \<open>
  The life of a tree-value request: admission to the queue, the match of its prefix, the mask of
  its batch, and its end, with other clients of the prefix cache in between.
\<close>

section \<open>The match before a prefill\<close>

lemma match_prefix_align:
  assumes "active cfg" "\<not> c_is_eagle cfg" "\<not> is_bigram k"
  shows "match_prefix cfg k s = match_prefix cfg (key_take (key_len k div c_page_size cfg * c_page_size cfg) k) s"
proof -
  let ?P = "c_page_size cfg" and ?a = "key_len k div c_page_size cfg * c_page_size cfg"
  have a: "?a \<le> key_len k" "?a div ?P * ?P = ?a" using assms(1) by (simp_all add: active_def)
  have l: "key_len (key_take ?a k) = ?a" using a(1) by (simp add: key_len_def key_take_def)
  have t: "key_take ?a (key_take ?a k) = key_take ?a k" by (simp add: key_take_def)
  have one: "key_take ?a k = k" if "?P = 1" using that assms(3) by (cases k) (simp add: key_take_def key_len_def)
  show ?thesis
  proof (cases "?P = 1")
    case True
    show ?thesis unfolding one[OF True] ..
  next
    case False
    have "key_len k = 0 \<Longrightarrow> ?a = 0" by simp
    then show ?thesis using False assms(2) a(2) l t
      by (simp add: match_prefix_def maybe_bigram_convert_def Let_def)
  qed
qed

lemma key_take_whole:
  assumes "active cfg" "\<not> c_is_eagle cfg"
  shows "whole_key cfg (key_take (key_len k div c_page_size cfg * c_page_size cfg) k)"
  using assms by (simp add: whole_key_def key_take_def key_len_def min_absorb2 active_def)

lemma init_next_round_input_spec:
  fixes t :: tv_req
  assumes "active cfg" "\<not> c_is_eagle cfg" "radix_ok cfg H s"
  defines "fill \<equiv> origin_input_ids (cached t) @ output_ids (cached t)"
  shows "\<exists>v l s' t'. init_next_round_input (Some cfg) t s = (Inr t', s')
      \<and> cached t' = (cached t)\<lparr>fill_ids := fill, prefix_indices := v, last_node := l, cache_protected_len := length v\<rparr>
      \<and> t' = t\<lparr>cached := cached t', extend_input_len := int (length fill) - int (length v),
               extend_logprob_start_len := extend_logprob_start_len t'\<rparr>
      \<and> radix_ok cfg H s' \<and> r_alloc s' = r_alloc s \<and> r_rows s' = r_rows s \<and> cached_slots s' = cached_slots s
      \<and> int (length v) \<le> max_prefix_len t (int (length fill)) \<and> length v \<le> length fill \<and> c_page_size cfg dvd length v
      \<and> at_node (rq_extra_key (cached t)) (root_node s') (take (length v) fill) l"
proof -
  let ?P = "c_page_size cfg" and ?x = "rq_extra_key (cached t)"
  define ids where "ids = take (nat (max_prefix_len t (int (length fill)))) fill"
  define k where "k = \<lparr>token_ids = ids, extra_key = ?x, is_bigram = False\<rparr>"
  define k2 where "k2 = key_take (key_len k div ?P * ?P) k"
  have wk: "whole_key cfg k2" unfolding k2_def by (rule key_take_whole[OF assms(1,2)])
  have w: "radix_wf cfg s" using assms(3) by (simp add: radix_ok_def)
  have eq: "match_prefix cfg k s = match_prefix cfg k2 s"
    unfolding k2_def by (rule match_prefix_align[OF assms(1,2)]) (simp add: k_def)
  define v where "v = stored cfg s (extra_key k2) (token_ids k2)"
  obtain l s' where m: "match_prefix cfg k2 s = (Inr (v, l), s')" "radix_ok cfg H s'" "cached_slots s' = cached_slots s"
      "r_alloc s' = r_alloc s" "r_rows s' = r_rows s"
    using match_prefix_ok[OF assms(1,3) wk] unfolding v_def by blast
  have P: "0 < ?P" and wt: "wf_tree ?P (root_node s)" using assms(1) w by (simp_all add: active_def radix_wf_def)
  have dv: "?P dvd length (token_ids k2)" using wk by (simp add: whole_key_def key_len_def)
  have lv: "length v \<le> length (token_ids k2)" "?P dvd length v" using length_lookup[OF P wt dv] by (simp_all add: v_def)
  define a where "a = length ids div ?P * ?P"
  have a: "a \<le> length ids" "a \<le> nat (max_prefix_len t (int (length fill)))"
    using div_times_less_eq_dividend[of "length ids" ?P] by (simp_all add: a_def ids_def)
  have "token_ids k2 = take a ids" "extra_key k2 = ?x" by (simp_all add: k2_def key_take_def k_def key_len_def a_def)
  then have ke: "token_ids k2 = take (length (token_ids k2)) fill" "length (token_ids k2) \<le> length ids" "extra_key k2 = ?x"
    using a by (simp_all add: ids_def min_def)
  have tk: "take (length v) (token_ids k2) = take (length v) fill" using lv(1) by (subst ke(1)) (simp add: min_absorb1)
  have at: "at_node ?x (root_node s') (take (length v) fill) l" using match_prefix_at[OF assms(1) w wk m(1)] tk ke(3) by simp
  have bd: "length v \<le> length ids" using lv(1) ke(2) by simp
  have mp: "0 \<le> max_prefix_len t (int (length fill))" by (simp add: max_prefix_len_def Let_def)
  have bi: "int (length v) \<le> max_prefix_len t (int (length fill))" "length v \<le> length fill" using bd mp by (simp_all add: ids_def nat_le_iff[symmetric] le_nat_iff)
  define c' where "c' = (cached t)\<lparr>fill_ids := fill, prefix_indices := v, last_node := l, cache_protected_len := length v\<rparr>"
  define t' where "t' = set_extend_input_len (int (length fill) - int (length v)) (t\<lparr>cached := c'\<rparr>)"
  have "init_next_round_input (Some cfg) t s = (Inr t', s')"
    using m(1) eq by (simp del: length_append take_append add: init_next_round_input_def Let_def fill_def[symmetric] ids_def[symmetric] k_def[symmetric]
        andthen_Inr ret_def t'_def c'_def)
  moreover have "cached t' = c'" "t' = t\<lparr>cached := cached t', extend_input_len := int (length fill) - int (length v),
               extend_logprob_start_len := extend_logprob_start_len t'\<rparr>"
    by (simp_all add: t'_def set_extend_input_len_def Let_def)
  ultimately show ?thesis using m at bi lv(2) unfolding c'_def
    by (intro exI[of _ v] exI[of _ l] exI[of _ s'] exI[of _ t'] conjI) simp_all
qed

section \<open>Other clients\<close>

text \<open>
  What others may do while a request holds the node \<open>h\<close>: match, insert, lock and unlock their own
  nodes, evict, and change the allocator and the rows.
\<close>

inductive client_steps :: "radix_config \<Rightarrow> nat multiset \<Rightarrow> radix \<Rightarrow> nat multiset \<Rightarrow> radix \<Rightarrow> bool" for cfg H s where
  none: "client_steps cfg H s H s"
| find: "client_steps cfg H s G u \<Longrightarrow> whole_key cfg k \<Longrightarrow> match_prefix cfg k u = (r, u') \<Longrightarrow> client_steps cfg H s G u'"
| insert: "client_steps cfg H s G u \<Longrightarrow> whole_key cfg k \<Longrightarrow> length val = key_len k \<Longrightarrow>
    radix_insert cfg k val prio u = (r, u') \<Longrightarrow> client_steps cfg H s G u'"
| lock: "client_steps cfg H s G u \<Longrightarrow> g \<in> set (tree_ids (root_node u)) \<Longrightarrow> inc_lock_ref cfg g u = (r, u') \<Longrightarrow>
    client_steps cfg H s (add_mset g G) u'"
| unlock: "client_steps cfg H s (add_mset g G) u \<Longrightarrow> dec_lock_ref cfg g u = (r, u') \<Longrightarrow> client_steps cfg H s G u'"
| evict: "client_steps cfg H s G u \<Longrightarrow> evict cfg num u = Some (r, u') \<Longrightarrow> client_steps cfg H s G u'"
| memory: "client_steps cfg H s G u \<Longrightarrow> page_size a = 1 \<Longrightarrow> client_steps cfg H s G (u\<lparr>r_alloc := a, r_rows := b\<rparr>)"

lemma client_steps_keep:
  assumes "client_steps cfg H s G u" "active cfg" "pick_ok cfg" "radix_ok cfg (add_mset h H) s" "page_size (r_alloc s) = 1"
    and "at_node x (root_node s) us h"
  shows "radix_ok cfg (add_mset h G) u \<and> page_size (r_alloc u) = 1 \<and> at_node x (root_node u) us h"
  using assms(1)
proof (induction rule: client_steps.induct)
  case none
  then show ?case using assms(4-6) by simp
next
  case (find G u k r u')
  then have ok: "radix_ok cfg (add_mset h G) u" "radix_wf cfg u" by (simp_all add: radix_ok_def)
  obtain b where "grow (c_page_size cfg) (node_maker cfg u) (root_node u) (root_node u') b None"
    using match_prefix_grow[OF assms(2) ok(2) find.hyps(2)] find.hyps(3) by auto
  then show ?case using at_node_grow find.IH match_prefix_ok[OF assms(2) ok(1) find.hyps(2)] find.hyps(3) by auto
next
  case (insert G u k val prio r u')
  then have ok: "radix_ok cfg (add_mset h G) u" "radix_wf cfg u" by (simp_all add: radix_ok_def)
  obtain b lf where "grow (c_page_size cfg) (node_maker cfg u) (root_node u) (root_node u') b lf"
    using radix_insert_grow[OF assms(2) ok(2) insert.hyps(2,3), of prio] insert.hyps(4) by auto
  then show ?case
    using at_node_grow insert.IH radix_insert_ok[OF assms(2) ok(1) insert.hyps(2,3), of prio] insert.hyps(4) by auto
next
  case (lock G u g r u')
  then show ?case
    using inc_lock_ref_ok[OF assms(2) conjunct1[OF lock.IH] lock.hyps(2)] inc_lock_ref_at[OF lock.hyps(3)]
    by (auto simp: add_mset_commute)
next
  case (unlock g G u r u')
  then have "radix_ok cfg (add_mset g (add_mset h G)) u" by (simp add: add_mset_commute)
  then show ?case using dec_lock_ref_ok[OF assms(2), of g "add_mset h G" u] dec_lock_ref_at[OF unlock.hyps(2)] unlock by auto
next
  case (evict G u num r u')
  then show ?case using evict_spec[OF assms(2) _ _ assms(3), of "add_mset h G" u num] by (auto simp: evicted_def)
next
  case (memory G u a b)
  then show ?case by simp
qed

section \<open>The end of a request\<close>

lemma page_align_take: "page_align P xs = take (length xs div P * P) xs"
  by (simp add: page_align_def)

lemma request_keys_path:
  assumes "0 < c_page_size cfg" "\<not> c_is_eagle cfg" "c_page_size cfg dvd cache_protected_len rq"
    and "cache_protected_len rq \<le> length (fill_ids rq)" "\<And>k. limit = Some k \<Longrightarrow> cache_protected_len rq \<le> k"
    and "at_node (rq_extra_key rq) (root_node s) (take (cache_protected_len rq) (fill_ids rq)) (last_node rq)"
  shows "holds_path rq (request_keys cfg rq limit) s"
proof -
  let ?P = "c_page_size cfg" and ?n = "cache_protected_len rq"
  define ks where "ks = (case limit of None \<Rightarrow> fill_ids rq | Some k \<Rightarrow> take k (fill_ids rq))"
  have n: "?n \<le> length ks" "take ?n ks = take ?n (fill_ids rq)"
    using assms(4,5) by (auto simp: ks_def min_def split: option.splits)
  have "?n = ?n div ?P * ?P" using assms(3) by simp
  then have le: "?n \<le> length ks div ?P * ?P" using n(1) div_le_mono mult_le_mono1 by metis
  have k: "request_keys cfg rq limit = take (length ks div ?P * ?P) ks"
    using assms(2) by (cases limit) (simp_all add: request_keys_def page_align_take ks_def Let_def)
  have "take ?n (request_keys cfg rq limit) = take ?n (fill_ids rq)" using le n(2) by (simp add: k min_absorb1)
  moreover have "?n \<le> length (request_keys cfg rq limit)" using le n(1) by (simp add: k)
  ultimately show ?thesis using assms(6) by (simp add: holds_path_def)
qed

text \<open>A tree-value request as admission leaves it, before its prefill.\<close>

definition fresh_tree_value :: "tv_req \<Rightarrow> bool" where
  "fresh_tree_value t \<longleftrightarrow>
     is_tree_value t \<and> 0 < req_prefix_len t \<and> 0 < req_candidate_len t
     \<and> req_prefix_len t + req_candidate_len t = int (length (origin_input_ids (cached t)))
     \<and> output_ids (cached t) = [] \<and> \<not> kv_committed_freed (cached t) \<and> \<not> kv_overallocated_freed t"

lemma finish_embedding_spec:
  fixes t :: tv_req
  defines "c \<equiv> cached t"
  assumes "active cfg" "radix_ok cfg (add_mset (last_node c) H) s" "page_size (r_alloc s) = 1"
    and "is_tree_value t" "\<not> kv_overallocated_freed t" "\<not> kv_committed_freed c"
    and "kv_allocated_len t = kv_committed_len c" "kv_committed_len c = length (fill_ids c)" "length (fill_ids c) = length (origin_input_ids c)"
    and "req_pool_idx c < length (req_to_token (r_rows s))" "kv_committed_len c \<le> length (req_to_token (r_rows s) ! req_pool_idx c)"
  defines "cutoff \<equiv> if req_bypass_cache t then None else Some (req_prefix_len t)"
  defines "keys \<equiv> request_keys cfg c (finish_limit cutoff c)" and "row \<equiv> req_to_token (r_rows s) ! req_pool_idx c"
  assumes "holds_path c keys s" "length keys \<le> kv_committed_len c"
  shows "\<exists>t' s'. finish_embedding cfg speculative t s = (Inr t', s') \<and> radix_ok cfg H s'
      \<and> spare_slots s' + cached_slots s' = spare_slots s + cached_slots s
           + mset (slice row (cache_protected_len c) (kv_committed_len c))
      \<and> r_rows s' = rp_free_one (r_rows s) (req_pool_idx c)
      \<and> (\<forall>x us. c_page_size cfg dvd length us \<longrightarrow> stored cfg s' x us =
           (if \<not> req_bypass_cache t \<and> \<not> c_disable_finished_insert cfg
            then store_insert (c_page_size cfg) (stored cfg s) (rq_extra_key c) keys (take (length keys) row) x us
            else stored cfg s x us))"
proof -
  let ?c = "c\<lparr>output_ids := output_ids c @ [Tok 0]\<rparr>"
  let ?t = "t\<lparr>cached := ?c\<rparr>"
  have k: "request_keys cfg ?c (finish_limit cutoff ?c) = keys" by (simp add: keys_def request_keys_def finish_limit_def)
  have hp: "holds_path ?c (request_keys cfg ?c (finish_limit cutoff ?c)) s" using assms(16) unfolding k by (simp add: holds_path_def)
  have kl: "length (request_keys cfg ?c (finish_limit cutoff ?c)) \<le> kv_committed_len ?c" using assms(17) unfolding k by simp
  have pre: "radix_ok cfg (add_mset (last_node ?c) H) s" "\<not> kv_committed_freed ?c"
      "kv_committed_len ?c \<le> length (origin_input_ids ?c @ output_ids ?c)" "req_pool_idx ?c < length (req_to_token (r_rows s))"
      "kv_committed_len ?c \<le> length (req_to_token (r_rows s) ! req_pool_idx ?c)"
    using assms(3,7,9-12) by simp_all
  obtain s' where s': "cache_finished_req cfg (\<not> req_bypass_cache t) cutoff ?c s = (Inr (?c\<lparr>kv_committed_freed := True\<rparr>), s')"
      "radix_ok cfg H s'"
      "spare_slots s' + cached_slots s' = spare_slots s + cached_slots s + mset (slice row (cache_protected_len c) (kv_committed_len c))"
      "r_rows s' = rp_free_one (r_rows s) (req_pool_idx c)"
      "\<forall>x us. c_page_size cfg dvd length us \<longrightarrow> stored cfg s' x us =
           (if \<not> req_bypass_cache t \<and> \<not> c_disable_finished_insert cfg
            then store_insert (c_page_size cfg) (stored cfg s) (rq_extra_key c) keys (take (length keys) row) x us
            else stored cfg s x us)"
    using cache_finished_spec[OF assms(2) pre(1) assms(4) pre(2-5) hp kl, of "\<not> req_bypass_cache t"] unfolding k row_def by auto
  have ge: "n \<le> nat (cdiv (int n) (int P)) * P" if "1 < P" for n P :: nat
  proof -
    have "int n \<le> cdiv (int n) (int P) * int P" using cdiv_ge[of "int P" "int n"] that by simp
    moreover have "0 \<le> cdiv (int n) (int P)" using that by (simp add: cdiv_def pos_imp_zdiv_nonneg_iff)
    then have "int (nat (cdiv (int n) (int P)) * P) = cdiv (int n) (int P) * int P" by simp
    ultimately show ?thesis by linarith
  qed
  let ?t' = "?t\<lparr>cached := ?c\<lparr>kv_committed_freed := True\<rparr>, kv_overallocated_freed := True\<rparr>"
  have "release_kv_cache cfg speculative (\<not> req_bypass_cache t) cutoff ?t s = (Inr ?t', s')"
    using s'(1) assms(6,8) ge[of "c_page_size cfg" "kv_committed_len c"]
    by (simp add: release_kv_cache_def andthen_Inr ret_def Let_def)
  then have "finish_embedding cfg speculative t s = (Inr ?t', s')"
    using assms(5) by (cases "req_bypass_cache t") (simp_all add: finish_embedding_def Let_def c_def cutoff_def)
  then show ?thesis using s' by (intro exI[of _ ?t'] exI[of _ s']) simp
qed

text \<open>A tree-value request that was matched and locked.\<close>

definition matched_as :: "tv_req \<Rightarrow> tv_req \<Rightarrow> int list \<Rightarrow> nat \<Rightarrow> bool" where
  "matched_as t t1 v l \<longleftrightarrow>
     cached t1 = (cached t)\<lparr>fill_ids := origin_input_ids (cached t), prefix_indices := v, last_node := l, cache_protected_len := length v\<rparr>
     \<and> t1 = t\<lparr>cached := cached t1, extend_input_len := int (length (origin_input_ids (cached t))) - int (length v),
              extend_logprob_start_len := extend_logprob_start_len t1\<rparr>
     \<and> int (length v) < req_prefix_len t"

lemma tree_value_matched:
  assumes "active cfg" "\<not> c_is_eagle cfg" "radix_ok cfg H s" "fresh_tree_value t"
    and "init_next_round_input (Some cfg) t s = (Inr t1, s1)"
    and "inc_lock_ref cfg (last_node (cached t1)) s1 = (Inr d, s2)"
  shows "\<exists>v l. matched_as t t1 v l \<and> c_page_size cfg dvd length v \<and> radix_ok cfg (add_mset l H) s2
    \<and> r_alloc s2 = r_alloc s \<and> at_node (rq_extra_key (cached t)) (root_node s2) (take (length v) (origin_input_ids (cached t))) l"
proof -
  let ?P = "c_page_size cfg" and ?c = "cached t" and ?L = "req_prefix_len t" and ?n = "length (origin_input_ids (cached t))"
  have ft: "is_tree_value t" "0 < ?L" "?L \<le> int ?n" "output_ids ?c = []"
    using assms(4) by (auto simp: fresh_tree_value_def)
  have fill: "origin_input_ids ?c @ output_ids ?c = origin_input_ids ?c" using ft(4) by simp
  obtain v l where i: "cached t1 = ?c\<lparr>fill_ids := origin_input_ids ?c, prefix_indices := v, last_node := l, cache_protected_len := length v\<rparr>"
      "t1 = t\<lparr>cached := cached t1, extend_input_len := int ?n - int (length v), extend_logprob_start_len := extend_logprob_start_len t1\<rparr>"
      "radix_ok cfg H s1" "r_alloc s1 = r_alloc s" "int (length v) \<le> max_prefix_len t (int ?n)" "?P dvd length v"
      "at_node (rq_extra_key ?c) (root_node s1) (take (length v) (origin_input_ids ?c)) l"
    using init_next_round_input_spec[OF assms(1-3), of t] unfolding fill assms(5) by auto
  have "max_prefix_len t (int ?n) \<le> ?L - 1" using ft(1-3) by (auto simp: max_prefix_len_def Let_def)
  then have "matched_as t t1 v l" unfolding matched_as_def using i(1,2,5) by (intro conjI) linarith+
  moreover have ln: "last_node (cached t1) = l" by (simp add: i(1))
  ultimately show ?thesis
    using inc_lock_ref_ok[OF assms(1) i(3) at_node_ids[OF i(7)]] inc_lock_ref_at[OF assms(6) i(7)] assms(6) i(4,6)
    by (intro exI[of _ v] exI[of _ l]) (auto simp: ln)
qed

text \<open>Its end, in any state in which it still holds its node.\<close>

lemma tree_value_finish:
  fixes t :: tv_req and s :: radix
  assumes "active cfg" "\<not> c_is_eagle cfg" "fresh_tree_value t" "\<not> req_bypass_cache t" "\<not> c_disable_finished_insert cfg"
    and "matched_as t t1 v l" "c_page_size cfg dvd length v"
    and "radix_ok cfg (add_mset l H) s" "page_size (r_alloc s) = 1"
    and "at_node (rq_extra_key (cached t)) (root_node s) (take (length v) (origin_input_ids (cached t))) l"
    and "idx < length (req_to_token (r_rows s))" "length (origin_input_ids (cached t)) \<le> length (req_to_token (r_rows s) ! idx)"
  defines "row \<equiv> req_to_token (r_rows s) ! idx" and "n \<equiv> length (origin_input_ids (cached t))"
    and "keys \<equiv> page_align (c_page_size cfg) (take (nat (req_prefix_len t)) (origin_input_ids (cached t)))"
  shows "\<exists>t' s'. finish_embedding cfg speculative (placed idx t1) s = (Inr t', s') \<and> radix_ok cfg H s'
      \<and> spare_slots s' + cached_slots s' = spare_slots s + cached_slots s + mset (slice row (length v) n)
      \<and> r_rows s' = rp_free_one (r_rows s) idx
      \<and> (\<forall>x us. c_page_size cfg dvd length us \<longrightarrow> stored cfg s' x us =
           store_insert (c_page_size cfg) (stored cfg s) (rq_extra_key (cached t)) keys (take (length keys) row) x us)"
proof -
  let ?P = "c_page_size cfg" and ?c = "cached t" and ?L = "req_prefix_len t"
  have ft: "is_tree_value t" "0 < ?L" "0 < req_candidate_len t" "?L + req_candidate_len t = int n" "output_ids ?c = []"
      "\<not> kv_committed_freed ?c" "\<not> kv_overallocated_freed t"
    using assms(3) by (simp_all add: fresh_tree_value_def n_def)
  have i: "cached t1 = ?c\<lparr>fill_ids := origin_input_ids ?c, prefix_indices := v, last_node := l, cache_protected_len := length v\<rparr>"
      "t1 = t\<lparr>cached := cached t1, extend_input_len := int n - int (length v), extend_logprob_start_len := extend_logprob_start_len t1\<rparr>"
    and vL: "int (length v) < ?L"
    using assms(6) unfolding matched_as_def n_def by blast+
  have vn: "length v \<le> n" using vL ft by linarith
  define t3 where "t3 = placed idx t1"
  define c3 where "c3 = ?c\<lparr>fill_ids := origin_input_ids ?c, prefix_indices := v, last_node := l, cache_protected_len := length v,
      req_pool_idx := idx, kv_committed_len := n\<rparr>"
  have c3: "cached t3 = c3" by (simp add: t3_def placed_def Let_def i(1) c3_def n_def)
  have t3: "is_tree_value t3" "\<not> kv_overallocated_freed t3" "kv_allocated_len t3 = n" "req_prefix_len t3 = ?L" "\<not> req_bypass_cache t3"
    using ft assms(4) by (subst t3_def, subst i(2), simp add: placed_def Let_def i(1) n_def)+
  have fl: "finish_limit (Some ?L) c3 = Some (nat ?L)" using ft by (simp add: finish_limit_def c3_def n_def[symmetric] min_def)
  have keys: "request_keys cfg c3 (finish_limit (Some ?L) c3) = keys" unfolding fl using assms(2) by (simp add: request_keys_def keys_def c3_def Let_def)
  have hp: "holds_path c3 (request_keys cfg c3 (finish_limit (Some ?L) c3)) s"
    unfolding fl by (rule request_keys_path) (use assms(1,2,7,10) vn vL in \<open>auto simp: c3_def active_def n_def[symmetric]\<close>)
  have kl: "length keys \<le> n" using div_times_less_eq_dividend[of "min (nat ?L) n" ?P]
    by (simp add: keys_def length_page_align n_def[symmetric] min.commute)
  have lim3: "(if req_bypass_cache t3 then None else Some (req_prefix_len t3)) = Some ?L" using t3 by simp
  have f: "\<exists>t4 s4. finish_embedding cfg speculative t3 s = (Inr t4, s4) \<and> radix_ok cfg H s4
      \<and> spare_slots s4 + cached_slots s4 = spare_slots s + cached_slots s + mset (slice row (cache_protected_len c3) (kv_committed_len c3))
      \<and> r_rows s4 = rp_free_one (r_rows s) (req_pool_idx c3)
      \<and> (\<forall>x us. ?P dvd length us \<longrightarrow> stored cfg s4 x us =
           (if \<not> req_bypass_cache t3 \<and> \<not> c_disable_finished_insert cfg
            then store_insert ?P (stored cfg s) (rq_extra_key c3) keys (take (length keys) row) x us else stored cfg s x us))"
    using finish_embedding_spec[where t = t3 and cfg = cfg and s = s and H = H and speculative = speculative, unfolded lim3 c3 keys]
      assms(1,8,9,11,12) t3 ft hp kl unfolding keys by (simp add: c3_def row_def n_def cong: if_cong)
  then show ?thesis using t3(5) assms(5) unfolding t3_def by (simp add: c3_def)
qed

text \<open>
  C9: A tree-value request from its prefill to its end, with other clients of the cache in between:
  it holds a node from the cached part of its prefix, which stays in the tree under every lock,
  insertion and eviction of the others. At its end each slot behind that part goes to the free slots
  or to the tree exactly once, its lock is gone, and the tree has learned its prefix in whole pages
  and none of its candidates.
\<close>

theorem tree_value_request_life:
  assumes "active cfg" "\<not> c_is_eagle cfg" "pick_ok cfg" "radix_ok cfg H s" "page_size (r_alloc s) = 1"
    and "fresh_tree_value t" "\<not> req_bypass_cache t" "\<not> c_disable_finished_insert cfg"
    and "init_next_round_input (Some cfg) t s = (Inr t1, s1)"
    and "inc_lock_ref cfg (last_node (cached t1)) s1 = (Inr d, s2)"
    and "client_steps cfg H s2 H' s3"
    and "idx < length (req_to_token (r_rows s3))" "length (origin_input_ids (cached t)) \<le> length (req_to_token (r_rows s3) ! idx)"
  defines "row \<equiv> req_to_token (r_rows s3) ! idx" and "n \<equiv> length (origin_input_ids (cached t))"
    and "keys \<equiv> page_align (c_page_size cfg) (take (nat (req_prefix_len t)) (origin_input_ids (cached t)))"
  shows "int (cache_protected_len (cached t1)) < req_prefix_len t
    \<and> (\<exists>t4 s4. finish_embedding cfg speculative (placed idx t1) s3 = (Inr t4, s4) \<and> radix_ok cfg H' s4
      \<and> spare_slots s4 + cached_slots s4 = spare_slots s3 + cached_slots s3 + mset (slice row (cache_protected_len (cached t1)) n)
      \<and> r_rows s4 = rp_free_one (r_rows s3) idx
      \<and> (\<forall>x us. c_page_size cfg dvd length us \<longrightarrow> stored cfg s4 x us =
           store_insert (c_page_size cfg) (stored cfg s3) (rq_extra_key (cached t)) keys (take (length keys) row) x us))"
proof -
  obtain v l where m: "matched_as t t1 v l" "c_page_size cfg dvd length v" "radix_ok cfg (add_mset l H) s2" "r_alloc s2 = r_alloc s"
      "at_node (rq_extra_key (cached t)) (root_node s2) (take (length v) (origin_input_ids (cached t))) l"
    using tree_value_matched[OF assms(1,2,4,6,9,10)] by blast
  have p: "page_size (r_alloc s2) = 1" using assms(5) m(4) by simp
  note k = client_steps_keep[OF assms(11,1,3) m(3) p m(5)]
  have v: "cache_protected_len (cached t1) = length v" "int (length v) < req_prefix_len t" using m(1) by (simp_all add: matched_as_def)
  show ?thesis
    using tree_value_finish[OF assms(1,2,6-8) m(1,2) _ _ _ assms(12,13)] k v(2) unfolding v(1) row_def n_def keys_def by blast
qed

section \<open>Admission\<close>

lemma max_prefix_tree:
  assumes "is_tree_value t" "0 < req_prefix_len t" "req_prefix_len t \<le> n"
  shows "max_prefix_len t n < req_prefix_len t"
  using assms by (auto simp: max_prefix_len_def Let_def)

text \<open>The end of the handler: a request that fits is queued as it is.\<close>

lemma add_request_plain:
  assumes "max_queued_requests cfg = None"
    and "\<not> (\<not> enable_priority_scheduling cfg \<and> sched_priority t \<noteq> None \<and> abort_on_priority_when_disabled cfg)"
  shows "\<exists>t' s'. add_request_to_queue cfg t s = (Inr (), s') \<and> waiting_queue s' = waiting_queue s @ [t']
      \<and> aborted s' = aborted s \<and> tree_cache s' = tree_cache s
      \<and> t' = t\<lparr>cached := (cached t)\<lparr>rq_priority := rq_priority (cached t')\<rparr>, sched_priority := sched_priority t',
               wait_queue_entry_time := wait_queue_entry_time t'\<rparr>"
proof -
  obtain t1 where p: "set_or_validate_priority cfg t s = (Inr (Some t1), s)"
      "t1 = t\<lparr>cached := (cached t)\<lparr>rq_priority := rq_priority (cached t1)\<rparr>, sched_priority := sched_priority t1\<rparr>"
  proof (cases "enable_priority_scheduling cfg \<and> sched_priority t = None")
    case True
    let ?p = "if schedule_low_priority_values_first cfg then 2 ^ 63 - 1 else - (2 ^ 63 - 1) - (1 :: int)"
    have "set_or_validate_priority cfg t s = (Inr (Some (set_priority ?p t)), s)"
      using True unfolding set_or_validate_priority_def by simp
    then show ?thesis by (rule that) (simp add: set_priority_def)
  next
    case False
    then have "set_or_validate_priority cfg t s = (Inr (Some t), s)"
      using assms(2) by (auto simp: set_or_validate_priority_def)
    then show ?thesis by (rule that) simp
  qed
  let ?t = "t1\<lparr>wait_queue_entry_time := perf_counter cfg (sc_readings s)\<rparr>"
  have "add_request_to_queue cfg t s = (Inr (), s\<lparr>waiting_queue := waiting_queue s @ [?t], sc_readings := sc_readings s + 1\<rparr>)"
    using p(1) assms(1) by (simp add: add_request_to_queue_def andthen_def abort_on_queued_limit_def)
  moreover have "?t = t\<lparr>cached := (cached t)\<lparr>rq_priority := rq_priority (cached ?t)\<rparr>, sched_priority := sched_priority ?t,
               wait_queue_entry_time := wait_queue_entry_time ?t\<rparr>" by (subst p(2)) simp
  ultimately show ?thesis by (intro exI[of _ ?t]) auto
qed


section \<open>The bound of the queue\<close>

lemma max_index_bound: "max_index ks = Some j \<Longrightarrow> j < length ks"
proof (induction ks arbitrary: j)
  case (Cons k ks)
  then show ?case by (cases "max_index ks") (auto split: if_splits)
qed simp

lemma mset_take_out: "j < length xs \<Longrightarrow> mset xs = add_mset (xs ! j) (mset (take j xs @ drop (Suc j) xs))"
  using arg_cong[OF id_take_nth_drop[of j xs], of mset] by simp

text \<open>What the limit does: nothing, or one request is answered with an abort, the new one or a queued one.\<close>

lemma abort_on_queued_limit_cases:
  assumes "abort_on_queued_limit cfg t s = (Inr stop, s')"
  obtains "\<not> stop" "s' = s" "case max_queued_requests cfg of None \<Rightarrow> True | Some m \<Rightarrow> length (waiting_queue s) + 1 \<le> m"
  | "stop" "s' = s\<lparr>aborted := aborted s @ [t]\<rparr>"
  | x where "stop \<longleftrightarrow> rid x = rid t" "aborted s' = aborted s @ [x]" "mset (waiting_queue s) = add_mset x (mset (waiting_queue s'))"
proof (cases "case max_queued_requests cfg of None \<Rightarrow> True | Some m \<Rightarrow> length (waiting_queue s) + 1 \<le> m")
  case True
  then show ?thesis using assms that(1) by (simp add: abort_on_queued_limit_def)
next
  case full: False
  show ?thesis
  proof (cases "enable_priority_scheduling cfg")
    case False
    then show ?thesis using assms full that(2) by (simp add: abort_on_queued_limit_def)
  next
    case True
    let ?d = "if schedule_low_priority_values_first cfg then 1 else - 1 :: int"
    obtain keys where k: "gather_all (queue_key ?d) (waiting_queue s) = Inr keys"
      using assms full True by (cases "gather_all (queue_key ?d) (waiting_queue s)") (simp_all add: abort_on_queued_limit_def Let_def)
    obtain j where j: "max_index keys = Some j"
      using assms full True k by (cases "max_index keys") (simp_all add: abort_on_queued_limit_def Let_def)
    have jl: "j < length (waiting_queue s)" using max_index_bound[OF j] gather_all_length[OF k] by simp
    obtain p q where pq: "sched_priority t = Some p" "sched_priority (waiting_queue s ! j) = Some q"
      using assms full True k j by (cases "sched_priority t"; cases "sched_priority (waiting_queue s ! j)")
        (simp_all add: abort_on_queued_limit_def Let_def)
    show ?thesis
    proof (cases "?d * p < ?d * q")
      case old: True
      have "stop \<longleftrightarrow> rid (waiting_queue s ! j) = rid t" "aborted s' = aborted s @ [waiting_queue s ! j]"
        "waiting_queue s' = take j (waiting_queue s) @ drop (Suc j) (waiting_queue s)"
        using assms full True k j pq old by (auto simp: abort_on_queued_limit_def Let_def)
      then show ?thesis using that(3) mset_take_out[OF jl] by simp
    next
      case False
      then have "stop" "s' = s\<lparr>aborted := aborted s @ [t]\<rparr>"
        using assms full True k j pq by (auto simp: abort_on_queued_limit_def Let_def)
      then show ?thesis by (rule that(2))
    qed
  qed
qed

text \<open>
  C18: With a limit on queued requests the queue never grows past it, whether requests are rejected or
  displaced by priority, and no request gets lost: with the new request's number unused, each one is
  in the queue or was answered with an abort, exactly once.
\<close>

theorem queue_bounded_and_accounted:
  assumes "max_queued_requests cfg = Some m" "length (waiting_queue s) \<le> m" "add_request_to_queue cfg t s = (r, s')"
  shows "length (waiting_queue s') \<le> m
    \<and> (r = Inr () \<longrightarrow> rid t \<notin> rid ` set (waiting_queue s) \<longrightarrow>
         mset (map rid (waiting_queue s' @ aborted s')) = mset (map rid (waiting_queue s @ aborted s)) + {#rid t#})"
proof -
  have rs: "rid (set_priority p t) = rid t" for p by (simp add: set_priority_def)
  obtain o1 s1 where p: "set_or_validate_priority cfg t s = (Inr o1, s1)" "waiting_queue s1 = waiting_queue s"
      "aborted s1 = aborted s @ (if o1 = None then [t] else [])" "\<And>t1. o1 = Some t1 \<Longrightarrow> rid t1 = rid t"
  proof -
    obtain r1 s1 where e: "set_or_validate_priority cfg t s = (r1, s1)" by fastforce
    have "\<exists>o1. r1 = Inr o1 \<and> waiting_queue s1 = waiting_queue s \<and> aborted s1 = aborted s @ (if o1 = None then [t] else [])
        \<and> (\<forall>t1. o1 = Some t1 \<longrightarrow> rid t1 = rid t)"
      using e rs by (auto simp: set_or_validate_priority_def simp del: One_nat_def split: if_splits)
    then show ?thesis using that e by blast
  qed
  show ?thesis
  proof (cases o1)
    case None
    then have "r = Inr ()" "s' = s1" using assms(3) p(1) by (simp_all add: add_request_to_queue_def andthen_def ret_def)
    then show ?thesis using p(2,3) None assms(2) by simp
  next
    case (Some t1)
    obtain r2 s2 where a: "abort_on_queued_limit cfg t1 s1 = (r2, s2)" by fastforce
    show ?thesis
    proof (cases r2)
      case (Inl e)
      then have "r = Inl e" "s' = s2" using assms(3) p(1) Some a by (simp_all add: add_request_to_queue_def andthen_def)
      moreover have "s2 = s1" using a Inl by (auto simp: abort_on_queued_limit_def Let_def split: if_splits sum.splits option.splits)
      ultimately show ?thesis using p(2) assms(2) by simp
    next
      case (Inr stop)
      let ?s3 = "if stop then s2 else s2\<lparr>waiting_queue := waiting_queue s2 @ [t1\<lparr>wait_queue_entry_time := perf_counter cfg (sc_readings s2)\<rparr>],
                                       sc_readings := sc_readings s2 + 1\<rparr>"
      have s': "r = Inr ()" "s' = ?s3" using assms(3) p(1) Some a Inr by (cases stop; simp add: add_request_to_queue_def andthen_def)+
      have t1: "rid t1 = rid t" "aborted s1 = aborted s" using p(3,4) Some by auto
      from a[unfolded Inr] show ?thesis
      proof (cases rule: abort_on_queued_limit_cases)
        case 1
        then show ?thesis using s' p(2) t1 assms(1) by simp
      next
        case 2
        then show ?thesis using s' p(2) t1 assms(2) by simp
      next
        case (3 x)
        have "size (mset (waiting_queue s1)) = size (add_mset x (mset (waiting_queue s2)))" using 3(3) by (simp only:)
        then have ql: "length (waiting_queue s) = Suc (length (waiting_queue s2))" using p(2) by simp
        have "x \<in># mset (waiting_queue s)" using 3(3) p(2) by simp
        then have ns: "\<not> stop" if "rid t \<notin> rid ` set (waiting_queue s)" using that 3(1) t1(1) by (metis imageI set_mset_mset)
        have "image_mset rid (mset (waiting_queue s)) = add_mset (rid x) (image_mset rid (mset (waiting_queue s2)))"
          using arg_cong[OF 3(3), of "image_mset rid"] p(2) by simp
        then show ?thesis using s' 3(2) ns ql assms(2) t1 by (cases stop) (simp, blast, simp)
      qed
    qed
  qed
qed

section \<open>The mask of a prefill\<close>

text \<open>A request that comes out of the match before a prefill.\<close>

definition ready :: "radix_config \<Rightarrow> tv_req \<Rightarrow> bool" where
  "ready cfg t \<longleftrightarrow>
     (\<exists>H s t0 s'. radix_ok cfg H s \<and> fresh_tree_value t0 \<and> init_next_round_input (Some cfg) t0 s = (Inr t, s'))"

definition tv_lens :: "tv_req \<Rightarrow> int \<times> int \<times> int" where
  "tv_lens t = (req_prefix_len t, req_candidate_len t, int (length (prefix_indices (cached t))))"

lemma ready_lens:
  assumes "active cfg" "\<not> c_is_eagle cfg" "ready cfg t"
  shows "0 < req_prefix_len t" "0 < req_candidate_len t" "int (length (prefix_indices (cached t))) < req_prefix_len t"
    "extend_input_len t = req_prefix_len t - int (length (prefix_indices (cached t))) + req_candidate_len t"
proof -
  obtain H s t0 s' where r: "radix_ok cfg H s" "fresh_tree_value t0" "init_next_round_input (Some cfg) t0 s = (Inr t, s')"
    using assms(3) by (auto simp: ready_def)
  let ?n = "length (origin_input_ids (cached t0))"
  have ft: "is_tree_value t0" "0 < req_prefix_len t0" "0 < req_candidate_len t0" "req_prefix_len t0 + req_candidate_len t0 = int ?n"
      "output_ids (cached t0) = []"
    using r(2) by (simp_all add: fresh_tree_value_def)
  obtain v where v: "prefix_indices (cached t) = v" "int (length v) \<le> max_prefix_len t0 (int ?n)"
      "t = t0\<lparr>cached := cached t, extend_input_len := int ?n - int (length v), extend_logprob_start_len := extend_logprob_start_len t\<rparr>"
    using init_next_round_input_spec[OF assms(1,2) r(1), of t0] r(3) ft(5) by auto
  have f: "req_prefix_len t = req_prefix_len t0" "req_candidate_len t = req_candidate_len t0" "extend_input_len t = int ?n - int (length v)"
    by (subst v(3), simp)+
  show "0 < req_prefix_len t" "0 < req_candidate_len t" using f ft by simp_all
  show "int (length (prefix_indices (cached t))) < req_prefix_len t"
    using v(1,2) max_prefix_tree[OF ft(1,2), of "int ?n"] ft(3,4) f by simp
  show "extend_input_len t = req_prefix_len t - int (length (prefix_indices (cached t))) + req_candidate_len t"
    using f ft(4) v(1) by simp
qed

text \<open>
  C17: For a batch of tree-value requests that come out of the match, the mask builder does not
  raise: it returns the blocks of the requests, and the positions it returns are as many as the
  tokens the batch computes, for each request all its candidates and at least one token of its prefix.
\<close>

theorem prefill_mask_fits_batch:
  assumes "active cfg" "\<not> c_is_eagle cfg" "\<forall>t \<in> set ts. ready cfg t"
  shows "\<exists>spec. tree_value_spec_of uninit ts = Inr spec \<and> spec = of_blocks (map (tree_block \<circ> tv_lens) ts)
    \<and> int (length (positions spec)) = sum_list (map extend_input_len ts)
    \<and> (\<forall>t \<in> set ts. req_candidate_len t < extend_input_len t)"
proof -
  let ?rs = "map tv_lens ts"
  note rl = ready_lens[OF assms(1,2)]
  have v: "reqs_valid ?rs" using rl assms(3) by (fastforce simp: reqs_valid_def list_all_iff tv_lens_def)
  have e: "map fst ?rs = map req_prefix_len ts" "map (fst \<circ> snd) ?rs = map req_candidate_len ts"
    "map (snd \<circ> snd) ?rs = map (\<lambda>t. int (length (prefix_indices (cached t)))) ts"
    by (simp_all add: tv_lens_def)
  have b: "build_tree_value_custom_mask_and_positions uninit (map req_prefix_len ts) (map req_candidate_len ts)
      (map (\<lambda>t. int (length (prefix_indices (cached t)))) ts) =
      Inr (custom_mask (of_blocks (map tree_block ?rs)), positions (of_blocks (map tree_block ?rs)))"
    using build_blocks[of uninit ?rs] v unfolding e by (simp only: if_True)
  have "tree_value_spec_of uninit ts = Inr (of_blocks (map (tree_block \<circ> tv_lens) ts))"
    by (simp add: tree_value_spec_of_def Let_def b bind_res_def of_blocks_def tree_block_def tv_lens_def comp_def case_prod_unfold)
  moreover have "int (length (positions (of_blocks (map (tree_block \<circ> tv_lens) ts)))) = sum_list (map extend_input_len ts)"
    using assms(3)
  proof (induction ts)
    case (Cons t ts)
    have "int (length (tq_pos (tree_block (tv_lens t)))) = extend_input_len t"
      using rl[of t] Cons.prems by (simp add: tree_block_def tv_lens_def)
    then show ?case using Cons by (simp add: of_blocks_def)
  qed (simp add: of_blocks_def)
  moreover have "\<forall>t \<in> set ts. req_candidate_len t < extend_input_len t" using rl(3,4) assms(3) by fastforce
  ultimately show ?thesis by blast
qed

section \<open>A request on the small cache\<close>

definition demo_tv :: tv_input where
  "demo_tv = \<lparr>in_rid = ''a'', in_prefix_ids = [], in_candidate_ids = [], in_combined_ids = [5, 6, 7, 8, 9],
     in_prefix_len = 3, in_candidate_len = 2, in_bypass_cache = False, in_priority = None\<rparr>"

definition demo_sched_cfg :: sched_config where
  "demo_sched_cfg = \<lparr>sc_radix = demo_cfg, enable_priority_scheduling = False, schedule_low_priority_values_first = False,
     abort_on_priority_when_disabled = False, max_queued_requests = None, max_req_input_len = 100,
     allow_auto_truncate = False, perf_counter = real\<rparr>"

definition demo_sched :: sched where
  "demo_sched = \<lparr>tree_cache = demo_full, waiting_queue = [], aborted = [], sc_readings = 0\<rparr>"

lemma demo_full_ok: "radix_ok demo_cfg {#} demo_full" "page_size (r_alloc demo_full) = 1"
proof -
  have "cache_run demo_cfg {#} demo_start" unfolding demo_start_def by (rule cache_run.start) code_simp
  then have "cache_run demo_cfg {#} demo_full"
    unfolding demo_full_def by (rule cache_run.insert[OF _ demo_facts(4) _ surjective_pairing]) (simp add: demo_key_def key_len_def)
  from cache_run_ok[OF demo_facts(1) demo_pick this] show "radix_ok demo_cfg {#} demo_full" "page_size (r_alloc demo_full) = 1" by simp_all
qed

lemma demo_not_eagle: "\<not> c_is_eagle demo_cfg"
  by (simp add: demo_cfg_def)


lemma demo_fresh: "fresh_tree_value (tv_request demo_tv)" "\<not> req_bypass_cache (tv_request demo_tv)"
  "length (origin_input_ids (cached (tv_request demo_tv))) = 5" "req_prefix_len (tv_request demo_tv) = 3"
  by (code_simp, code_simp, code_simp, code_simp)

lemma demo_init:
  "\<exists>t1 s1 d s2. init_next_round_input (Some demo_cfg) (tv_request demo_tv) demo_full = (Inr t1, s1)
     \<and> inc_lock_ref demo_cfg (last_node (cached t1)) s1 = (Inr d, s2) \<and> r_rows s2 = r_rows demo_full"
proof -
  obtain v l s1 t1 where i: "init_next_round_input (Some demo_cfg) (tv_request demo_tv) demo_full = (Inr t1, s1)"
      "cached t1 = (cached (tv_request demo_tv))\<lparr>fill_ids := origin_input_ids (cached (tv_request demo_tv)) @ output_ids (cached (tv_request demo_tv)),
         prefix_indices := v, last_node := l, cache_protected_len := length v\<rparr>"
      "radix_ok demo_cfg {#} s1" "r_rows s1 = r_rows demo_full"
      "at_node (rq_extra_key (cached (tv_request demo_tv))) (root_node s1)
         (take (length v) (origin_input_ids (cached (tv_request demo_tv)) @ output_ids (cached (tv_request demo_tv)))) l"
    using init_next_round_input_spec[OF demo_facts(1) demo_not_eagle demo_full_ok(1), of "tv_request demo_tv"] by blast
  obtain d s2 where "inc_lock_ref demo_cfg l s1 = (Inr (- d), s2)" "r_rows s2 = r_rows s1"
    using inc_lock_ref_ok[OF demo_facts(1) i(3) at_node_ids[OF i(5)]] by (elim exE conjE)
  then show ?thesis using i by (intro exI[of _ t1] exI[of _ s1] exI[of _ "- d"] exI[of _ s2]) simp
qed

theorem tree_value_request_life_witness:
  "\<exists>t1 s1 d s2 t4 s4. init_next_round_input (Some demo_cfg) (tv_request demo_tv) demo_full = (Inr t1, s1)
     \<and> inc_lock_ref demo_cfg (last_node (cached t1)) s1 = (Inr d, s2)
     \<and> finish_embedding demo_cfg False (placed 0 t1) s2 = (Inr t4, s4) \<and> radix_ok demo_cfg {#} s4"
proof -
  obtain t1 s1 d s2 where i: "init_next_round_input (Some demo_cfg) (tv_request demo_tv) demo_full = (Inr t1, s1)"
      "inc_lock_ref demo_cfg (last_node (cached t1)) s1 = (Inr d, s2)" "r_rows s2 = r_rows demo_full"
    using demo_init by (elim exE conjE)
  have "0 < length (req_to_token (r_rows demo_full))" "5 \<le> length (req_to_token (r_rows demo_full) ! 0)" by code_simp+
  then show ?thesis
    using tree_value_request_life[OF demo_facts(1) demo_not_eagle demo_pick demo_full_ok demo_fresh(1,2) _ i(1,2) client_steps.none, of 0 False]
      i demo_fresh(3) by (simp add: demo_cfg_def) blast
qed

theorem queue_bounded_and_accounted_witness:
  "length (waiting_queue (snd (add_request_to_queue (demo_sched_cfg\<lparr>max_queued_requests := Some 1\<rparr>) (tv_request demo_tv)
       (demo_sched\<lparr>waiting_queue := [(tv_request demo_tv)\<lparr>rid := ''b''\<rparr>]\<rparr>)))) \<le> 1
   \<and> mset (map rid (waiting_queue (snd (add_request_to_queue (demo_sched_cfg\<lparr>max_queued_requests := Some 1\<rparr>) (tv_request demo_tv)
       (demo_sched\<lparr>waiting_queue := [(tv_request demo_tv)\<lparr>rid := ''b''\<rparr>]\<rparr>)))
     @ aborted (snd (add_request_to_queue (demo_sched_cfg\<lparr>max_queued_requests := Some 1\<rparr>) (tv_request demo_tv)
       (demo_sched\<lparr>waiting_queue := [(tv_request demo_tv)\<lparr>rid := ''b''\<rparr>]\<rparr>))))) = {#''a'', ''b''#}"
proof -
  let ?c = "demo_sched_cfg\<lparr>max_queued_requests := Some 1\<rparr>" and ?t = "tv_request demo_tv"
  let ?s = "demo_sched\<lparr>waiting_queue := [?t\<lparr>rid := ''b''\<rparr>]\<rparr>"
  have r: "fst (add_request_to_queue ?c ?t ?s) = Inr ()" by code_simp
  have n: "rid ?t = ''a''" "aborted ?s = []" by (simp_all add: tv_request_def demo_tv_def demo_sched_def)
  show ?thesis
    using queue_bounded_and_accounted[of ?c 1 ?s ?t "fst (add_request_to_queue ?c ?t ?s)" "snd (add_request_to_queue ?c ?t ?s)"] r n
    by (simp add: add_mset_commute)
qed

theorem prefill_mask_fits_batch_witness:
  "\<exists>t spec. tree_value_spec_of (\<lambda>_. 0) [t, t] = Inr spec
     \<and> int (length (positions spec)) = extend_input_len t + extend_input_len t"
proof -
  obtain t1 s1 where "init_next_round_input (Some demo_cfg) (tv_request demo_tv) demo_full = (Inr t1, s1)"
    using demo_init by blast
  then have "ready demo_cfg t1" using demo_full_ok(1) demo_fresh(1) unfolding ready_def by blast
  then show ?thesis
    using prefill_mask_fits_batch[OF demo_facts(1) demo_not_eagle, of "[t1, t1]" "\<lambda>_. 0"] by auto
qed

end
