(* ===== verification/CacheAlloc.thy ===== *)
theory CacheAlloc
  imports RadixCache TreeValueSpec
begin

text \<open>
  Allocation of KV slots for a batch (\<open>mem_cache/common.py\<close>): room is made by eviction from the prefix
  cache, then slots and rows are taken, and the rows are filled with the cached part and the new
  slots. The prefix cache is the radix cache, the allocator the plain one or the paged one. \<open>None\<close> is
  an eviction that did not end.
\<close>

type_synonym ('s, 'a) orun = "'s \<Rightarrow> ('a res \<times> 's) option"

definition obind :: "('s, 'a) orun \<Rightarrow> ('a \<Rightarrow> ('s, 'b) orun) \<Rightarrow> ('s, 'b) orun" where
  "obind m f s =
     (case m s of None \<Rightarrow> None | Some (Inl e, s') \<Rightarrow> Some (Inl e, s') | Some (Inr x, s') \<Rightarrow> f x s')"

definition total_run :: "('s, 'a) run \<Rightarrow> ('s, 'a) orun" where
  "total_run m s = Some (m s)"

definition available_size :: "kv_alloc \<Rightarrow> nat" where
  "available_size a = (if page_size a = 1 then tok_available_size a else base_available_size a)"

definition evict_from_tree_cache :: "radix_config \<Rightarrow> nat \<Rightarrow> (radix, unit) orun" where
  "evict_from_tree_cache cfg num_tokens s =
     (if available_size (r_alloc s) < num_tokens
      then map_option (\<lambda>(r, s'). (map_sum id (\<lambda>_. ()) r, s')) (evict cfg num_tokens s)
      else Some (Inr (), s))"

text \<open>The slots, and the state of the allocator before they were taken when a backup is asked for.\<close>

definition alloc_token_slots ::
  "radix_config \<Rightarrow> nat \<Rightarrow> bool \<Rightarrow> (radix, int list \<times> (int list \<times> int list) option) orun"
where
  "alloc_token_slots cfg num_tokens with_backup =
     obind (evict_from_tree_cache cfg num_tokens)
       (\<lambda>_ s. let state = (if with_backup then Some (backup_state (r_alloc s)) else None)
              in case tok_alloc (r_alloc s) num_tokens of
                   (None, a) \<Rightarrow> Some (Inl RuntimeError, s\<lparr>r_alloc := a\<rparr>)
                 | (Some xs, a) \<Rightarrow> Some (Inr (xs, state), s\<lparr>r_alloc := a\<rparr>))"

text \<open>What the paged allocator calls have in common: eviction, the backup, the allocation, the error.\<close>

definition alloc_paged ::
  "radix_config \<Rightarrow> nat \<Rightarrow> bool \<Rightarrow> (kv_alloc, int list option) run
     \<Rightarrow> (radix, int list \<times> (int list \<times> int list) option) orun"
where
  "alloc_paged cfg num_tokens with_backup alloc =
     obind (evict_from_tree_cache cfg num_tokens)
       (\<lambda>_ s. let state = (if with_backup then Some (backup_state (r_alloc s)) else None)
              in case alloc (r_alloc s) of
                   (Inl e, a) \<Rightarrow> Some (Inl e, s\<lparr>r_alloc := a\<rparr>)
                 | (Inr None, a) \<Rightarrow> Some (Inl RuntimeError, s\<lparr>r_alloc := a\<rparr>)
                 | (Inr (Some xs), a) \<Rightarrow> Some (Inr (xs, state), s\<lparr>r_alloc := a\<rparr>))"

definition alloc_paged_token_slots_extend ::
  "radix_config \<Rightarrow> hw \<Rightarrow> int list \<Rightarrow> int list \<Rightarrow> int list \<Rightarrow> nat \<Rightarrow> bool
     \<Rightarrow> (radix, int list \<times> (int list \<times> int list) option) orun"
where
  "alloc_paged_token_slots_extend cfg h prefix_lens seq_lens last_loc extend_num_tokens with_backup s =
     alloc_paged cfg (extend_num_tokens + length seq_lens * page_size (r_alloc s)) with_backup
       (paged_alloc_extend h prefix_lens seq_lens last_loc extend_num_tokens) s"

definition alloc_paged_token_slots_decode ::
  "radix_config \<Rightarrow> hw \<Rightarrow> int list \<Rightarrow> int list \<Rightarrow> (radix, int list) orun"
where
  "alloc_paged_token_slots_decode cfg h seq_lens last_loc s =
     obind (alloc_paged cfg (length seq_lens * page_size (r_alloc s)) False (paged_alloc_decode h seq_lens last_loc))
       (\<lambda>(xs, _). total_run (ret xs)) s"

definition alloc_req_slots :: "nat \<Rightarrow> (radix, nat list) run" where
  "alloc_req_slots num_reqs s =
     (case rp_alloc (r_rows s) num_reqs of
        (None, rows) \<Rightarrow> (Inl RuntimeError, s\<lparr>r_rows := rows\<rparr>)
      | (Some idxs, rows) \<Rightarrow> (Inr idxs, s\<lparr>r_rows := rows\<rparr>))"

text \<open>A request of an extend batch: its cached slots, its length, the number of new tokens.\<close>

record extend_req =
  ex_prefix :: "int list"
  ex_prefix_len :: nat
  ex_seq_len :: nat
  ex_extend_len :: nat

text \<open>
  A batch pairs every request with its row. One program of the Triton writer yields its stores, as
  addresses in the row-major table and values: the cached part in blocks of 512, then the new slots,
  which start after those of the requests before.
\<close>

type_synonym extend_batch = "(extend_req \<times> nat) list"

definition write_req_to_token_pool_triton ::
  "hw \<Rightarrow> int list \<Rightarrow> extend_batch \<Rightarrow> nat \<Rightarrow> nat \<Rightarrow> (int \<times> int) list"
where
  "write_req_to_token_pool_triton h out_cache_loc batch stride pid =
     (let (r, req_pool_index) = batch ! pid;
          pre_len = ex_prefix_len r;
          seq_len = ex_seq_len r;
          num_loop = (pre_len + 512 - 1) div 512;
          part1 = concat (map (\<lambda>i. map (\<lambda>j. (int (req_pool_index * stride + (j + i * 512)),
                                             page_load h (ex_prefix r) (int (j + i * 512))))
                                       (filter (\<lambda>j. j + i * 512 < pre_len) [0 ..< 512])) [0 ..< num_loop]);
          cumsum_start = foldl (\<lambda>acc i. acc + ex_extend_len (fst (batch ! i))) 0 [0 ..< pid];
          num_loop = (seq_len - pre_len + 512 - 1) div 512;
          part2 = concat (map (\<lambda>i. map (\<lambda>j. (int (req_pool_index * stride + (j + i * 512) + pre_len),
                                             page_load h out_cache_loc (int (cumsum_start + (j + i * 512)))))
                                       (filter (\<lambda>j. j + i * 512 < seq_len - pre_len) [0 ..< 512])) [0 ..< num_loop])
      in part1 @ part2)"

definition as_rows :: "nat \<Rightarrow> nat \<Rightarrow> 'a list \<Rightarrow> 'a list list" where
  "as_rows n stride flat = map (\<lambda>i. slice flat (i * stride) (i * stride + stride)) [0 ..< n]"

text \<open>The launch of the kernel, whose programs take effect in the given order.\<close>

definition write_rows_triton :: "hw \<Rightarrow> nat list \<Rightarrow> int list \<Rightarrow> extend_batch \<Rightarrow> req_pool \<Rightarrow> req_pool" where
  "write_rows_triton h order out_cache_loc batch rp =
     rp\<lparr>req_to_token := as_rows (length (req_to_token rp)) (max_context_len rp)
        (store_all (concat (req_to_token rp))
           (concat (map (write_req_to_token_pool_triton h out_cache_loc batch (max_context_len rp)) order)))\<rparr>"

text \<open>The loop over the requests for the other attention backends.\<close>

fun write_rows_loop :: "int list \<Rightarrow> nat \<Rightarrow> extend_batch \<Rightarrow> (req_pool, unit) run" where
  "write_rows_loop out_cache_loc pt [] rp = (Inr (), rp)"
| "write_rows_loop out_cache_loc pt ((r, idx) # rs) rp =
     andthen (rp_write idx 0 (ex_prefix_len r) (ex_prefix r))
       (\<lambda>_. andthen (rp_write idx (ex_prefix_len r) (ex_seq_len r) (slice out_cache_loc pt (pt + ex_extend_len r)))
          (\<lambda>_. write_rows_loop out_cache_loc (pt + ex_extend_len r) rs)) rp"

text \<open>The backend either runs the kernel, with some order of its programs, or the loop.\<close>

definition write_cache_indices :: "hw \<Rightarrow> nat list option \<Rightarrow> int list \<Rightarrow> extend_batch \<Rightarrow> (radix, unit) run" where
  "write_cache_indices h triton out_cache_loc batch s =
     (case triton of
        Some order \<Rightarrow> (Inr (), s\<lparr>r_rows := write_rows_triton h order out_cache_loc batch (r_rows s)\<rparr>)
      | None \<Rightarrow> (case write_rows_loop out_cache_loc 0 batch (r_rows s) of (r, rows) \<Rightarrow> (r, s\<lparr>r_rows := rows\<rparr>)))"

definition alloc_for_extend ::
  "radix_config \<Rightarrow> hw \<Rightarrow> nat list option \<Rightarrow> extend_req list \<Rightarrow> nat \<Rightarrow> (radix, int list \<times> nat list) orun"
where
  "alloc_for_extend cfg h triton reqs extend_num_tokens =
     obind (total_run (alloc_req_slots (length reqs)))
       (\<lambda>idxs. obind
          (if c_page_size cfg = 1 then alloc_token_slots cfg extend_num_tokens False
           else alloc_paged_token_slots_extend cfg h (map (int \<circ> ex_prefix_len) reqs) (map (int \<circ> ex_seq_len) reqs)
                  (map (\<lambda>r. if ex_prefix r = [] then - 1 else last (ex_prefix r)) reqs) extend_num_tokens False)
          (\<lambda>(xs, _). obind (total_run (write_cache_indices h triton xs (zip reqs idxs))) (\<lambda>_. total_run (ret (xs, idxs)))))"

section \<open>Decode batches\<close>

text \<open>\<open>table[row, col]\<close>.\<close>

definition cell_at :: "int list list \<Rightarrow> nat \<Rightarrow> int \<Rightarrow> int res" where
  "cell_at tbl row col = (if row < length tbl then py_nth (tbl ! row) col else Inl IndexError)"

text \<open>\<open>write((rows, cols), values)\<close>: one value per cell, or a single value for all.\<close>

definition rp_put :: "(nat \<times> nat) list \<Rightarrow> int list \<Rightarrow> (req_pool, unit) run" where
  "rp_put cells vals rp =
     (if length vals \<noteq> length cells \<and> length vals \<noteq> 1 then (Inl RuntimeError, rp)
      else if \<exists>(row, col) \<in> set cells. length (req_to_token rp) \<le> row \<or> length (req_to_token rp ! row) \<le> col
      then (Inl IndexError, rp)
      else let vs = (if length vals = length cells then vals else replicate (length cells) (hd vals)) in
        (Inr (), rp\<lparr>req_to_token := foldl (\<lambda>t ((row, col), v). t[row := (t ! row)[col := v]]) (req_to_token rp) (zip cells vs)\<rparr>))"

record decode_req =
  de_row :: nat
  de_seq_len :: nat
  de_encoder_len :: nat

definition alloc_for_decode ::
  "radix_config \<Rightarrow> hw \<Rightarrow> bool \<Rightarrow> decode_req list \<Rightarrow> nat \<Rightarrow> (radix, int list) orun"
where
  "alloc_for_decode cfg h is_encoder_decoder reqs token_per_req =
     obind
       (if c_page_size cfg = 1
        then obind (alloc_token_slots cfg (length reqs * token_per_req) False) (\<lambda>(xs, _). total_run (ret xs))
        else obind (\<lambda>s. Some (gather_all (\<lambda>r. cell_at (req_to_token (r_rows s)) (de_row r) (int (de_seq_len r) - 1)) reqs, s))
          (\<lambda>last_loc. alloc_paged_token_slots_decode cfg h (map (\<lambda>r. int (de_seq_len r + token_per_req)) reqs) last_loc))
       (\<lambda>xs. obind (\<lambda>s. case rp_put (map (\<lambda>r. (de_row r, if is_encoder_decoder then de_encoder_len r + de_seq_len r
                                                         else de_seq_len r)) reqs) xs (r_rows s) of
                          (r, rows) \<Rightarrow> Some (r, s\<lparr>r_rows := rows\<rparr>))
          (\<lambda>_. total_run (ret xs)))"

section \<open>The slot of the last token\<close>

text \<open>One row and one length per request; \<open>-1\<close> where the length is 0.\<close>

definition get_last_loc_torch :: "int list list \<Rightarrow> (nat \<times> nat) list \<Rightarrow> int list res" where
  "get_last_loc_torch tbl reqs =
     bind_res (gather_all (\<lambda>(row, len). cell_at tbl row (int len - 1)) reqs)
       (\<lambda>xs. Inr (map2 (\<lambda>(row, len) x. if 0 < len then x else - 1) reqs xs))"

definition get_last_loc_kernel :: "hw \<Rightarrow> int list \<Rightarrow> (nat \<times> nat) list \<Rightarrow> nat \<Rightarrow> nat \<Rightarrow> nat \<Rightarrow> (int \<times> int) list" where
  "get_last_loc_kernel h table reqs stride BLOCK_SIZE pid =
     map (\<lambda>j. let (row, len) = reqs ! (j + pid * BLOCK_SIZE) in
               (int (j + pid * BLOCK_SIZE),
                if 0 < len then page_load h table (int (row * stride) + (int len - 1)) else - 1))
       (filter (\<lambda>j. j + pid * BLOCK_SIZE < length reqs) [0 ..< BLOCK_SIZE])"

definition get_last_loc_triton :: "hw \<Rightarrow> int list list \<Rightarrow> nat \<Rightarrow> (nat \<times> nat) list \<Rightarrow> int list" where
  "get_last_loc_triton h tbl stride reqs =
     store_all (map (uninit_cell h) [0 ..< length reqs])
       (concat (map (get_last_loc_kernel h (concat tbl) reqs stride 256) [0 ..< (length reqs + 256 - 1) div 256]))"

end
