(* ===== verification/CacheAllocProps.thy ===== *)
theory CacheAllocProps
  imports RadixProps CacheAlloc
begin

text \<open>
  Allocation of slots for a batch: it succeeds exactly when the free and the evictable slots suffice.
\<close>

section \<open>Eviction and the allocator\<close>

lemma radix_free_alloc:
  assumes "radix_free xs s = (r, s')" "page_size (r_alloc s) = 1"
  shows "r = Inr () \<and> s' = s\<lparr>r_alloc := tok_free (r_alloc s) xs\<rparr>"
  using assms by (auto simp: radix_free_def)

lemma tok_free_keeps:
  assumes "tok_inv a" "page_size a = 1"
  shows "tok_inv (tok_free a xs) \<and> page_size (tok_free a xs) = 1 \<and> free_group (tok_free a xs) = free_group a"
  using assms by (auto simp: tok_inv_def tok_free_def)

lemma evict_loop_keeps:
  assumes "evict_loop cfg fuel num heap acc s = Some (r, s')" "tok_inv (r_alloc s)" "page_size (r_alloc s) = 1"
  shows "tok_inv (r_alloc s') \<and> free_group (r_alloc s') = free_group (r_alloc s)"
  using assms
proof (induction fuel arbitrary: heap acc s)
  case (Suc fuel)
  show ?case
  proof (cases "num \<le> acc \<or> heap = []")
    case True
    then show ?thesis using Suc.prems by auto
  next
    case False
    define x where "x = snd (snd (heap ! c_pick cfg heap))"
    show ?thesis
    proof (cases "find_node x (root_node s) = None \<or> parent_of x (root_node s) = None")
      case True
      then have "s' = s" using Suc.prems(1) False by (auto simp: Let_def x_def split: option.splits)
      then show ?thesis using Suc.prems by simp
    next
      case found: False
      then obtain nx p where np: "find_node x (root_node s) = Some nx" "parent_of x (root_node s) = Some p" by auto
      let ?a = "tok_free (r_alloc s) (nvalue (info nx))"
      have fr: "radix_free (nvalue (info nx)) s = (Inr (), s\<lparr>r_alloc := ?a\<rparr>)" using Suc.prems(3) by (simp add: radix_free_def)
      note k = tok_free_keeps[OF Suc.prems(2,3), of "nvalue (info nx)"]
      obtain rd base where d: "delete_leaf (c_page_size cfg) x (root_node s) = (rd, base)" by fastforce
      show ?thesis
      proof (cases "\<exists>u p'. rd = Inr u \<and> find_node (node_id (info p)) base = Some p'")
        case False
        then have "r_alloc s' = ?a"
          using Suc.prems(1) \<open>\<not> (num \<le> acc \<or> heap = [])\<close> np fr d
          by (auto simp: Let_def x_def split: sum.splits option.splits)
        then show ?thesis using k by simp
      next
        case True
        then obtain u p' where p': "rd = Inr u" "find_node (node_id (info p)) base = Some p'" by blast
        let ?i = "c_pick cfg heap"
        let ?rest = "take ?i heap @ drop (Suc ?i) heap"
        let ?s2 = "s\<lparr>r_alloc := ?a, root_node := base, evictable_size := evictable_size s - int (key_len (nkey (info nx)))\<rparr>"
        have rec: "evict_loop cfg fuel num (if kids p' = [] \<and> lock_ref (info p') = 0 then ?rest @ [heap_entry cfg p'] else ?rest)
            (acc + length (nvalue (info nx))) ?s2 = Some (r, s')"
          using Suc.prems(1) \<open>\<not> (num \<le> acc \<or> heap = [])\<close> np fr d p' by (simp add: Let_def x_def)
        have "tok_inv (r_alloc ?s2)" "page_size (r_alloc ?s2) = 1" "free_group (r_alloc ?s2) = free_group (r_alloc s)"
          using k by simp_all
        then show ?thesis
          using Suc.IH[OF rec] by simp
      qed
    qed
  qed
qed simp

lemma evict_keeps:
  "evict cfg num s = Some (r, s') \<Longrightarrow> tok_inv (r_alloc s) \<Longrightarrow> page_size (r_alloc s) = 1 \<Longrightarrow>
    tok_inv (r_alloc s') \<and> free_group (r_alloc s') = free_group (r_alloc s)"
  by (cases "c_disable cfg") (auto simp: evict_def simp del: evict_loop.simps dest: evict_loop_keeps)

lemma spare_size: "size (spare_slots s) = tok_available_size (r_alloc s) + length (concat (free_group (r_alloc s)))"
  by (simp add: spare_slots_def tok_slots_def tok_available_size_def)

lemma below_sum_nonneg: "(\<And>i. 0 \<le> f i) \<Longrightarrow> 0 \<le> below_sum f n" for f :: "node_info \<Rightarrow> int"
  unfolding below_sum_list by (rule sum_list_nonneg) auto

lemma tok_alloc_spec:
  assumes "tok_inv a"
  shows "if n \<le> tok_available_size a
      then \<exists>xs a'. tok_alloc a n = (Some xs, a') \<and> length xs = n \<and> mset xs + mset (tok_slots a') = mset (tok_slots a)
        \<and> tok_inv a' \<and> page_size a' = page_size a \<and> free_group a' = free_group a
      else \<exists>a'. tok_alloc a n = (None, a')"
proof -
  define a1 where "a1 = (if need_sort a \<and> n > length (free_pages a) then merge_and_sort_free a else a)"
  have m: "mset (tok_slots a1) = mset (tok_slots a)" "tok_inv a1" "page_size a1 = page_size a" "free_group a1 = free_group a"
    using assms by (auto simp: a1_def tok_inv_def) (auto simp: merge_and_sort_free_def)
  have l: "n \<le> length (free_pages a1) \<longleftrightarrow> n \<le> tok_available_size a"
    using assms by (auto simp: a1_def tok_available_size_def tok_inv_def)
  have t: "tok_alloc a n = (if n > length (free_pages a1) then (None, a1)
      else (Some (take n (free_pages a1)), a1\<lparr>free_pages := drop n (free_pages a1)\<rparr>))"
    by (simp add: tok_alloc_def a1_def Let_def)
  show ?thesis
  proof (cases "n \<le> tok_available_size a")
    case True
    then have "tok_alloc a n = (Some (take n (free_pages a1)), a1\<lparr>free_pages := drop n (free_pages a1)\<rparr>)" using t l by simp
    moreover have "mset (take n (free_pages a1)) + mset (tok_slots (a1\<lparr>free_pages := drop n (free_pages a1)\<rparr>)) = mset (tok_slots a1)"
      by (simp add: tok_slots_def mset_take_drop flip: union_assoc)
    ultimately show ?thesis using True l m by (simp add: tok_inv_def)
  next
    case False
    then show ?thesis using t l by simp
  qed
qed

text \<open>
  Slots for a batch are found whenever they can be: with free slots and evictable slots for
  \<open>n\<close> tokens together, the allocation evicts what it must, returns \<open>n\<close> slots that came from the free
  slots or from the evicted nodes and now belong to neither, and leaves every held node on its path.
  Otherwise it raises \<open>RuntimeError\<close>.
\<close>

lemma alloc_token_slots_spec:
  assumes "active cfg" "radix_ok cfg H s" "page_size (r_alloc s) = 1" "pick_ok cfg" "tok_inv (r_alloc s)"
  shows "if int n \<le> int (tok_available_size (r_alloc s)) + evictable_size s
    then \<exists>xs st s'. alloc_token_slots cfg n bk s = Some (Inr (xs, st), s') \<and> length xs = n \<and> radix_ok cfg H s'
      \<and> page_size (r_alloc s') = 1 \<and> tok_inv (r_alloc s')
      \<and> mset xs + spare_slots s' + cached_slots s' = spare_slots s + cached_slots s
      \<and> protected_size s' = protected_size s \<and> r_rows s' = r_rows s
      \<and> (\<forall>x us h. h \<in># H \<longrightarrow> at_node x (root_node s) us h \<longrightarrow> at_node x (root_node s') us h)
    else \<exists>s'. alloc_token_slots cfg n bk s = Some (Inl RuntimeError, s') \<and> r_rows s' = r_rows s"
proof -
  let ?av = "tok_available_size (r_alloc s)"
  obtain s1 m where e: "evict_from_tree_cache cfg n s = Some (Inr (), s1)" "evicted cfg H m s s1"
      "tok_inv (r_alloc s1)" "free_group (r_alloc s1) = free_group (r_alloc s)"
      "n \<le> ?av \<or> n \<le> m \<or> evictable_size s1 = 0"
  proof (cases "?av < n")
    case False
    then show ?thesis using evicted_refl[OF assms(2,3)] assms(3,5) by (intro that[of s 0]) (simp_all add: evict_from_tree_cache_def available_size_def)
  next
    case True
    obtain m s1 where v: "evict cfg n s = Some (Inr m, s1)" "evicted cfg H m s s1" "n \<le> m \<or> evictable_size s1 = 0"
      using evict_spec[OF assms(1-4), of n] by blast
    show ?thesis using v True assms(3) evict_keeps[OF v(1) assms(5,3)]
      by (intro that[of s1 m]) (simp_all add: evict_from_tree_cache_def available_size_def)
  qed
  have av1: "tok_available_size (r_alloc s1) = ?av + m"
    using e(2,4) by (simp add: evicted_def spare_size)
  have ev: "evictable_size s1 = evictable_size s - int m" "0 \<le> evictable_size s1"
    using e(2) below_sum_nonneg[of unlocked_tokens "root_node s1"] by (simp_all add: evicted_def radix_ok_def unlocked_tokens_def)
  have iff: "n \<le> tok_available_size (r_alloc s1) \<longleftrightarrow> int n \<le> int ?av + evictable_size s"
    using av1 ev e(5) by auto
  have run: "alloc_token_slots cfg n bk s = (let state = (if bk then Some (backup_state (r_alloc s1)) else None)
      in case tok_alloc (r_alloc s1) n of (None, a) \<Rightarrow> Some (Inl RuntimeError, s1\<lparr>r_alloc := a\<rparr>)
         | (Some xs, a) \<Rightarrow> Some (Inr (xs, state), s1\<lparr>r_alloc := a\<rparr>))"
    using e(1) by (simp add: alloc_token_slots_def obind_def)
  show ?thesis
  proof (cases "int n \<le> int ?av + evictable_size s")
    case True
    then obtain xs a where t: "tok_alloc (r_alloc s1) n = (Some xs, a)" "length xs = n"
        "mset xs + mset (tok_slots a) = mset (tok_slots (r_alloc s1))" "free_group a = free_group (r_alloc s1)"
        "tok_inv a" "page_size a = page_size (r_alloc s1)"
      using tok_alloc_spec[OF e(3), of n] iff by auto
    have sp: "mset xs + spare_slots (s1\<lparr>r_alloc := a\<rparr>) = spare_slots s1" using t(3,4) by (simp add: spare_slots_def flip: union_assoc)
    have "mset xs + spare_slots (s1\<lparr>r_alloc := a\<rparr>) + cached_slots (s1\<lparr>r_alloc := a\<rparr>) = spare_slots s + cached_slots s"
      unfolding sp using e(2) by (simp add: evicted_def)
    then show ?thesis using True run t e(2) by (simp add: Let_def evicted_def)
  next
    case False
    then show ?thesis using run tok_alloc_spec[OF e(3), of n] iff e(2) by (auto simp: Let_def evicted_def)
  qed
qed

end
