(* ===== verification/CacheRows.thy ===== *)
theory CacheRows
  imports CacheAllocProps Positions
begin

text \<open>
  The rows of the request table after an allocation: the Triton writer, in any order of its programs,
  and the loop write the same rows; an extend batch gets rows with its cached part and its new slots,
  a decode batch one more slot per row; the two ways to read the last slot of a row agree.
\<close>

section \<open>Rows replaced one by one\<close>

definition put_row :: "'a list list \<Rightarrow> nat \<times> 'a list \<Rightarrow> 'a list list" where
  "put_row rows p = rows[fst p := snd p @ drop (length (snd p)) (rows ! fst p)]"

definition put_rows :: "(nat \<times> 'a list) list \<Rightarrow> 'a list list \<Rightarrow> 'a list list" where
  "put_rows ps rows = foldl put_row rows ps"

lemma put_rows_simps [simp]:
  "put_rows [] rows = rows" "put_rows (p # ps) rows = put_rows ps (put_row rows p)"
  by (simp_all add: put_rows_def)

lemma length_put_row [simp]: "length (put_row rows p) = length rows"
  by (simp add: put_row_def)

lemma length_put_rows [simp]: "length (put_rows ps rows) = length rows"
  by (induction ps arbitrary: rows) simp_all

lemma nth_put_rows:
  "distinct (map fst ps) \<Longrightarrow> k < length rows \<Longrightarrow>
   put_rows ps rows ! k = (case map_of ps k of None \<Rightarrow> rows ! k | Some d \<Rightarrow> d @ drop (length d) (rows ! k))"
proof (induction ps arbitrary: rows)
  case (Cons p ps)
  then show ?case
    by (cases "fst p = k") (auto simp: put_row_def map_of_eq_None_iff[symmetric] split: option.splits)
qed simp

lemma put_rows_perm:
  assumes "mset ps = mset qs" "distinct (map fst ps)"
  shows "put_rows ps rows = put_rows qs rows"
proof (rule nth_equalityI)
  have d: "distinct (map fst qs)" using assms by (metis mset_eq_imp_distinct_iff mset_map)
  then have "map_of ps = map_of qs" using assms map_of_inject_set set_mset_mset by metis
  then show "put_rows ps rows ! k = put_rows qs rows ! k" if "k < length (put_rows ps rows)" for k
    using that assms(2) d by (simp add: nth_put_rows)
qed simp

text \<open>A table in row-major order.\<close>

definition has_width :: "nat \<Rightarrow> 'a list list \<Rightarrow> bool" where
  "has_width w rows \<longleftrightarrow> (\<forall>row \<in> set rows. length row = w)"

lemma length_concat_width: "has_width w rows \<Longrightarrow> length (concat rows) = length rows * w"
  by (induction rows) (simp_all add: has_width_def)

lemma concat_split:
  assumes "has_width w rows" "i < length rows"
  shows "concat rows = concat (take i rows) @ rows ! i @ concat (drop (Suc i) rows)"
    "length (concat (take i rows)) = i * w" "length (rows ! i) = w"
proof -
  show "concat rows = concat (take i rows) @ rows ! i @ concat (drop (Suc i) rows)"
    by (subst id_take_nth_drop[OF assms(2)]) simp
  have "has_width w (take i rows)" using assms(1) by (meson has_width_def in_set_takeD)
  then show "length (concat (take i rows)) = i * w" using assms(2) by (simp add: length_concat_width)
  show "length (rows ! i) = w" using assms by (simp add: has_width_def)
qed

lemma nth_concat_width:
  assumes "has_width w rows" "i < length rows" "k < w"
  shows "concat rows ! (i * w + k) = rows ! i ! k"
  using concat_split(2,3)[OF assms(1,2)] assms(3)
  by (subst concat_split(1)[OF assms(1,2)]) (simp add: nth_append)

lemma as_rows_concat: "has_width w rows \<Longrightarrow> as_rows (length rows) w (concat rows) = rows"
proof (rule nth_equalityI)
  fix i assume "has_width w rows" "i < length (as_rows (length rows) w (concat rows))"
  then show "as_rows (length rows) w (concat rows) ! i = rows ! i"
    using concat_split[of w rows i] slice_append_mid[of "concat (take i rows)" "rows ! i" "concat (drop (Suc i) rows)"]
    by (simp add: as_rows_def)
qed (simp add: as_rows_def)

lemma put_row_width: "has_width w rows \<Longrightarrow> length (snd p) \<le> w \<Longrightarrow> fst p < length rows \<Longrightarrow> has_width w (put_row rows p)"
  by (auto simp: has_width_def put_row_def dest!: set_update_subset_insert[THEN subsetD])

lemma blit_row:
  assumes "has_width w rows" "fst p < length rows" "length (snd p) \<le> w"
  shows "blit (fst p * w) (snd p) (concat rows) = concat (put_row rows p)"
proof -
  obtain i d where p: "p = (i, d)" by fastforce
  note c = concat_split[OF assms(1,2), unfolded p fst_conv]
  have "concat (put_row rows p) = concat (take i rows) @ d @ drop (length d) (rows ! i) @ concat (drop (Suc i) rows)"
    using assms(2) p by (simp add: put_row_def upd_conv_take_nth_drop)
  moreover have "blit (i * w) d (concat rows) = concat (take i rows) @ d @ drop (length d) (rows ! i) @ concat (drop (Suc i) rows)"
    unfolding blit_def using c assms(3) p by (simp add: c(1))
  ultimately show ?thesis using p by simp
qed

lemma store_rows:
  assumes "has_width w rows" "\<forall>p \<in> set ps. fst p < length rows \<and> length (snd p) \<le> w"
  shows "store_all (concat rows) (concat (map (\<lambda>p. run_of (fst p * w) (snd p)) ps)) = concat (put_rows ps rows)
    \<and> has_width w (put_rows ps rows)"
  using assms
proof (induction ps arbitrary: rows)
  case (Cons p ps)
  have p: "fst p < length rows" "length (snd p) \<le> w" using Cons.prems(2) by simp_all
  have "fst p * w + length (snd p) \<le> length (concat rows)"
  proof -
    have "Suc (fst p) * w \<le> length rows * w" using p(1) by (intro mult_le_mono1) simp
    then show ?thesis using p(2) Cons.prems(1) by (simp add: length_concat_width)
  qed
  then have "store_all (concat rows) (run_of (fst p * w) (snd p)) = concat (put_row rows p)"
    using Cons.prems(1) p by (simp add: store_run_of blit_row)
  moreover have "\<forall>q \<in> set ps. fst q < length (put_row rows p) \<and> length (snd q) \<le> w" using Cons.prems(2) by simp
  ultimately show ?case using Cons.IH[OF put_row_width[OF Cons.prems(1) p(2,1)]] by (simp add: store_all_append)
qed simp

section \<open>The rows of an extend batch\<close>

text \<open>What each row of a batch is to start with, when its new slots begin at \<open>pt\<close>.\<close>

fun row_data :: "int list \<Rightarrow> nat \<Rightarrow> extend_batch \<Rightarrow> (nat \<times> int list) list" where
  "row_data xs pt [] = []"
| "row_data xs pt ((r, i) # b) =
     (i, ex_prefix r @ slice xs pt (pt + ex_extend_len r)) # row_data xs (pt + ex_extend_len r) b"

definition slots_start :: "extend_req list \<Rightarrow> nat \<Rightarrow> nat" where
  "slots_start reqs pid = sum_list (map ex_extend_len (take pid reqs))"

definition extend_req_ok :: "nat \<Rightarrow> extend_req \<Rightarrow> bool" where
  "extend_req_ok w r \<longleftrightarrow> length (ex_prefix r) = ex_prefix_len r \<and> ex_seq_len r = ex_prefix_len r + ex_extend_len r
     \<and> ex_seq_len r \<le> w"

text \<open>A batch as the scheduler builds it: rows of the table, all distinct, and slots for every new token.\<close>

definition batch_ok :: "int list \<Rightarrow> extend_batch \<Rightarrow> req_pool \<Rightarrow> bool" where
  "batch_ok xs batch rp \<longleftrightarrow> has_width (max_context_len rp) (req_to_token rp)
     \<and> (\<forall>(r, i) \<in> set batch. extend_req_ok (max_context_len rp) r \<and> i < length (req_to_token rp))
     \<and> distinct (map snd batch) \<and> slots_start (map fst batch) (length batch) = length xs"

lemma length_row_data [simp]: "length (row_data xs pt b) = length b"
  by (induction xs pt b rule: row_data.induct) simp_all

lemma map_fst_row_data [simp]: "map fst (row_data xs pt b) = map snd b"
  by (induction xs pt b rule: row_data.induct) simp_all

lemma nth_row_data:
  "pid < length b \<Longrightarrow> row_data xs pt b ! pid =
    (snd (b ! pid), ex_prefix (fst (b ! pid)) @
      slice xs (pt + slots_start (map fst b) pid) (pt + slots_start (map fst b) pid + ex_extend_len (fst (b ! pid))))"
proof (induction xs pt b arbitrary: pid rule: row_data.induct)
  case (2 xs pt r i b)
  show ?case
  proof (cases pid)
    case (Suc n)
    then show ?thesis using 2 by (simp add: slots_start_def add.assoc)
  qed (simp add: slots_start_def)
qed simp

lemma slots_start_mono: "pid < length reqs \<Longrightarrow> slots_start reqs pid + ex_extend_len (reqs ! pid) \<le> slots_start reqs (length reqs)"
proof -
  assume p: "pid < length reqs"
  have "sum_list (map ex_extend_len reqs) = sum_list (map ex_extend_len (take pid reqs @ reqs ! pid # drop (Suc pid) reqs))"
    using id_take_nth_drop[OF p] by simp
  then show ?thesis by (simp add: slots_start_def)
qed

lemma set_row_data [simp]: "fst ` set (row_data xs pt b) = snd ` set b"
  by (metis list.set_map map_fst_row_data)

lemma batch_okD:
  "batch_ok xs batch rp \<Longrightarrow> pid < length batch \<Longrightarrow>
   extend_req_ok (max_context_len rp) (fst (batch ! pid)) \<and> snd (batch ! pid) < length (req_to_token rp)"
  using nth_mem[of pid batch] by (fastforce simp: batch_ok_def case_prod_unfold)

lemma row_data_lengths:
  assumes "batch_ok xs batch rp" "pid < length batch"
  shows "length (snd (row_data xs 0 batch ! pid)) = ex_seq_len (fst (batch ! pid))"
proof -
  have "extend_req_ok (max_context_len rp) (fst (batch ! pid))"
    using batch_okD[OF assms] by simp
  moreover have "slots_start (map fst batch) pid + ex_extend_len (fst (batch ! pid)) \<le> length xs"
    using slots_start_mono[of pid "map fst batch"] assms by (simp add: batch_ok_def)
  ultimately show ?thesis using assms(2) by (simp add: nth_row_data extend_req_ok_def)
qed

lemma rp_write_run:
  assumes "i < length (req_to_token rp)" "j + length vals \<le> length (req_to_token rp ! i)"
  shows "rp_write i j (j + length vals) vals rp
    = (Inr (), rp\<lparr>req_to_token := (req_to_token rp)[i := blit j vals (req_to_token rp ! i)]\<rparr>)"
  using assms by (simp add: rp_write_def Let_def)

lemma write_rows_loop_put:
  assumes "has_width w (req_to_token rp)" "\<forall>(r, i) \<in> set b. extend_req_ok w r \<and> i < length (req_to_token rp)"
    "pt + sum_list (map (ex_extend_len \<circ> fst) b) \<le> length xs"
  shows "write_rows_loop xs pt b rp = (Inr (), rp\<lparr>req_to_token := put_rows (row_data xs pt b) (req_to_token rp)\<rparr>)"
  using assms
proof (induction xs pt b arbitrary: rp rule: row_data.induct)
  case (2 xs pt r i b)
  let ?t = "req_to_token rp" and ?n = "slice xs pt (pt + ex_extend_len r)"
  have r: "length (ex_prefix r) = ex_prefix_len r" "ex_seq_len r = ex_prefix_len r + ex_extend_len r" "ex_seq_len r \<le> w" "i < length ?t"
    using "2.prems"(2) by (auto simp: extend_req_ok_def)
  have n: "length ?n = ex_extend_len r" using "2.prems"(3) by simp
  have w: "length (?t ! i) = w" using "2.prems"(1) r(4) by (simp add: has_width_def)
  let ?row = "blit 0 (ex_prefix r) (?t ! i)"
  have lr: "length ?row = w" using r w by simp
  have w1: "rp_write i 0 (ex_prefix_len r) (ex_prefix r) rp = (Inr (), rp\<lparr>req_to_token := ?t[i := ?row]\<rparr>)"
    using rp_write_run[of i rp 0 "ex_prefix r"] r w by simp
  have w2: "rp_write i (ex_prefix_len r) (ex_seq_len r) ?n (rp\<lparr>req_to_token := ?t[i := ?row]\<rparr>)
      = (Inr (), rp\<lparr>req_to_token := ?t[i := blit (ex_prefix_len r) ?n ?row]\<rparr>)"
    using rp_write_run[of i "rp\<lparr>req_to_token := ?t[i := ?row]\<rparr>" "ex_prefix_len r" ?n] r n lr by simp
  have row: "?t[i := blit (ex_prefix_len r) ?n ?row] = put_row ?t (i, ex_prefix r @ ?n)"
    using r n by (simp add: put_row_def blit_def add.commute)
  let ?rp = "rp\<lparr>req_to_token := put_row ?t (i, ex_prefix r @ ?n)\<rparr>"
  have "write_rows_loop xs (pt + ex_extend_len r) b ?rp = (Inr (), ?rp\<lparr>req_to_token := put_rows (row_data xs (pt + ex_extend_len r) b) (req_to_token ?rp)\<rparr>)"
    using "2.prems" r n by (intro "2.IH") (auto intro!: put_row_width)
  then show ?case using w1 w2 row by (simp add: andthen_def)
qed simp

lemma blocks_all: "min n ((n + 512 - 1) div 512 * 512) = (n::nat)"
proof -
  have "n + 512 - 1 = (n + 512 - 1) div 512 * 512 + (n + 512 - 1) mod 512" by simp
  moreover have "(n + 512 - 1) mod 512 < 512" by simp
  ultimately have "n \<le> (n + 512 - 1) div 512 * 512" by linarith
  then show ?thesis by simp
qed

lemma write_kernel_stores:
  assumes "batch_ok xs batch rp" "pid < length batch"
  shows "write_req_to_token_pool_triton h xs batch w pid
    = run_of (fst (row_data xs 0 batch ! pid) * w) (snd (row_data xs 0 batch ! pid))"
proof -
  obtain r i where b: "batch ! pid = (r, i)" by fastforce
  have ok: "extend_req_ok (max_context_len rp) r" using batch_okD[OF assms] b by simp
  let ?c = "slots_start (map fst batch) pid"
  have c: "?c + ex_extend_len r \<le> length xs" using slots_start_mono[of pid "map fst batch"] assms b by (simp add: batch_ok_def)
  have cs: "foldl (\<lambda>acc i. acc + ex_extend_len (fst (batch ! i))) 0 [0 ..< k] = slots_start (map fst batch) k"
    if "k \<le> length batch" for k
    using that by (induction k) (simp_all add: slots_start_def take_Suc_conv_app_nth)
  let ?f = "\<lambda>k. (int (i * w + k), page_load h (ex_prefix r) (int k))"
  let ?g = "\<lambda>k. (int (i * w + k + ex_prefix_len r), page_load h xs (int (?c + k)))"
  have e: "ex_seq_len r - ex_prefix_len r = ex_extend_len r" "length (ex_prefix r) = ex_prefix_len r" using ok by (simp_all add: extend_req_ok_def)
  have "map ?f [0 ..< ex_prefix_len r] = run_of (i * w) (ex_prefix r)"
    using e by (intro run_of_nth) (simp_all add: page_load_def)
  moreover have "map ?g [0 ..< ex_extend_len r] = run_of (i * w + ex_prefix_len r) (slice xs ?c (?c + ex_extend_len r))"
    using c by (intro run_of_nth) (simp_all add: page_load_def nth_slice nat_int_add)
  ultimately show ?thesis
    using blocks_of[of ?f 512 "ex_prefix_len r"] blocks_of[of ?g 512 "ex_extend_len r"] assms(2) cs[of pid] b e
    unfolding write_req_to_token_pool_triton_def blocks_all
    by (simp add: nth_row_data run_of_append blocks_all del: upt.simps)
qed

lemma write_rows_triton_put:
  assumes "batch_ok xs batch rp" "mset order = mset [0 ..< length batch]"
  shows "write_rows_triton h order xs batch rp = rp\<lparr>req_to_token := put_rows (row_data xs 0 batch) (req_to_token rp)\<rparr>"
proof -
  let ?d = "row_data xs 0 batch" and ?w = "max_context_len rp" and ?t = "req_to_token rp"
  let ?ps = "map (\<lambda>pid. ?d ! pid) order"
  have set: "set order = {0 ..< length batch}" using assms(2) by (metis set_mset_mset set_upt)
  have fits: "fst (?d ! pid) < length ?t \<and> length (snd (?d ! pid)) \<le> ?w" if "pid < length batch" for pid
    using row_data_lengths[OF assms(1) that] batch_okD[OF assms(1) that] that
    by (simp add: nth_row_data extend_req_ok_def)
  have m: "mset ?ps = mset ?d"
  proof -
    have "mset ?ps = mset (map (\<lambda>pid. ?d ! pid) [0 ..< length ?d])" using assms(2) unfolding mset_map by simp
    then show ?thesis by (simp add: map_nth del: length_row_data)
  qed
  have "concat (map (write_req_to_token_pool_triton h xs batch ?w) order) = concat (map (\<lambda>p. run_of (fst p * ?w) (snd p)) ?ps)"
    using set write_kernel_stores[OF assms(1)] by (auto simp: comp_def intro!: arg_cong[where f = concat])
  moreover have "has_width ?w ?t" using assms(1) by (simp add: batch_ok_def)
  moreover have "put_rows ?ps ?t = put_rows ?d ?t"
    by (rule put_rows_perm[OF m]) (use m assms(1) in \<open>metis batch_ok_def map_fst_row_data mset_eq_imp_distinct_iff mset_map\<close>)
  ultimately have "store_all (concat ?t) (concat (map (write_req_to_token_pool_triton h xs batch ?w) order)) = concat (put_rows ?d ?t)"
    "has_width ?w (put_rows ?d ?t)"
    using store_rows[of ?w ?t ?ps] fits set by auto
  then show ?thesis using as_rows_concat[of ?w "put_rows ?d ?t"] by (simp add: write_rows_triton_def)
qed

lemma write_cache_indices_put:
  assumes "batch_ok xs batch (r_rows s)" "case triton of None \<Rightarrow> True | Some order \<Rightarrow> mset order = mset [0 ..< length batch]"
  shows "write_cache_indices h triton xs batch s
    = (Inr (), s\<lparr>r_rows := (r_rows s)\<lparr>req_to_token := put_rows (row_data xs 0 batch) (req_to_token (r_rows s))\<rparr>\<rparr>)"
proof (cases triton)
  case None
  have "write_rows_loop xs 0 batch (r_rows s)
      = (Inr (), (r_rows s)\<lparr>req_to_token := put_rows (row_data xs 0 batch) (req_to_token (r_rows s))\<rparr>)"
    using assms(1) by (intro write_rows_loop_put[where w = "max_context_len (r_rows s)"]) (auto simp: batch_ok_def slots_start_def)
  then show ?thesis using None by (simp add: write_cache_indices_def)
next
  case (Some order)
  then show ?thesis using assms write_rows_triton_put[OF assms(1), of order h] by (simp add: write_cache_indices_def)
qed

text \<open>The table after the write, row by row.\<close>

lemma put_batch_rows:
  assumes "batch_ok xs batch rp" "pid < length batch"
  shows "put_rows (row_data xs 0 batch) (req_to_token rp) ! snd (batch ! pid)
    = ex_prefix (fst (batch ! pid)) @ slice xs (slots_start (map fst batch) pid) (slots_start (map fst batch) pid + ex_extend_len (fst (batch ! pid)))
        @ drop (ex_seq_len (fst (batch ! pid))) (req_to_token rp ! snd (batch ! pid))"
proof -
  let ?d = "row_data xs 0 batch"
  have d: "distinct (map fst ?d)" "snd (batch ! pid) < length (req_to_token rp)"
    using assms(1) batch_okD[OF assms] by (simp_all add: batch_ok_def)
  have "?d ! pid \<in> set ?d" using assms(2) by simp
  then have "map_of ?d (fst (?d ! pid)) = Some (snd (?d ! pid))" using d(1) by simp
  then show ?thesis using nth_put_rows[OF d] row_data_lengths[OF assms] assms(2) by (simp add: nth_row_data)
qed

lemma put_other_rows:
  assumes "batch_ok xs batch rp" "k < length (req_to_token rp)" "k \<notin> snd ` set batch"
  shows "put_rows (row_data xs 0 batch) (req_to_token rp) ! k = req_to_token rp ! k"
proof -
  have "map_of (row_data xs 0 batch) k = None"
    using assms(3) by (simp add: map_of_eq_None_iff)
  then show ?thesis using nth_put_rows[of "row_data xs 0 batch" k "req_to_token rp"] assms(1,2) by (simp add: batch_ok_def)
qed

text \<open>
  C15: The Triton writer and the loop agree. For a batch with distinct rows and a slot for every
  new token, the kernel leaves the same table as the loop in whatever order its programs run: every
  row of the batch holds the cached slots of its request, then its share of the new slots, then what
  it held before, and no other row changes.
\<close>

theorem write_cache_indices_agree:
  assumes "batch_ok xs batch (r_rows s)" "mset order = mset [0 ..< length batch]"
  shows "write_cache_indices h (Some order) xs batch s = write_cache_indices h None xs batch s
    \<and> (\<exists>rows. write_cache_indices h None xs batch s = (Inr (), s\<lparr>r_rows := (r_rows s)\<lparr>req_to_token := rows\<rparr>\<rparr>)
        \<and> length rows = length (req_to_token (r_rows s))
        \<and> (\<forall>pid < length batch. rows ! snd (batch ! pid) =
              ex_prefix (fst (batch ! pid)) @ slice xs (slots_start (map fst batch) pid) (slots_start (map fst batch) pid + ex_extend_len (fst (batch ! pid)))
              @ drop (ex_seq_len (fst (batch ! pid))) (req_to_token (r_rows s) ! snd (batch ! pid)))
        \<and> (\<forall>k < length rows. k \<notin> snd ` set batch \<longrightarrow> rows ! k = req_to_token (r_rows s) ! k))"
  using write_cache_indices_put[OF assms(1), of None h] write_cache_indices_put[OF assms(1), of "Some order" h] assms(2)
    put_batch_rows[OF assms(1)] put_other_rows[OF assms(1)]
  by (auto intro!: exI[of _ "put_rows (row_data xs 0 batch) (req_to_token (r_rows s))"])

section \<open>Extend batches\<close>

lemma radix_rows_irrelevant [simp]:
  "radix_ok cfg H (s\<lparr>r_rows := rows\<rparr>) = radix_ok cfg H s"
  "spare_slots (s\<lparr>r_rows := rows\<rparr>) = spare_slots s"
  "cached_slots (s\<lparr>r_rows := rows\<rparr>) = cached_slots s"
  by (simp_all add: radix_ok_def radix_wf_def spare_slots_def cached_slots_def)

text \<open>A table whose rows are all of the context length, and whose free rows exist and are distinct.\<close>

definition rows_ok :: "req_pool \<Rightarrow> bool" where
  "rows_ok rp \<longleftrightarrow> has_width (max_context_len rp) (req_to_token rp) \<and> distinct (free_slots rp)
     \<and> (\<forall>i \<in> set (free_slots rp). i < length (req_to_token rp))"

lemma batch_of_free_rows:
  assumes "rows_ok rp" "length reqs \<le> length (free_slots rp)" "\<forall>r \<in> set reqs. extend_req_ok (max_context_len rp) r"
    "length xs = slots_start reqs (length reqs)"
  shows "batch_ok xs (zip reqs (take (length reqs) (free_slots rp))) (rp\<lparr>free_slots := fs\<rparr>)"
  using assms by (auto simp: batch_ok_def rows_ok_def dest: set_zip_leftD set_zip_rightD in_set_takeD)

text \<open>Rows first: the state in which the slots are asked for.\<close>

lemma alloc_for_extend_run:
  fixes reqs s
  defines "s1 \<equiv> s\<lparr>r_rows := (r_rows s)\<lparr>free_slots := drop (length reqs) (free_slots (r_rows s))\<rparr>\<rparr>"
    and "idxs \<equiv> take (length reqs) (free_slots (r_rows s))"
  assumes "c_page_size cfg = 1" "length reqs \<le> length (free_slots (r_rows s))"
  shows "alloc_for_extend cfg h triton reqs n s = obind (alloc_token_slots cfg n False)
      (\<lambda>(xs, _). obind (total_run (write_cache_indices h triton xs (zip reqs idxs))) (\<lambda>_. total_run (ret (xs, idxs)))) s1"
  using assms(3,4) by (simp add: alloc_for_extend_def obind_def total_run_def alloc_req_slots_def rp_alloc_def s1_def idxs_def)

lemma alloc_for_extend_places:
  fixes reqs s
  defines "idxs \<equiv> take (length reqs) (free_slots (r_rows s))" and "t \<equiv> req_to_token (r_rows s)"
    and "n \<equiv> slots_start reqs (length reqs)"
  assumes "active cfg" "radix_ok cfg H s" "page_size (r_alloc s) = 1" "pick_ok cfg" "tok_inv (r_alloc s)" "c_page_size cfg = 1"
    and "rows_ok (r_rows s)" "\<forall>r \<in> set reqs. extend_req_ok (max_context_len (r_rows s)) r"
    and "case triton of None \<Rightarrow> True | Some order \<Rightarrow> mset order = mset [0 ..< length reqs]"
    and "length reqs \<le> length (free_slots (r_rows s))" "int n \<le> int (tok_available_size (r_alloc s)) + evictable_size s"
  shows "\<exists>xs s'. alloc_for_extend cfg h triton reqs n s = Some (Inr (xs, idxs), s') \<and> length xs = n
           \<and> radix_ok cfg H s' \<and> mset xs + spare_slots s' + cached_slots s' = spare_slots s + cached_slots s
           \<and> free_slots (r_rows s') = drop (length reqs) (free_slots (r_rows s))
           \<and> (\<forall>x us hd. hd \<in># H \<longrightarrow> at_node x (root_node s) us hd \<longrightarrow> at_node x (root_node s') us hd)
           \<and> (\<forall>j < length reqs. req_to_token (r_rows s') ! (idxs ! j) = ex_prefix (reqs ! j)
                @ slice xs (slots_start reqs j) (slots_start reqs j + ex_extend_len (reqs ! j)) @ drop (ex_seq_len (reqs ! j)) (t ! (idxs ! j)))
           \<and> (\<forall>k < length t. k \<notin> set idxs \<longrightarrow> req_to_token (r_rows s') ! k = t ! k)
           \<and> length (req_to_token (r_rows s')) = length t \<and> page_size (r_alloc s') = 1"
proof -
  let ?rows = "(r_rows s)\<lparr>free_slots := drop (length reqs) (free_slots (r_rows s))\<rparr>"
  define s1 where "s1 = s\<lparr>r_rows := ?rows\<rparr>"
  have s1: "radix_ok cfg H s1" "page_size (r_alloc s1) = 1" "tok_inv (r_alloc s1)" "r_alloc s1 = r_alloc s" "evictable_size s1 = evictable_size s"
    "spare_slots s1 = spare_slots s" "cached_slots s1 = cached_slots s" "root_node s1 = root_node s" "r_rows s1 = ?rows"
    using assms(5,6,8) by (simp_all add: s1_def)
  note run = alloc_for_extend_run[OF assms(9,13), of h triton n, folded s1_def idxs_def]
  obtain xs st s2 where x: "alloc_token_slots cfg n False s1 = Some (Inr (xs, st), s2)" "length xs = n" "radix_ok cfg H s2" "page_size (r_alloc s2) = 1"
      "mset xs + spare_slots s2 + cached_slots s2 = spare_slots s1 + cached_slots s1" "r_rows s2 = r_rows s1"
      "\<And>x us hd. hd \<in># H \<Longrightarrow> at_node x (root_node s1) us hd \<Longrightarrow> at_node x (root_node s2) us hd"
    using alloc_token_slots_spec[OF assms(4) s1(1,2) assms(7) s1(3), of n False, unfolded s1(4,5)] assms(14) by auto
  let ?b = "zip reqs idxs"
  have b: "batch_ok xs ?b (r_rows s2)"
    unfolding x(6) s1(9) idxs_def by (rule batch_of_free_rows) (use assms(10,11,13) x(2) n_def in simp_all)
  have lens: "length ?b = length reqs" "length idxs = length reqs" "map fst ?b = reqs" "snd ` set ?b = set idxs"
    using assms(13) by (simp_all add: idxs_def flip: set_map)
  define rows' where "rows' = put_rows (row_data xs 0 ?b) t"
  have t: "req_to_token (r_rows s2) = t" "free_slots (r_rows s2) = drop (length reqs) (free_slots (r_rows s))"
    by (simp_all add: x(6) s1(9) t_def)
  have "write_cache_indices h triton xs ?b s2 = (Inr (), s2\<lparr>r_rows := (r_rows s2)\<lparr>req_to_token := rows'\<rparr>\<rparr>)"
    using write_cache_indices_put[OF b, of triton h, unfolded lens(1), OF assms(12)] t by (simp add: rows'_def)
  then have fin: "alloc_for_extend cfg h triton reqs n s = Some (Inr (xs, idxs), s2\<lparr>r_rows := (r_rows s2)\<lparr>req_to_token := rows'\<rparr>\<rparr>)"
    using run x(1) by (simp add: obind_def total_run_def ret_app)
  have at: "rows' ! (idxs ! j) = ex_prefix (reqs ! j) @ slice xs (slots_start reqs j) (slots_start reqs j + ex_extend_len (reqs ! j))
      @ drop (ex_seq_len (reqs ! j)) (t ! (idxs ! j))" if "j < length reqs" for j
    using put_batch_rows[OF b, of j] that lens t by (simp add: rows'_def)
  have other: "rows' ! k = t ! k" if "k < length t" "k \<notin> set idxs" for k
    using put_other_rows[OF b, of k] that lens t by (simp add: rows'_def)
  have "length rows' = length t" by (simp add: rows'_def)
  then show ?thesis using fin x(2,3,4,5,7) at other t(2) s1 by simp
qed

text \<open>
  C8: An extend batch is placed whenever it can be. With a free row per request, and free and
  evictable slots for the new tokens, every request gets a row of its own that starts with its cached
  slots and its share of the new slots, on either backend; no other row changes, held nodes stay in
  the tree, and no slot is lost or handed out twice. Without the rows nothing changes, and without
  the slots the call raises with the rows already taken.
\<close>

theorem alloc_for_extend_fills_rows:
  fixes reqs s
  defines "idxs \<equiv> take (length reqs) (free_slots (r_rows s))" and "t \<equiv> req_to_token (r_rows s)"
    and "n \<equiv> slots_start reqs (length reqs)"
  assumes "active cfg" "radix_ok cfg H s" "page_size (r_alloc s) = 1" "pick_ok cfg" "tok_inv (r_alloc s)" "c_page_size cfg = 1"
    and "rows_ok (r_rows s)" "\<forall>r \<in> set reqs. extend_req_ok (max_context_len (r_rows s)) r"
    and "case triton of None \<Rightarrow> True | Some order \<Rightarrow> mset order = mset [0 ..< length reqs]"
  shows "if length (free_slots (r_rows s)) < length reqs
    then alloc_for_extend cfg h triton reqs n s = Some (Inl RuntimeError, s)
    else if int (tok_available_size (r_alloc s)) + evictable_size s < int n
    then \<exists>s'. alloc_for_extend cfg h triton reqs n s = Some (Inl RuntimeError, s')
           \<and> free_slots (r_rows s') = drop (length reqs) (free_slots (r_rows s))
    else \<exists>xs s'. alloc_for_extend cfg h triton reqs n s = Some (Inr (xs, idxs), s') \<and> length xs = n
           \<and> radix_ok cfg H s' \<and> mset xs + spare_slots s' + cached_slots s' = spare_slots s + cached_slots s
           \<and> free_slots (r_rows s') = drop (length reqs) (free_slots (r_rows s))
           \<and> (\<forall>x us hd. hd \<in># H \<longrightarrow> at_node x (root_node s) us hd \<longrightarrow> at_node x (root_node s') us hd)
           \<and> (\<forall>j < length reqs. req_to_token (r_rows s') ! (idxs ! j) = ex_prefix (reqs ! j)
                @ slice xs (slots_start reqs j) (slots_start reqs j + ex_extend_len (reqs ! j)) @ drop (ex_seq_len (reqs ! j)) (t ! (idxs ! j)))
           \<and> (\<forall>k < length t. k \<notin> set idxs \<longrightarrow> req_to_token (r_rows s') ! k = t ! k)"
proof (cases "length (free_slots (r_rows s)) < length reqs")
  case True
  then show ?thesis by (simp add: alloc_for_extend_def obind_def total_run_def alloc_req_slots_def rp_alloc_def)
next
  case enough: False
  define s1 where "s1 = s\<lparr>r_rows := (r_rows s)\<lparr>free_slots := drop (length reqs) (free_slots (r_rows s))\<rparr>\<rparr>"
  show ?thesis
  proof (cases "int n \<le> int (tok_available_size (r_alloc s)) + evictable_size s")
    case False
    obtain s' where "alloc_token_slots cfg n False s1 = Some (Inl RuntimeError, s')" "r_rows s' = r_rows s1"
      using alloc_token_slots_spec[of cfg H s1 n False] assms(4-8) False by (auto simp: s1_def)
    moreover have "length reqs \<le> length (free_slots (r_rows s))" using enough by simp
    ultimately show ?thesis
      using False enough alloc_for_extend_run[OF assms(9), of reqs s h triton n] by (simp add: obind_def s1_def)
  next
    case True
    have le: "length reqs \<le> length (free_slots (r_rows s))" using enough by simp
    show ?thesis
      using True enough alloc_for_extend_places[OF assms(4-12) le True[unfolded n_def], of h] unfolding idxs_def t_def n_def by auto
  qed
qed

section \<open>Decode batches\<close>

lemma nth_put_cells:
  assumes "distinct (map (fst \<circ> fst) cs)" "k < length t"
  shows "foldl (\<lambda>t ((row, col), v). t[row := (t ! row)[col := v]]) t cs ! k
    = (case map_of (map (\<lambda>((row, col), v). (row, col, v)) cs) k of None \<Rightarrow> t ! k | Some (col, v) \<Rightarrow> (t ! k)[col := v])"
  using assms
proof (induction cs arbitrary: t)
  case (Cons c cs)
  obtain row col v where c: "c = ((row, col), v)" by (metis prod.exhaust)
  have none: "map_of (map (\<lambda>((row, col), v). (row, col, v)) cs) row = None"
    using Cons.prems(1) c by (force simp: map_of_eq_None_iff image_iff)
  show ?case using Cons c none by (cases "row = k") (auto simp: comp_def split: option.split)
qed simp

lemma rp_put_cells:
  assumes "length vals = length cells" "distinct (map fst cells)"
    "\<forall>(row, col) \<in> set cells. row < length (req_to_token rp) \<and> col < length (req_to_token rp ! row)"
  shows "\<exists>rows. rp_put cells vals rp = (Inr (), rp\<lparr>req_to_token := rows\<rparr>)
    \<and> (\<forall>j < length cells. rows ! fst (cells ! j) = (req_to_token rp ! fst (cells ! j))[snd (cells ! j) := vals ! j])
    \<and> (\<forall>k < length (req_to_token rp). k \<notin> fst ` set cells \<longrightarrow> rows ! k = req_to_token rp ! k)"
proof -
  let ?t = "req_to_token rp" and ?cs = "zip cells vals"
  let ?m = "map (\<lambda>((row, col), v). (row, col, v)) ?cs"
  define rows where "rows = foldl (\<lambda>t ((row, col), v). t[row := (t ! row)[col := v]]) ?t ?cs"
  have d: "map (fst \<circ> fst) ?cs = map fst cells" using assms(1) by (metis map_fst_zip map_map)
  have fst: "map fst ?m = map fst cells" using assms(1) by (intro nth_equalityI) (auto simp: case_prod_unfold)
  have run: "rp_put cells vals rp = (Inr (), rp\<lparr>req_to_token := rows\<rparr>)"
    using assms(1,3) by (auto simp: rp_put_def rows_def Let_def)
  have at: "rows ! k = (case map_of ?m k of None \<Rightarrow> ?t ! k | Some (col, v) \<Rightarrow> (?t ! k)[col := v])" if "k < length ?t" for k
    unfolding rows_def by (rule nth_put_cells) (use d assms(2) that in simp_all)
  have hit: "map_of ?m (fst (cells ! j)) = Some (snd (cells ! j), vals ! j)" if "j < length cells" for j
  proof -
    have "?m ! j \<in> set ?m" using that assms(1) by (intro nth_mem) simp
    moreover have "?m ! j = (fst (cells ! j), snd (cells ! j), vals ! j)" using that assms(1) by (simp add: case_prod_unfold)
    ultimately show ?thesis using fst assms(2) by (simp add: map_of_eq_Some_iff)
  qed
  have miss: "map_of ?m k = None" if "k \<notin> fst ` set cells" for k
    using that arg_cong[OF fst, of set] by (simp only: map_of_eq_None_iff set_map) simp
  have "fst (cells ! j) < length ?t" if "j < length cells" for j using assms(3) nth_mem[OF that] by (auto simp: case_prod_unfold)
  then show ?thesis using run at hit miss by (intro exI[of _ rows]) simp
qed

text \<open>
  C16: A decode step extends every row by one slot whenever it can: with free and evictable slots
  for one token per request it writes a new slot of its own behind the tokens of each request and
  leaves the rest of the table, the held nodes and the sum of the slots as they are; otherwise it
  raises and no row has changed.
\<close>

theorem alloc_for_decode_appends:
  fixes reqs s
  defines "t \<equiv> req_to_token (r_rows s)"
  assumes "active cfg" "radix_ok cfg H s" "page_size (r_alloc s) = 1" "pick_ok cfg" "tok_inv (r_alloc s)" "c_page_size cfg = 1"
    and "distinct (map de_row reqs)"
    and "\<forall>r \<in> set reqs. de_row r < length t \<and> (if enc then de_encoder_len r + de_seq_len r else de_seq_len r) < length (t ! de_row r)"
  shows "if int (tok_available_size (r_alloc s)) + evictable_size s < int (length reqs)
    then \<exists>s'. alloc_for_decode cfg h enc reqs 1 s = Some (Inl RuntimeError, s') \<and> r_rows s' = r_rows s
    else \<exists>xs s'. alloc_for_decode cfg h enc reqs 1 s = Some (Inr xs, s') \<and> length xs = length reqs
           \<and> radix_ok cfg H s' \<and> mset xs + spare_slots s' + cached_slots s' = spare_slots s + cached_slots s
           \<and> (\<forall>x us hd. hd \<in># H \<longrightarrow> at_node x (root_node s) us hd \<longrightarrow> at_node x (root_node s') us hd)
           \<and> (\<forall>j < length reqs. req_to_token (r_rows s') ! de_row (reqs ! j) = (t ! de_row (reqs ! j))
                [(if enc then de_encoder_len (reqs ! j) + de_seq_len (reqs ! j) else de_seq_len (reqs ! j)) := xs ! j])
           \<and> (\<forall>k < length t. k \<notin> de_row ` set reqs \<longrightarrow> req_to_token (r_rows s') ! k = t ! k)"
proof -
  note a = alloc_token_slots_spec[OF assms(2-6), of "length reqs" False]
  let ?col = "\<lambda>r. if enc then de_encoder_len r + de_seq_len r else de_seq_len r"
  let ?cells = "map (\<lambda>r. (de_row r, ?col r)) reqs"
  show ?thesis
  proof (cases "int (length reqs) \<le> int (tok_available_size (r_alloc s)) + evictable_size s")
    case False
    then obtain s' where "alloc_token_slots cfg (length reqs) False s = Some (Inl RuntimeError, s')" "r_rows s' = r_rows s" using a by auto
    then show ?thesis using False assms(7) by (simp add: alloc_for_decode_def obind_def)
  next
    case True
    then obtain xs st s2 where x: "alloc_token_slots cfg (length reqs) False s = Some (Inr (xs, st), s2)" "length xs = length reqs"
        "radix_ok cfg H s2" "mset xs + spare_slots s2 + cached_slots s2 = spare_slots s + cached_slots s" "r_rows s2 = r_rows s"
        "\<And>x us hd. hd \<in># H \<Longrightarrow> at_node x (root_node s) us hd \<Longrightarrow> at_node x (root_node s2) us hd"
      using a by auto
    obtain rows where r: "rp_put ?cells xs (r_rows s2) = (Inr (), (r_rows s2)\<lparr>req_to_token := rows\<rparr>)"
        "\<forall>j < length ?cells. rows ! fst (?cells ! j) = (t ! fst (?cells ! j))[snd (?cells ! j) := xs ! j]"
        "\<forall>k < length t. k \<notin> fst ` set ?cells \<longrightarrow> rows ! k = t ! k"
      using rp_put_cells[of xs ?cells "r_rows s2"] x(2,5) assms(8,9) by (auto simp: t_def comp_def)
    have "alloc_for_decode cfg h enc reqs 1 s = Some (Inr xs, s2\<lparr>r_rows := (r_rows s2)\<lparr>req_to_token := rows\<rparr>\<rparr>)"
      using x(1) r(1) assms(7) by (simp add: alloc_for_decode_def obind_def total_run_def ret_app)
    moreover have "fst ` set ?cells = de_row ` set reqs" by force
    ultimately show ?thesis using True x(2,3,4,6) r(2,3) by simp
  qed
qed

section \<open>The slot of the last token\<close>

text \<open>
  The two ways to look up the slot of the last token agree: the kernel and the tensor
  expression both give the slot at position \<open>len - 1\<close> of the row, and -1 for an empty request.
\<close>

theorem get_last_loc_agree:
  assumes "has_width w tbl" "0 < w" "\<forall>(row, len) \<in> set reqs. row < length tbl \<and> len \<le> w"
  shows "get_last_loc_torch tbl reqs = Inr (get_last_loc_triton h tbl w reqs)
    \<and> get_last_loc_triton h tbl w reqs = map (\<lambda>(row, len). if 0 < len then tbl ! row ! (len - 1) else - 1) reqs"
proof -
  let ?v = "\<lambda>(row, len). if 0 < len then tbl ! row ! (len - 1) else - 1"
  let ?n = "length reqs"
  have cell: "page_load h (concat tbl) (int (row * w) + (int len - 1)) = tbl ! row ! (len - 1)"
    if "row < length tbl" "len \<le> w" "0 < len" for row len
  proof -
    have i: "int (row * w) + (int len - 1) = int (row * w + (len - 1))" using that(3) by simp
    have "Suc row * w \<le> length tbl * w" using that(1) by (intro mult_le_mono1) simp
    then have "row * w + (len - 1) < length (concat tbl)" using that(2,3) assms(1) by (simp add: length_concat_width)
    moreover have "concat tbl ! (row * w + (len - 1)) = tbl ! row ! (len - 1)"
      using that(2,3) by (intro nth_concat_width[OF assms(1) that(1)]) simp
    ultimately show ?thesis unfolding i page_load_def by (simp del: of_nat_add of_nat_mult)
  qed
  let ?f = "\<lambda>x. (int x, case reqs ! x of (row, len) \<Rightarrow> if 0 < len then page_load h (concat tbl) (int (row * w) + (int len - 1)) else - 1)"
  have k: "get_last_loc_kernel h (concat tbl) reqs w 256 i = map (\<lambda>j. ?f (j + i * 256)) (filter (\<lambda>j. j + i * 256 < ?n) [0 ..< 256])" for i
    by (simp only: get_last_loc_kernel_def case_prod_unfold Let_def)
  have le: "?n \<le> (?n + 256 - 1) div 256 * 256"
    using div_mult_mod_eq[of "?n + 256 - 1" 256] mod_less_divisor[of 256 "?n + 256 - 1"] by linarith
  have "concat (map (get_last_loc_kernel h (concat tbl) reqs w 256) [0 ..< (?n + 256 - 1) div 256]) = map ?f [0 ..< ?n]"
    using blocks_of[of ?f 256 ?n "(?n + 256 - 1) div 256"] unfolding k[abs_def] min_absorb1[OF le] .
  also have "\<dots> = run_of 0 (map ?v reqs)"
  proof (rule run_of_nth)
    fix i assume i: "i < length (map ?v reqs)"
    obtain row len where r: "reqs ! i = (row, len)" by fastforce
    then have "row < length tbl" "len \<le> w" using assms(3) nth_mem[of i reqs] i by auto
    then show "map ?f [0 ..< ?n] ! i = (int (0 + i), map ?v reqs ! i)" using i r cell by simp
  qed simp
  finally have tr: "get_last_loc_triton h tbl w reqs = map ?v reqs"
    by (simp add: get_last_loc_triton_def store_run_of blit_def)
  let ?u = "\<lambda>p. tbl ! fst p ! (if 0 < snd p then snd p - 1 else w - 1)"
  have cell_ok: "(case p of (row, len) \<Rightarrow> cell_at tbl row (int len - 1)) = Inr (?u p)" if "p \<in> set reqs" for p
    using that assms by (cases "snd p") (auto simp: cell_at_def py_nth_def has_width_def nat_diff_distrib)
  have "gather_all (\<lambda>(row, len). cell_at tbl row (int len - 1)) reqs = Inr (map ?u reqs)"
    by (intro gather_all_map cell_ok)
  then have "get_last_loc_torch tbl reqs = Inr (map2 (\<lambda>(row, len) x. if 0 < len then x else - 1) reqs (map ?u reqs))"
    by (simp add: get_last_loc_torch_def)
  also have "map2 (\<lambda>(row, len) x. if 0 < len then x else - 1) reqs (map ?u reqs) = map ?v reqs"
    by (induction reqs) (simp_all add: case_prod_unfold)
  finally show ?thesis using tr by simp
qed

section \<open>A small batch\<close>

text \<open>The cache of the demo with two rows free: one request has matched two tokens, the other none.\<close>

definition batch_hw :: hw where
  "batch_hw = \<lparr>lane_other = 0, oob_page = (\<lambda>_. 0), uninit_cell = (\<lambda>_. 0)\<rparr>"

definition demo_table :: radix where
  "demo_table = demo_held\<lparr>r_rows := \<lparr>rp_size = 3, max_context_len = 4,
     req_to_token = [[0, 0, 0, 0], [9, 9, 9, 9], [8, 8, 8, 8]], free_slots = [2, 0]\<rparr>\<rparr>"

definition demo_reqs :: "extend_req list" where
  "demo_reqs = [\<lparr>ex_prefix = [1, 2], ex_prefix_len = 2, ex_seq_len = 3, ex_extend_len = 1\<rparr>,
     \<lparr>ex_prefix = [], ex_prefix_len = 0, ex_seq_len = 2, ex_extend_len = 2\<rparr>]"

lemma demo_rows_ok:
  "rows_ok (r_rows demo_table)" "\<forall>r \<in> set demo_reqs. extend_req_ok (max_context_len (r_rows demo_table)) r"
  "slots_start demo_reqs (length demo_reqs) = 3" "mset [1, 0] = mset [0 ..< length demo_reqs]"
  by (simp_all add: rows_ok_def has_width_def demo_table_def demo_reqs_def extend_req_ok_def slots_start_def add_mset_commute)

lemma demo_table_ok:
  "radix_ok demo_cfg {#2#} demo_table" "page_size (r_alloc demo_table) = 1" "tok_inv (r_alloc demo_table)" "c_page_size demo_cfg = 1"
proof -
  have "tok_inv (r_alloc demo_held)" by code_simp
  then show "radix_ok demo_cfg {#2#} demo_table" "page_size (r_alloc demo_table) = 1" "tok_inv (r_alloc demo_table)"
    using demo_ok by (simp_all add: demo_table_def)
qed (simp add: demo_cfg_def)

lemma demo_room: "\<not> int (tok_available_size (r_alloc demo_table)) + evictable_size demo_table < 3"
  by code_simp

theorem write_cache_indices_agree_witness:
  "write_cache_indices batch_hw (Some [1, 0]) [5, 6, 7] (zip demo_reqs [2, 0]) demo_table
     = write_cache_indices batch_hw None [5, 6, 7] (zip demo_reqs [2, 0]) demo_table
   \<and> req_to_token (r_rows (snd (write_cache_indices batch_hw None [5, 6, 7] (zip demo_reqs [2, 0]) demo_table)))
     = [[6, 7, 0, 0], [9, 9, 9, 9], [1, 2, 5, 8]]"
proof -
  have b: "batch_ok [5, 6, 7] (zip demo_reqs [2, 0]) (r_rows demo_table)"
    by (simp add: batch_ok_def has_width_def demo_table_def demo_reqs_def extend_req_ok_def slots_start_def)
  have "write_cache_indices batch_hw (Some [1, 0]) [5, 6, 7] (zip demo_reqs [2, 0]) demo_table
     = write_cache_indices batch_hw None [5, 6, 7] (zip demo_reqs [2, 0]) demo_table"
    using write_cache_indices_agree[OF b, of "[1, 0]" batch_hw] by (simp add: demo_reqs_def add_mset_commute)
  moreover have "req_to_token (r_rows (snd (write_cache_indices batch_hw None [5, 6, 7] (zip demo_reqs [2, 0]) demo_table)))
     = [[6, 7, 0, 0], [9, 9, 9, 9], [1, 2, 5, 8]]" by code_simp
  ultimately show ?thesis by simp
qed

theorem alloc_for_extend_fills_rows_witness:
  "\<exists>xs s'. alloc_for_extend demo_cfg batch_hw (Some [1, 0]) demo_reqs 3 demo_table = Some (Inr (xs, [2, 0]), s') \<and> length xs = 3
     \<and> at_node None (root_node s') (map Tok [5, 6]) 2
     \<and> req_to_token (r_rows s') ! 2 = [1, 2, xs ! 0, 8] \<and> req_to_token (r_rows s') ! 1 = [9, 9, 9, 9]"
proof -
  note f = alloc_for_extend_fills_rows[OF demo_facts(1) demo_table_ok(1,2) demo_pick demo_table_ok(3,4) demo_rows_ok(1,2),
      where triton = "Some [1, 0]" and h = batch_hw, unfolded demo_rows_ok(3)]
  have t: "free_slots (r_rows demo_table) = [2, 0]" "length demo_reqs = 2" "take 2 [2, 0::nat] = [2, 0]"
    "req_to_token (r_rows demo_table) = [[0, 0, 0, 0], [9, 9, 9, 9], [8, 8, 8, 8]]"
    "root_node demo_table = root_node demo_held" by (simp_all add: demo_table_def demo_reqs_def)
  have o: "mset [1, 0] = mset [0 ..< 2]" by (simp add: add_mset_commute numeral_2_eq_2)
  have j: "0 < (2::nat)" "(1::nat) < length [[0, 0, 0, 0], [9, 9, 9, 9], [8, 8, 8, 8::int]]" "1 \<notin> set [2, 0::nat]"
    "demo_reqs ! 0 = \<lparr>ex_prefix = [1, 2], ex_prefix_len = 2, ex_seq_len = 3, ex_extend_len = 1\<rparr>" "slots_start demo_reqs 0 = 0"
    by (simp_all add: demo_reqs_def slots_start_def)
  obtain xs s' where s': "alloc_for_extend demo_cfg batch_hw (Some [1, 0]) demo_reqs 3 demo_table = Some (Inr (xs, [2, 0]), s')"
      "length xs = 3" "at_node None (root_node s') (map Tok [5, 6]) 2"
      "req_to_token (r_rows s') ! 2 = [1, 2] @ slice xs 0 1 @ [8]" "req_to_token (r_rows s') ! 1 = [9, 9, 9, 9]"
    using f demo_room o demo_path j unfolding t by fastforce
  then show ?thesis by (intro exI[of _ xs] exI[of _ s']) (simp add: slice_def take_Suc_conv_app_nth)
qed

theorem alloc_for_decode_appends_witness:
  "\<exists>xs s'. alloc_for_decode demo_cfg batch_hw False [\<lparr>de_row = 1, de_seq_len = 2, de_encoder_len = 0\<rparr>] 1 demo_table = Some (Inr xs, s')
     \<and> length xs = 1 \<and> req_to_token (r_rows s') ! 1 = [9, 9, xs ! 0, 9]"
proof -
  have t: "req_to_token (r_rows demo_table) = [[0, 0, 0, 0], [9, 9, 9, 9], [8, 8, 8, 8]]" by (simp add: demo_table_def)
  show ?thesis
    using alloc_for_decode_appends[OF demo_facts(1) demo_table_ok(1,2) demo_pick demo_table_ok(3,4),
        where reqs = "[\<lparr>de_row = 1, de_seq_len = 2, de_encoder_len = 0\<rparr>]" and enc = False and h = batch_hw, unfolded t] demo_room
    by fastforce
qed

theorem get_last_loc_agree_witness:
  "get_last_loc_torch [[4, 5], [6, 7]] [(1, 2), (0, 0), (0, 1)] = Inr (get_last_loc_triton batch_hw [[4, 5], [6, 7]] 2 [(1, 2), (0, 0), (0, 1)])
   \<and> get_last_loc_torch [[4, 5], [6, 7]] [(1, 2), (0, 0), (0, 1)] = Inr [7, -1, 4]"
  using get_last_loc_agree[of 2 "[[4, 5], [6, 7]]" "[(1, 2), (0, 0), (0, 1)]" batch_hw] by (simp add: has_width_def)

end
