(* ===== verification/Spec2Isabelle.thy ===== *)
theory Spec2Isabelle
  imports ProviderSafety SamplerProps DeviceGuidance LengthDiagProps TreeValueLife CacheRows
begin

text \<open>
  A verification development of LenVM, the length value model: a value head that predicts how many
  tokens a response still needs, its training, and its use to steer the length of what a language
  model generates.

  \<^bold>\<open>The program.\<close> Serving is a fork of sglang (below \<open>src/sglang-LenVM/python/sglang/srt\<close>, called
  \<open>srt\<close> here), training a fork of LlamaFactory (below
  \<open>src/LlamaFactory-LenVM/src/llamafactory\<close>, called \<open>lf\<close>). At every decoding step the guided sampler
  (\<open>srt/lvm/lvm_guided_sampling.py\<close>) picks candidate tokens for each request, asks a provider for the
  value of each candidate, and changes the probabilities from which \<open>srt/layers/sampler.py\<close> then
  draws. The provider either runs the value model in the same process
  (\<open>srt/lvm/lvm_inproc_runner.py\<close>, with its own KV cache over the allocators of \<open>srt/mem_cache\<close>) or
  sends a tree-value request to a server. That server admits the request
  (\<open>srt/managers/scheduler.py\<close>), matches its prefix in the radix cache
  (\<open>srt/mem_cache/radix_cache.py\<close>), gives it KV slots (\<open>srt/mem_cache/common.py\<close>), evaluates all
  candidates in one forward pass under a tree attention mask (\<open>srt/lvm/tree_value_spec.py\<close>), and
  caches the prefix but not the candidates. The trainer (\<open>lf/train/lenvm\<close>, \<open>lf/data\<close>) builds the labels,
  the regression targets, the loss and the diagnostics.

  \<^bold>\<open>Conventions\<close> (\<open>Prelude\<close>, \<open>XFloat\<close>). A call that may raise is a function of type \<open>run\<close> from a state
  to a result or a Python exception and the state it leaves, which is not rolled back; without state
  it is of type \<open>res\<close>. Tensors are lists, dictionaries with an order are association lists.
  Floating point numbers are \<open>real\<close>; where infinities and NaN decide the outcome they are \<open>xfloat\<close>.
  Token counts and slots are \<open>nat\<close> or \<open>int\<close>: they stay far below the 64 bits of the code, and the seed
  hash of the sampler, where wrap-around matters, is on machine words. A Triton kernel is the list of stores of each of its programs;
  masked lanes, uninitialised cells and addresses out of range have arbitrary values (record \<open>hw\<close>),
  so theorems hold for all of them. The forward pass, the HTTP provider, the tokenizer, the random
  numbers, the choice of \<open>torch.topk\<close> and of \<open>heapq\<close> among equals, and the clocks are parameters;
  what is assumed of them is a named predicate with an instance in a witness.

  \<^bold>\<open>Theories and sources.\<close>
  \<^item> \<open>Allocator\<close>: the token allocator and the paged allocator with their kernels (\<open>srt/mem_cache/allocator.py\<close>).
    \<open>AllocKernels\<close> shows that the kernels compute the page layout. \<open>SlotPool\<close> has the request pool
    (\<open>srt/mem_cache/memory_pool.py\<close>) and the locale \<open>slot_pool\<close>, interpreted on all three pools: no
    sequence of allocations and releases loses or duplicates a slot.
  \<^item> \<open>RadixTree\<close>, \<open>RadixCache\<close>: the prefix cache (\<open>srt/mem_cache/radix_cache.py\<close>, \<open>evict_policy.py\<close>). The
    tree is a value with node numbers; what the code reaches through parent pointers the model finds
    by number. \<open>RadixSpec\<close> and \<open>RadixStore\<close> relate the tree to its specification, a map from keys to
    the slots of their longest cached prefix, with the locale \<open>prefix_store\<close> for what clients rely on.
    \<open>RadixGrow\<close>, \<open>RadixSums\<close> (locale \<open>node_measure\<close>), \<open>RadixLocks\<close>, \<open>RadixOps\<close>, \<open>RadixPath\<close>,
    \<open>RadixEvict\<close> and \<open>RadixRequests\<close> carry the invariant: reference counts, the two sizes, the paths
    of held nodes, and what becomes of each slot. \<open>RadixProps\<close> states the results, among them an
    invariant over all runs of the cache.
  \<^item> \<open>TreeValueRequests\<close>: tree-value requests in the scheduler, from admission to release
    (\<open>srt/managers/scheduler.py\<close>, \<open>schedule_batch.py\<close>, \<open>scheduler_output_processor_mixin.py\<close>, \<open>utils.py\<close>);
    \<open>TreeValueLife\<close> follows a request through them.
  \<^item> \<open>CacheAlloc\<close>: slots and rows for extend and decode batches (\<open>srt/mem_cache/common.py\<close>).
    \<open>CacheAllocProps\<close> shows that allocation succeeds when free and evictable slots suffice,
    \<open>CacheRows\<close> what the rows hold afterwards and that kernel and loop agree.
  \<^item> \<open>TreeValueSpec\<close>: the tree mask and its batch operations (\<open>srt/lvm/tree_value_spec.py\<close>); \<open>Positions\<close>:
    token positions (\<open>srt/model_executor/forward_batch_info.py\<close>).
  \<^item> \<open>LvmKv\<close>: the in-process runner (\<open>srt/lvm/lvm_inproc_runner.py\<close>); \<open>LvmKvInv\<close> its ownership invariant,
    \<open>LvmKvSafety\<close> the step relation over its calls with safety and conservation.
  \<^item> \<open>GuidanceParams\<close>, \<open>ValueGuidance\<close>, \<open>GuidedSampler\<close>: the guided sampler (\<open>srt/lvm/lvm_guided_sampling.py\<close>,
    \<open>lvm_value_utils.py\<close>): request parameters, the guidance functions, the step on a batch.
    \<open>ValueGuidanceProps\<close>, \<open>GuidedSamplerProps\<close>, \<open>DeviceGuidance\<close> and \<open>ProviderSafety\<close> have their
    properties. \<open>Sampler\<close> and \<open>SamplerProps\<close>: the routing of a batch and the seeded draw
    (\<open>srt/layers/sampler.py\<close>).
  \<^item> \<open>LengthValue\<close>, \<open>LengthDiag\<close>: the trainer, its metrics and its argument checks (\<open>lf/train/lenvm\<close>,
    \<open>lf/hparams/finetuning_args.py\<close>); \<open>ValueLabels\<close>: labels, truncation, packing and collation
    (\<open>lf/data/processor\<close>, \<open>lf/data/collator.py\<close>). \<open>LengthValueProps\<close>, \<open>ValueLabelsProps\<close> and
    \<open>LengthDiagProps\<close> have their properties.
  \<^item> This theory: a tree-value request through match, lock, placement in a batch and release.

  \<^bold>\<open>What the theorems show.\<close> Memory: no KV slot and no row is owned twice or lost, in the pools, in the
  runner under every sequence of calls that return, in the radix cache under every run, and over the
  whole life of a tree-value request; eviction ends, takes only what no request holds, and allocation
  succeeds whenever free and evictable slots suffice. Refinement: the radix cache implements its map, the kernels
  implement the page layout and the rows, mask batches implement lists of requests. Guidance: results
  are distributions on the candidates, move the expected value in the direction asked for, and the
  batched filters agree with the native ones. Training: with lambda one the targets are the discounted
  returns of the labels, the micro-batch losses add up, the minimum of the loss decodes to the label.
  Some theorems record what the code does against its intention: exceptions that lose slots, pages of
  several slots in the runner, guided batches that skip the native filters, labels of truncated
  prompts, an undefined loss under the logarithmic target, a provider that always raises.

  \<^bold>\<open>Fuel and bounds.\<close> Loops are structural or carry a termination proof, with these exceptions. The eviction
  loop has fuel for one round more than the tree has nodes, and the collection of leaves for as many
  rounds as nodes: every round removes a node or takes one off the stack, and the theorems on eviction
  say that the result is not \<open>None\<close>. The packing loop ends exactly when every length fits, which is
  proved as such. Newton's iteration of the guidance has the fixed number of rounds of the code.
  The results on the slots of the prefix cache are for an allocator with pages of one slot, the default
  of the server; matching and insertion are treated for every page size.

  \<^bold>\<open>Not modelled.\<close> Of the radix cache: node hashes and the event queue for external routers, metrics, the
  host-memory fields, and nodes that a client keeps after they were evicted. Of batch allocation:
  hybrid pools for Mamba and sliding-window layers. Of the scheduler: the event loop, the choice of
  the next batch, chunked prefill, retraction, disaggregation, the other kinds of requests. The other
  prefix caches, model layers, tokenization, HTTP and server arguments are upstream code that the
  modelled parts reach through parameters. Of training: model and dataset loading, templates,
  checkpoints, the other stages, the web interface. Data generation and evaluation are scripts that
  send prompts and write files. Rounding of floating point numbers is not modelled, so the results on
  probabilities are about exact arithmetic.
\<close>

section \<open>A tree-value request through the server\<close>

text \<open>The entry of a request in an extend batch.\<close>

definition extend_entry :: "tv_req \<Rightarrow> extend_req" where
  "extend_entry t = \<lparr>ex_prefix = prefix_indices (cached t), ex_prefix_len = length (prefix_indices (cached t)),
     ex_seq_len = length (fill_ids (cached t)), ex_extend_len = nat (extend_input_len t)\<rparr>"

lemma mset_outside_slice:
  assumes "i \<le> j"
  shows "mset (Prelude.slice xs i j) + mset (take i xs @ drop j xs) = mset xs"
proof -
  have "xs = take i xs @ Prelude.slice xs i j @ drop j xs"
    using assms append_take_drop_id[of "j - i" "drop i xs"] by (simp add: Prelude.slice_def)
  then have "mset xs = mset (take i xs @ Prelude.slice xs i j @ drop j xs)" by (rule arg_cong)
  then show ?thesis by simp
qed

text \<open>A row that starts with \<open>v\<close> and a part of the new slots.\<close>

lemma placed_row:
  assumes "row = v @ Prelude.slice xs a b @ drop n old" "length v \<le> n" "b = a + (n - length v)" "b \<le> length xs" "n \<le> length old"
  shows "n \<le> length row" "take n row = v @ Prelude.slice xs a b" "Prelude.slice row (length v) n = Prelude.slice xs a b"
proof -
  show "n \<le> length row" and t: "take n row = v @ Prelude.slice xs a b" using assms by simp_all
  have "Prelude.slice row (length v) n = drop (length v) (take n row)" by (simp add: Prelude.slice_def drop_take)
  then show "Prelude.slice row (length v) n = Prelude.slice xs a b" by (simp add: t)
qed

lemma insert_stores_key:
  assumes "active cfg" "radix_wf cfg s" "c_page_size cfg dvd length ks" "length vals = length ks"
  shows "length (store_insert (c_page_size cfg) (stored cfg s) x ks vals x ks) = length ks"
proof -
  have "match_tokens (c_page_size cfg) ks ks = length ks" "length (stored cfg s x ks) \<le> length ks"
    using rstore.match_self[of cfg s ks] rstore.bound[of cfg s ks x] assms(1-3) by simp_all
  then show ?thesis using assms(4) by (auto simp: store_insert_def Let_def)
qed

text \<open>
  C6: From admission to release: a tree-value request is matched and locked, other clients use the
  cache, and the request is placed in a batch with others. Then its row holds the slots of its cached
  prefix followed by its share of the new slots, and at its end the slots that the rest of the
  batch does not hold are exactly those that were free or cached before the batch was placed, its row
  and its lock are given back, and its whole prefix is in the cache.
\<close>

theorem tree_value_batch_returns_slots:
  assumes "active cfg" "\<not> c_is_eagle cfg" "pick_ok cfg" "c_page_size cfg = 1" "radix_ok cfg H s" "page_size (r_alloc s) = 1"
    and "fresh_tree_value t" "\<not> req_bypass_cache t" "\<not> c_disable_finished_insert cfg"
    and "init_next_round_input (Some cfg) t s = (Inr t1, s1)"
    and "inc_lock_ref cfg (last_node (cached t1)) s1 = (Inr d, s2)"
    and "client_steps cfg H s2 H' s3"
    and "tok_inv (r_alloc s3)" "rows_ok (r_rows s3)" "\<forall>r \<in> set reqs. extend_req_ok (max_context_len (r_rows s3)) r"
    and "j < length reqs" "reqs ! j = extend_entry t1" "length reqs \<le> length (free_slots (r_rows s3))"
    and "int (slots_start reqs (length reqs)) \<le> int (tok_available_size (r_alloc s3)) + evictable_size s3"
    and "case triton of None \<Rightarrow> True | Some order \<Rightarrow> mset order = mset [0 ..< length reqs]"
  defines "a \<equiv> slots_start reqs j" and "b \<equiv> slots_start reqs j + nat (extend_input_len t1)"
    and "n \<equiv> length (origin_input_ids (cached t))" and "keys \<equiv> take (nat (req_prefix_len t)) (origin_input_ids (cached t))"
  shows "\<exists>xs idxs s4 t5 s5. alloc_for_extend cfg h triton reqs (slots_start reqs (length reqs)) s3 = Some (Inr (xs, idxs), s4)
    \<and> length xs = slots_start reqs (length reqs)
    \<and> finish_embedding cfg speculative (placed (idxs ! j) t1) s4 = (Inr t5, s5)
    \<and> take n (req_to_token (r_rows s4) ! (idxs ! j)) = prefix_indices (cached t1) @ Prelude.slice xs a b
    \<and> radix_ok cfg H' s5
    \<and> spare_slots s5 + cached_slots s5 + mset (take a xs @ drop b xs) = spare_slots s3 + cached_slots s3
    \<and> free_slots (r_rows s5) = drop (length reqs) (free_slots (r_rows s3)) @ [idxs ! j]
    \<and> length (stored cfg s5 (rq_extra_key (cached t)) keys) = length keys"
proof -
  let ?x = "rq_extra_key (cached t)"
  obtain v l where m: "matched_as t t1 v l" "c_page_size cfg dvd length v" "radix_ok cfg (add_mset l H) s2" "r_alloc s2 = r_alloc s"
      "at_node ?x (root_node s2) (take (length v) (origin_input_ids (cached t))) l"
    using tree_value_matched[OF assms(1,2,5,7,10,11)] by blast
  have p2: "page_size (r_alloc s2) = 1" using assms(6) m(4) by simp
  note k = client_steps_keep[OF assms(12,1,3) m(3) p2 m(5)]
  have c1: "prefix_indices (cached t1) = v" "fill_ids (cached t1) = origin_input_ids (cached t)" using m(1) by (simp_all add: matched_as_def)
  have e1: "extend_input_len t1 = int n - int (length v)"
    using arg_cong[of t1 _ extend_input_len, OF conjunct1[OF conjunct2[OF m(1)[unfolded matched_as_def]]]] by (simp add: n_def)
  have vn: "length v \<le> n" using m(1) assms(7) by (simp add: matched_as_def fresh_tree_value_def n_def)
  have ab: "b = a + (n - length v)" using e1 by (simp add: a_def b_def nat_diff_distrib)
  have rj: "ex_prefix (reqs ! j) = v" "ex_extend_len (reqs ! j) = n - length v" "ex_seq_len (reqs ! j) = n"
    using assms(17) c1 e1 by (simp_all add: extend_entry_def n_def nat_diff_distrib)
  obtain xs s4 where x: "alloc_for_extend cfg h triton reqs (slots_start reqs (length reqs)) s3
        = Some (Inr (xs, take (length reqs) (free_slots (r_rows s3))), s4)"
      "length xs = slots_start reqs (length reqs)" "radix_ok cfg (add_mset l H') s4"
      "mset xs + spare_slots s4 + cached_slots s4 = spare_slots s3 + cached_slots s3"
      "free_slots (r_rows s4) = drop (length reqs) (free_slots (r_rows s3))"
      "at_node ?x (root_node s4) (take (length v) (origin_input_ids (cached t))) l"
      "req_to_token (r_rows s4) ! (take (length reqs) (free_slots (r_rows s3)) ! j)
         = v @ Prelude.slice xs a b @ drop n (req_to_token (r_rows s3) ! (take (length reqs) (free_slots (r_rows s3)) ! j))"
      "length (req_to_token (r_rows s4)) = length (req_to_token (r_rows s3))" "page_size (r_alloc s4) = 1"
    using alloc_for_extend_places[of cfg "add_mset l H'" s3 reqs triton h] k assms(1,3,4,13-16,18-20) rj
    by (auto simp: a_def ab)
  define idx where "idx = take (length reqs) (free_slots (r_rows s3)) ! j"
  let ?row = "req_to_token (r_rows s4) ! idx"
  have i: "idx < length (req_to_token (r_rows s3))"
    using assms(14,16,18) by (auto simp: idx_def rows_ok_def)
  have bx: "b \<le> length xs"
    using slots_start_mono[OF assms(16)] rj(2) x(2) by (simp add: ab a_def)
  have "extend_req_ok (max_context_len (r_rows s3)) (reqs ! j)" using assms(15) nth_mem[OF assms(16)] by blast
  then have old: "n \<le> length (req_to_token (r_rows s3) ! idx)"
    using assms(14) i rj(3) by (simp add: rows_ok_def has_width_def extend_req_ok_def)
  note row = placed_row[OF x(7)[folded idx_def] vn ab bx old]
  obtain t5 s5 where f: "finish_embedding cfg speculative (placed idx t1) s4 = (Inr t5, s5)" "radix_ok cfg H' s5"
      "spare_slots s5 + cached_slots s5 = spare_slots s4 + cached_slots s4 + mset (Prelude.slice xs a b)"
      "r_rows s5 = rp_free_one (r_rows s4) idx"
      "stored cfg s5 ?x keys = store_insert (c_page_size cfg) (stored cfg s4) ?x keys (take (length keys) ?row) ?x keys"
    using tree_value_finish[OF assms(1,2,7-9) m(1,2) x(3,9,6), of idx speculative] i x(8) row assms(4)
    by (auto simp: n_def keys_def page_align_def)
  have "length keys \<le> n" by (simp add: keys_def n_def)
  then have "length (stored cfg s5 ?x keys) = length keys"
    unfolding f(5) using x(3) row(1) assms(1,4) by (intro insert_stores_key) (simp_all add: radix_ok_def)
  moreover have "spare_slots s5 + cached_slots s5 + mset (take a xs @ drop b xs) = spare_slots s3 + cached_slots s3"
    using f(3) x(4) mset_outside_slice[of a b xs] by (simp add: ab ac_simps)
  ultimately show ?thesis using x(1,2,5) f(1,2,4) row(2)
    by (intro exI[of _ xs] exI[of _ "take (length reqs) (free_slots (r_rows s3))"] exI[of _ s4] exI[of _ t5] exI[of _ s5])
       (simp add: idx_def c1 rp_free_one_def)
qed

text \<open>The request of the small cache, alone in its batch.\<close>

definition demo_matched_req :: tv_req where
  "demo_matched_req = (case init_next_round_input (Some demo_cfg) (tv_request demo_tv) demo_full of (Inr t, _) \<Rightarrow> t | _ \<Rightarrow> tv_request demo_tv)"

definition demo_locked :: radix where
  "demo_locked = snd (inc_lock_ref demo_cfg (last_node (cached demo_matched_req))
     (snd (init_next_round_input (Some demo_cfg) (tv_request demo_tv) demo_full)))"

lemma demo_admitted:
  "\<exists>s1 d. init_next_round_input (Some demo_cfg) (tv_request demo_tv) demo_full = (Inr demo_matched_req, s1)
     \<and> inc_lock_ref demo_cfg (last_node (cached demo_matched_req)) s1 = (Inr d, demo_locked)"
proof -
  obtain t1 s1 d s2 where i: "init_next_round_input (Some demo_cfg) (tv_request demo_tv) demo_full = (Inr t1, s1)"
      "inc_lock_ref demo_cfg (last_node (cached t1)) s1 = (Inr d, s2)"
    using demo_init by (elim exE conjE)
  then have "demo_matched_req = t1" "demo_locked = s2" by (simp_all add: demo_matched_req_def demo_locked_def)
  then show ?thesis using i by blast
qed

theorem tree_value_batch_returns_slots_witness:
  "\<exists>xs idxs s4 t5 s5. alloc_for_extend demo_cfg batch_hw (Some [0]) [extend_entry demo_matched_req] 3 demo_locked = Some (Inr (xs, idxs), s4)
     \<and> finish_embedding demo_cfg False (placed (idxs ! 0) demo_matched_req) s4 = (Inr t5, s5)
     \<and> spare_slots s5 + cached_slots s5 = spare_slots demo_locked + cached_slots demo_locked
     \<and> length (stored demo_cfg s5 None (map Tok [5, 6, 7])) = 3"
proof -
  let ?r = "[extend_entry demo_matched_req]"
  obtain s1 d where i: "init_next_round_input (Some demo_cfg) (tv_request demo_tv) demo_full = (Inr demo_matched_req, s1)"
      "inc_lock_ref demo_cfg (last_node (cached demo_matched_req)) s1 = (Inr d, demo_locked)"
    using demo_admitted by blast
  have a: "tok_inv (r_alloc demo_locked)" by code_simp
  have b: "rows_ok (r_rows demo_locked)" by code_simp
  have c: "\<forall>r \<in> set ?r. extend_req_ok (max_context_len (r_rows demo_locked)) r" by code_simp
  have e: "slots_start ?r (length ?r) = 3" "slots_start ?r 0 = 0" "extend_input_len demo_matched_req = 3"
    "length ?r \<le> length (free_slots (r_rows demo_locked))" by code_simp+
  have f: "int 3 \<le> int (tok_available_size (r_alloc demo_locked)) + evictable_size demo_locked" by code_simp
  have g: "rq_extra_key (cached (tv_request demo_tv)) = None" "take (nat (req_prefix_len (tv_request demo_tv))) (origin_input_ids (cached (tv_request demo_tv))) = map Tok [5, 6, 7]"
    by (simp_all add: tv_request_def demo_tv_def)
  have k: "c_page_size demo_cfg = 1" "\<not> c_disable_finished_insert demo_cfg" by (simp_all add: demo_cfg_def)
  obtain xs idxs s4 t5 s5 where x: "alloc_for_extend demo_cfg batch_hw (Some [0]) ?r 3 demo_locked = Some (Inr (xs, idxs), s4)"
      "finish_embedding demo_cfg False (placed (idxs ! 0) demo_matched_req) s4 = (Inr t5, s5)"
      "spare_slots s5 + cached_slots s5 + mset (take 0 xs @ drop 3 xs) = spare_slots demo_locked + cached_slots demo_locked"
      "length (stored demo_cfg s5 None (map Tok [5, 6, 7])) = length (map Tok [5, 6, 7])" "length xs = 3"
    using tree_value_batch_returns_slots[OF demo_facts(1) demo_not_eagle demo_pick k(1) demo_full_ok demo_fresh(1,2) k(2) i client_steps.none a b c,
        where j = 0 and triton = "Some [0]" and h = batch_hw and speculative = False, unfolded e(1)] e f unfolding g by auto
  then show ?thesis using x by (intro exI[of _ xs] exI[of _ idxs] exI[of _ s4] exI[of _ t5] exI[of _ s5]) simp
qed

end
